(* ===== verification/Prelude.thy ===== *)
theory Prelude
  imports Main "HOL-Library.Word" "HOL-Library.Sublist"
begin

text \<open>
  What every component shares.  A byte of textual code (\<open>u8\<close> in a \<open>&[u8]\<close> or in a \<open>&str\<close>) is
  a HOL \<open>char\<close>, which has exactly 8 bits, so \<open>string\<close> is a Rust byte slice, and a Rust \<open>str\<close>
  is its UTF-8 bytes.  A byte that the code computes with is an \<open>8 word\<close>.  Below are the
  operations of Rust's standard library that the modelled files call on slices and strings,
  each total, with \<open>None\<close> where Rust returns \<open>None\<close>, and the facts about them that the
  components' proofs rest on.
\<close>

type_synonym u8 = "8 word"
type_synonym u16 = "16 word"
type_synonym u32 = "32 word"
type_synonym u64 = "64 word"

text \<open>Facts that read a successful search back into what it found.\<close>

named_theorems found "what a successful search of a slice says of the slice"

section \<open>Searching slices\<close>

text \<open>\<open>iter().position(p)\<close> and \<open>iter().rposition(p)\<close>.\<close>

fun position :: "('a \<Rightarrow> bool) \<Rightarrow> 'a list \<Rightarrow> nat option" where
  "position p [] = None"
| "position p (x # xs) = (if p x then Some 0 else map_option Suc (position p xs))"

definition rposition :: "('a \<Rightarrow> bool) \<Rightarrow> 'a list \<Rightarrow> nat option" where
  "rposition p xs = map_option (\<lambda>i. length xs - 1 - i) (position p (rev xs))"

text \<open>\<open>windows(needle.len()).position(|w| w == needle)\<close>, for a needle that is not empty.\<close>

fun find_sub :: "'a list \<Rightarrow> 'a list \<Rightarrow> nat option" where
  "find_sub needle [] = None"
| "find_sub needle (x # xs) =
     (if prefix needle (x # xs) then Some 0 else map_option Suc (find_sub needle xs))"

text \<open>\<open>&xs[a..b]\<close>, for \<open>a \<le> b \<le> xs.len()\<close>.\<close>

definition slice :: "'a list \<Rightarrow> nat \<Rightarrow> nat \<Rightarrow> 'a list" where
  "slice xs a b = take (b - a) (drop a xs)"

definition strip_prefix :: "'a list \<Rightarrow> 'a list \<Rightarrow> 'a list option" where
  "strip_prefix pre xs = (if prefix pre xs then Some (drop (length pre) xs) else None)"

definition strip_suffix :: "'a list \<Rightarrow> 'a list \<Rightarrow> 'a list option" where
  "strip_suffix suf xs =
     (if suffix suf xs then Some (take (length xs - length suf) xs) else None)"

lemma position_None [found]: "position p xs = None \<longleftrightarrow> (\<forall>x\<in>set xs. \<not> p x)"
  by (induction xs) auto

lemma position_Some [found]:
  "position p xs = Some n \<longleftrightarrow> n < length xs \<and> p (xs ! n) \<and> (\<forall>m<n. \<not> p (xs ! m))"
proof (induction xs arbitrary: n)
  case (Cons x xs)
  show ?case
  proof (cases n)
    case 0
    then show ?thesis by auto
  next
    case (Suc k)
    then show ?thesis
      using Cons.IH [of k] by (auto simp: less_Suc_eq_0_disj nth_Cons')
  qed
qed simp

lemma position_less: "position p xs = Some n \<Longrightarrow> n < length xs"
  by (simp add: position_Some)

lemma position_holds: "position p xs = Some n \<Longrightarrow> p (xs ! n)"
  by (simp add: position_Some)

lemma position_take: "position p xs = Some n \<Longrightarrow> x \<in> set (take n xs) \<Longrightarrow> \<not> p x"
  by (auto simp: position_Some in_set_conv_nth)

lemma position_append:
  "position p (xs @ ys) =
     (case position p xs of Some n \<Rightarrow> Some n
      | None \<Rightarrow> map_option (\<lambda>i. length xs + i) (position p ys))"
  by (induction xs; cases "position p ys") (auto split: option.split)

lemma position_skip:
  "(\<And>x. x \<in> set xs \<Longrightarrow> \<not> p x) \<Longrightarrow> p y \<Longrightarrow> position p (xs @ y # ys) = Some (length xs)"
  by (induction xs) auto

lemma position_takeWhile:
  "position p xs = Some n \<Longrightarrow> takeWhile (\<lambda>x. \<not> p x) xs = take n xs"
  by (induction xs arbitrary: n) (auto split: if_splits)

lemma rposition_None [found]: "rposition p xs = None \<longleftrightarrow> (\<forall>x\<in>set xs. \<not> p x)"
  by (simp add: rposition_def position_None)

lemma rposition_Some [found]:
  "rposition p xs = Some n \<Longrightarrow>
     n < length xs \<and> p (xs ! n) \<and> (\<forall>m. n < m \<and> m < length xs \<longrightarrow> \<not> p (xs ! m))"
proof -
  assume "rposition p xs = Some n"
  then obtain i where i: "position p (rev xs) = Some i" and n: "n = length xs - 1 - i"
    by (auto simp: rposition_def)
  from i have il: "i < length xs" and pi: "p (rev xs ! i)"
    and before: "\<And>m. m < i \<Longrightarrow> \<not> p (rev xs ! m)"
    by (simp_all add: position_Some)
  have "\<not> p (xs ! m)" if "n < m" "m < length xs" for m
    using before [of "length xs - 1 - m"] that n il by (simp add: rev_nth Suc_diff_Suc)
  then show ?thesis
    using il pi n by (simp add: rev_nth)
qed

lemma rposition_less: "rposition p xs = Some n \<Longrightarrow> n < length xs"
  by (simp add: rposition_Some)

lemma find_sub_Some [found]:
  "needle \<noteq> [] \<Longrightarrow> find_sub needle xs = Some n \<Longrightarrow>
     n + length needle \<le> length xs \<and> prefix needle (drop n xs)
     \<and> (\<forall>m<n. \<not> prefix needle (drop m xs))"
proof (induction xs arbitrary: n)
  case (Cons x xs)
  show ?case
  proof (cases "prefix needle (x # xs)")
    case True
    then show ?thesis
      using Cons.prems by (auto dest: prefix_length_le)
  next
    case False
    with Cons.prems obtain k where k: "find_sub needle xs = Some k" and n: "n = Suc k"
      by auto
    from Cons.IH [OF Cons.prems(1) k] False n show ?thesis
      by (auto simp: less_Suc_eq_0_disj)
  qed
qed simp

lemma find_sub_le: "needle \<noteq> [] \<Longrightarrow> find_sub needle xs = Some n \<Longrightarrow> n + length needle \<le> length xs"
  by (simp add: find_sub_Some)

lemma find_sub_less: "find_sub needle xs = Some n \<Longrightarrow> n < length xs"
  by (induction xs arbitrary: n) (auto split: if_splits)

lemma find_sub_None:
  "needle \<noteq> [] \<Longrightarrow> find_sub needle xs = None \<longleftrightarrow> (\<forall>n. \<not> prefix needle (drop n xs))"
proof (induction xs)
  case (Cons x xs)
  have "(\<forall>n. \<not> prefix needle (drop n (x # xs)))
      \<longleftrightarrow> \<not> prefix needle (x # xs) \<and> (\<forall>n. \<not> prefix needle (drop n xs))"
    by (metis drop0 drop_Suc_Cons not0_implies_Suc)
  then show ?case
    using Cons by auto
qed simp

lemma find_sub_sublist: "needle \<noteq> [] \<Longrightarrow> find_sub needle xs = None \<longleftrightarrow> \<not> sublist needle xs"
proof (induction xs)
  case (Cons x xs)
  then show ?case by (auto simp: sublist_Cons_right)
qed simp

lemma slice_length [simp]: "a \<le> b \<Longrightarrow> b \<le> length xs \<Longrightarrow> length (slice xs a b) = b - a"
  by (simp add: slice_def)

lemma slice_all [simp]: "slice xs 0 (length xs) = xs"
  by (simp add: slice_def)

lemma take_length_prefix: "prefix pre xs \<Longrightarrow> take (length pre) xs = pre"
  by (auto simp: prefix_def)

lemma strip_prefix_Some [found]:
  "strip_prefix pre xs = Some ys \<longleftrightarrow> xs = pre @ ys"
  by (auto simp: strip_prefix_def prefix_def split: if_splits)

lemma strip_suffix_Some [found]:
  "strip_suffix suf xs = Some ys \<longleftrightarrow> xs = ys @ suf"
  by (auto simp: strip_suffix_def suffix_def split: if_splits)

lemma suffix_single: "suffix [x] ys \<longleftrightarrow> ys \<noteq> [] \<and> last ys = x"
  by (cases ys rule: rev_cases) (auto simp: suffix_def)

section \<open>Strings\<close>

abbreviation code :: "char \<Rightarrow> nat" where
  "code c \<equiv> of_char c"

text \<open>A double quotation mark, and a string between two of them.\<close>

abbreviation quote :: char where
  "quote \<equiv> CHR 0x22"

abbreviation quoted :: "string \<Rightarrow> string" where
  "quoted s \<equiv> quote # s @ [quote]"

definition is_ascii_alphabetic :: "char \<Rightarrow> bool" where
  "is_ascii_alphabetic c \<longleftrightarrow> 65 \<le> code c \<and> code c \<le> 90 \<or> 97 \<le> code c \<and> code c \<le> 122"

definition is_ascii_digit :: "char \<Rightarrow> bool" where
  "is_ascii_digit c \<longleftrightarrow> 48 \<le> code c \<and> code c \<le> 57"

definition is_ascii_alphanumeric :: "char \<Rightarrow> bool" where
  "is_ascii_alphanumeric c \<longleftrightarrow> is_ascii_alphabetic c \<or> is_ascii_digit c"

definition ascii_lower :: "char \<Rightarrow> char" where
  "ascii_lower c = (if 65 \<le> code c \<and> code c \<le> 90 then char_of (code c + 32) else c)"

definition eq_ignore_ascii_case :: "string \<Rightarrow> string \<Rightarrow> bool" where
  "eq_ignore_ascii_case s t \<longleftrightarrow> map ascii_lower s = map ascii_lower t"

text \<open>\<open>split_once(c)\<close> and \<open>split(c)\<close> of a string.\<close>

fun split_once :: "char \<Rightarrow> string \<Rightarrow> (string \<times> string) option" where
  "split_once c [] = None"
| "split_once c (x # xs) =
     (if x = c then Some ([], xs)
      else map_option (\<lambda>(a, b). (x # a, b)) (split_once c xs))"

fun split_on :: "char \<Rightarrow> string \<Rightarrow> string list" where
  "split_on c [] = [[]]"
| "split_on c (x # xs) =
     (if x = c then [] # split_on c xs
      else (case split_on c xs of [] \<Rightarrow> [[x]] | w # ws \<Rightarrow> (x # w) # ws))"

lemma split_once_Some [found]:
  "split_once c s = Some (a, b) \<longleftrightarrow> s = a @ c # b \<and> c \<notin> set a"
proof (induction s arbitrary: a)
  case (Cons x s)
  then show ?case
    by (cases a) auto
qed simp

lemma split_once_None [found]: "split_once c s = None \<longleftrightarrow> c \<notin> set s"
  by (induction s) auto

lemma split_once_length: "split_once c s = Some (a, b) \<Longrightarrow> length b < length s"
  by (auto simp: split_once_Some)

text \<open>
  \<open>str::lines\<close>: the pieces between line feeds, each without a carriage return that ends it,
  and no piece after a line feed at the end.
\<close>

function line_pieces :: "string \<Rightarrow> string list" where
  "line_pieces s =
     (case split_once (CHR 0x0A) s of
        None \<Rightarrow> (if s = [] then [] else [s])
      | Some (a, b) \<Rightarrow> (if suffix [CHR 0x0D] a then butlast a else a) # line_pieces b)"
  by pat_completeness auto
termination
  by (relation "measure length") (auto dest: split_once_length)

declare line_pieces.simps [simp del]

definition str_lines :: "string \<Rightarrow> string list" where
  "str_lines s = line_pieces s"

text \<open>
  \<open>str::trim\<close>: the characters with Unicode's White\_Space property are removed at both ends.
  \<open>white_len\<close> is how many bytes of such a character the string starts with, 0 for none.
\<close>

definition whites :: "string list" where
  "whites =
     map (\<lambda>n. [char_of (n :: nat)]) [9, 10, 11, 12, 13, 32]
     @ [[CHR 0xC2, CHR 0x85], [CHR 0xC2, CHR 0xA0], [CHR 0xE1, CHR 0x9A, CHR 0x80]]
     @ map (\<lambda>n. [CHR 0xE2, CHR 0x80, char_of (n :: nat)])
         [128, 129, 130, 131, 132, 133, 134, 135, 136, 137, 138, 168, 169, 175]
     @ [[CHR 0xE2, CHR 0x81, CHR 0x9F], [CHR 0xE3, CHR 0x80, CHR 0x80]]"

fun trim_with :: "string list \<Rightarrow> string \<Rightarrow> string" where
  "trim_with ws [] = []"
| "trim_with ws (c # s) =
     (case find (\<lambda>w. w \<noteq> [] \<and> prefix w (c # s)) ws of
        Some w \<Rightarrow> trim_with ws (drop (length w - 1) s)
      | None \<Rightarrow> c # s)"

definition trim_start :: "string \<Rightarrow> string" where
  "trim_start s = trim_with whites s"

definition trim_end :: "string \<Rightarrow> string" where
  "trim_end s = rev (trim_with (map rev whites) (rev s))"

definition trim :: "string \<Rightarrow> string" where
  "trim s = trim_end (trim_start s)"

text \<open>The bytes of the character a UTF-8 string starts with.\<close>

definition is_continuation :: "char \<Rightarrow> bool" where
  "is_continuation c \<longleftrightarrow> 128 \<le> code c \<and> code c < 192"

definition utf8_head :: "string \<Rightarrow> string" where
  "utf8_head s = take 1 s @ takeWhile is_continuation (drop 1 s)"

text \<open>
  \<open>str::from_utf8(bytes).is_ok()\<close>: the well-formed byte sequences of the Unicode standard's
  table 3-7, which excludes overlong forms and surrogates.
\<close>

fun utf8_ok :: "string \<Rightarrow> bool" where
  "utf8_ok [] = True"
| "utf8_ok (a # s) =
     (let n = code a in
      if n < 128 then utf8_ok s
      else if 194 \<le> n \<and> n \<le> 223 then
        (case s of b # s' \<Rightarrow> is_continuation b \<and> utf8_ok s' | _ \<Rightarrow> False)
      else if 224 \<le> n \<and> n \<le> 239 then
        (case s of b # c # s' \<Rightarrow>
           (if n = 224 then 160 \<le> code b \<and> code b < 192
            else if n = 237 then 128 \<le> code b \<and> code b < 160
            else is_continuation b)
           \<and> is_continuation c \<and> utf8_ok s'
         | _ \<Rightarrow> False)
      else if 240 \<le> n \<and> n \<le> 244 then
        (case s of b # c # d # s' \<Rightarrow>
           (if n = 240 then 144 \<le> code b \<and> code b < 192
            else if n = 244 then 128 \<le> code b \<and> code b < 144
            else is_continuation b)
           \<and> is_continuation c \<and> is_continuation d \<and> utf8_ok s'
         | _ \<Rightarrow> False)
      else False)"

declare utf8_ok.simps(2) [simp del]

lemma utf8_ok_ascii_Cons [simp]: "code a < 128 \<Longrightarrow> utf8_ok (a # s) = utf8_ok s"
  unfolding utf8_ok.simps(2) Let_def by (rule if_P)

lemma utf8_ok_ascii: "(\<And>c. c \<in> set s \<Longrightarrow> code c < 128) \<Longrightarrow> utf8_ok s"
  by (induction s) simp_all

lemma split_on_no_sep: "c \<notin> set s \<Longrightarrow> split_on c s = [s]"
  by (induction s) auto

lemma split_on_append: "c \<notin> set s \<Longrightarrow> split_on c (s @ c # t) = s # split_on c t"
  by (induction s) auto

lemma split_on_pieces: "w \<in> set (split_on c s) \<Longrightarrow> c \<notin> set w"
proof (induction s arbitrary: w)
  case (Cons x s)
  show ?case
  proof (cases "split_on c s")
    case Nil
    with Cons.prems show ?thesis
      by (auto split: if_splits)
  next
    case split: (Cons v vs)
    then have "v \<in> set (split_on c s)"
      by simp
    then have "c \<notin> set v"
      by (rule Cons.IH)
    moreover have "c \<notin> set u" if "u \<in> set vs" for u
      using that split by (intro Cons.IH) simp
    ultimately show ?thesis
      using Cons.prems split by (auto split: if_splits)
  qed
qed simp

lemma takeWhile_all_append:
  "list_all p xs \<Longrightarrow> ys = [] \<or> \<not> p (hd ys) \<Longrightarrow> takeWhile p (xs @ ys) = xs"
  by (induction xs) (cases ys, auto)

lemma dropWhile_all_append:
  "list_all p xs \<Longrightarrow> ys = [] \<or> \<not> p (hd ys) \<Longrightarrow> dropWhile p (xs @ ys) = ys"
  by (induction xs) (cases ys, auto)

text \<open>\<open>char::from_u32\<close> and \<open>char::encode_utf8\<close>.\<close>

definition is_scalar :: "nat \<Rightarrow> bool" where
  "is_scalar c \<longleftrightarrow> c < 0xD800 \<or> 0xE000 \<le> c \<and> c < 0x110000"

definition encode_utf8 :: "nat \<Rightarrow> string" where
  "encode_utf8 c =
     (if c < 0x80 then [char_of c]
      else if c < 0x800 then
        [char_of (0xC0 + c div 64), char_of (0x80 + c mod 64)]
      else if c < 0x10000 then
        [char_of (0xE0 + c div 4096), char_of (0x80 + c div 64 mod 64), char_of (0x80 + c mod 64)]
      else
        [char_of (0xF0 + c div 262144), char_of (0x80 + c div 4096 mod 64),
         char_of (0x80 + c div 64 mod 64), char_of (0x80 + c mod 64)])"

lemma unat_byte: "unat (a :: u8) < 256"
  using unsigned_less [of a] by simp

section \<open>Numbers\<close>

text \<open>A number in decimal.\<close>

fun decimal :: "nat \<Rightarrow> string" where
  "decimal v = (if v < 10 then [char_of (48 + v)] else decimal (v div 10) @ [char_of (48 + v mod 10)])"

declare decimal.simps [simp del]

lemma decimal_length: "v < 10 ^ k \<Longrightarrow> 0 < k \<Longrightarrow> length (decimal v) \<le> k"
proof (induction v arbitrary: k rule: decimal.induct)
  case (1 v)
  show ?case
  proof (cases "v < 10")
    case True
    with 1 show ?thesis by (simp add: decimal.simps [of v])
  next
    case False
    then have "k \<noteq> 1" using "1.prems" by auto
    then obtain j where j: "k = Suc j" "0 < j" using "1.prems"(2) by (cases k) auto
    with "1.prems" have "v div 10 < 10 ^ j" by (simp add: less_mult_imp_div_less mult.commute)
    with "1.IH" [OF False _ j(2)] j False show ?thesis by (simp add: decimal.simps [of v])
  qed
qed

lemma decimal_digits: "c \<in> set (decimal v) \<Longrightarrow> 48 \<le> code c \<and> code c \<le> 57"
proof (induction v rule: decimal.induct)
  case (1 v)
  have "v mod 10 < 10" by simp
  with 1 show ?case by (auto simp: decimal.simps [of v] split: if_splits)
qed

lemma decimal_nonempty [simp]: "decimal v \<noteq> []"
  by (simp add: decimal.simps [of v])

text \<open>\<open>str::parse::<usize>\<close>: digits after an optional plus sign, to a number below \<open>2 ^ 64\<close>.\<close>

fun digits_value :: "nat \<Rightarrow> string \<Rightarrow> nat option" where
  "digits_value acc [] = Some acc"
| "digits_value acc (c # cs) =
     (if is_ascii_digit c then digits_value (acc * 10 + (code c - 48)) cs else None)"

definition parse_usize :: "string \<Rightarrow> nat option" where
  "parse_usize s =
     (let ds = (case s of [] \<Rightarrow> [] | c # cs \<Rightarrow> if c = CHR ''+'' then cs else s)
      in if ds = [] then None
         else (case digits_value 0 ds of None \<Rightarrow> None | Some n \<Rightarrow> if n < 2 ^ 64 then Some n else None))"

lemma digits_value_append:
  "digits_value acc (xs @ ys) =
     (case digits_value acc xs of None \<Rightarrow> None | Some n \<Rightarrow> digits_value n ys)"
  by (induction xs arbitrary: acc) simp_all

lemma code_char_of: "n < 256 \<Longrightarrow> code (char_of n) = n"
  by (simp add: take_bit_eq_mod of_char_of)

lemma digits_value_decimal: "digits_value 0 (decimal v) = Some v"
proof (induction v rule: decimal.induct)
  case (1 v)
  have "v mod 10 < 10" by simp
  with 1 show ?case
    by (auto simp: decimal.simps [of v] digits_value_append is_ascii_digit_def code_char_of)
qed

lemma decimal_Cons: "\<exists>d ds. decimal v = d # ds \<and> is_ascii_digit d"
  using decimal_digits [of _ v] by (cases "decimal v") (auto simp: is_ascii_digit_def)

lemma parse_usize_decimal: "n < 2 ^ 64 \<Longrightarrow> parse_usize (decimal n) = Some n"
  using decimal_Cons [of n] digits_value_decimal [of n]
  by (auto simp: parse_usize_def is_ascii_digit_def)

section \<open>Joined text\<close>

fun joined :: "string \<Rightarrow> string list \<Rightarrow> string" where
  "joined sep [] = []"
| "joined sep [x] = x"
| "joined sep (x # y # xs) = x @ sep @ joined sep (y # xs)"

lemma joined_Cons: "joined sep (x # xs) = x @ concat (map (\<lambda>y. sep @ y) xs)"
  by (induction sep "x # xs" arbitrary: x xs rule: joined.induct) simp_all

lemma joined_snoc: "joined sep (xs @ [x]) = (if xs = [] then x else joined sep xs @ sep @ x)"
  by (cases xs) (simp_all add: joined_Cons)

section \<open>Results\<close>

text \<open>The \<open>?\<close> operator: the first error of a sequence of fallible steps is its result.\<close>

fun and_then :: "'e + 'a \<Rightarrow> ('a \<Rightarrow> 'e + 'b) \<Rightarrow> 'e + 'b" where
  "and_then (Inl e) f = Inl e"
| "and_then (Inr x) f = f x"

lemma and_then_Inr: "and_then r f = Inr v \<longleftrightarrow> (\<exists>x. r = Inr x \<and> f x = Inr v)"
  by (cases r) auto

lemma and_then_mono:
  "and_then r f = Inr v \<Longrightarrow> (\<And>x. r = Inr x \<Longrightarrow> r' = Inr x) \<Longrightarrow> (\<And>x. f x = Inr v \<Longrightarrow> f' x = Inr v) \<Longrightarrow>
   and_then r' f' = Inr v"
  by (auto simp: and_then_Inr)

lemma map_sum_Inr_iff: "map_sum id g r = Inr v \<longleftrightarrow> (\<exists>x. r = Inr x \<and> v = g x)"
  by (cases r) auto

end
