(* ===== verification/Cfg.thy ===== *)
theory Cfg
  imports Prelude
begin

text \<open>
  \<open>crates/cargo-pwrs/src/cfg.rs\<close>: the tokens, the recursive-descent parser and the evaluator
  of cargo's \<open>cfg(...)\<close> expressions.  \<open>&str\<close> is its UTF-8 bytes; every byte the tokenizer
  tests for is ASCII, and an ASCII byte never occurs inside a longer character, so walking
  bytes and walking characters find the same tokens.  An error is a value of the datatype
  \<open>cfg_error\<close>, one constructor for each message of the source, with what the message names.  The parser is a record of its tokens and the index it is at, passed and returned.
  The parser recurses on fuel; \<open>expr_fuel_enough\<close> shows that \<open>fuel_for\<close> is enough for every
  input, so the error \<open>OutOfFuel\<close>, which the source has not, is never returned.
\<close>

section \<open>Data\<close>

datatype cfg =
    Name string
  | Pair string string

datatype cfg_expr =
    Not cfg_expr
  | All "cfg_expr list"
  | AnyOf "cfg_expr list"
  | Val cfg
  | ETrue
  | EFalse

datatype token =
    LeftParen
  | RightParen
  | Comma
  | Equals
  | Ident string bool
  | Str string

datatype cfg_error =
    StringNotClosed
  | CannotBeginRaw string
  | EndsAfterRaw
  | CannotAppear string
  | ExpectedWhere token token
  | EndsWhere token
  | NoPredicate
  | IdentExpectedWhere token
  | NoIdent
  | StringExpectedWhere token
  | NoString
  | Follows token
  | OutOfFuel

text \<open>\<open>Expr::matches\<close>.\<close>

fun matches :: "cfg_expr \<Rightarrow> cfg list \<Rightarrow> bool" where
  "matches (Not e) target = (\<not> matches e target)"
| "matches (All es) target = list_all (\<lambda>e. matches e target) es"
| "matches (AnyOf es) target = list_ex (\<lambda>e. matches e target) es"
| "matches (Val c) target = (c \<in> set target)"
| "matches ETrue target = True"
| "matches EFalse target = False"

text \<open>\<open>Token::describe\<close>, the words an error message has for a token.\<close>

fun describe :: "token \<Rightarrow> string" where
  "describe LeftParen = ''`(`''"
| "describe RightParen = ''`)`''"
| "describe Comma = ''`,`''"
| "describe Equals = ''`=`''"
| "describe (Ident name raw) = ''`'' @ name @ ''`''"
| "describe (Str text) = [CHR 0x22] @ text @ [CHR 0x22]"

section \<open>Tokens\<close>

definition is_ident_start :: "char \<Rightarrow> bool" where
  "is_ident_start c \<longleftrightarrow> c = CHR ''_'' \<or> is_ascii_alphabetic c"

definition is_ident_rest :: "char \<Rightarrow> bool" where
  "is_ident_rest c \<longleftrightarrow> is_ident_start c \<or> is_ascii_digit c"

text \<open>
  \<open>tokens\<close>: \<open>out\<close> is the tokens so far and the list the characters not yet taken.  A slice
  \<open>&text[start..end]\<close> of the source is the characters taken between the two offsets.
\<close>

function tokens_loop :: "string \<Rightarrow> token list \<Rightarrow> cfg_error + token list" where
  "tokens_loop [] out = Inr out"
| "tokens_loop (c # cs) out =
     (if c = CHR '' '' then tokens_loop cs out
      else if c = CHR ''('' then tokens_loop cs (out @ [LeftParen])
      else if c = CHR '')'' then tokens_loop cs (out @ [RightParen])
      else if c = CHR '','' then tokens_loop cs (out @ [Comma])
      else if c = CHR ''='' then tokens_loop cs (out @ [Equals])
      else if c = CHR 0x22 then
        (case split_once (CHR 0x22) cs of
           Some (text, rest) \<Rightarrow> tokens_loop rest (out @ [Str text])
         | None \<Rightarrow> Inl StringNotClosed)
      else if is_ident_start c then
        (if c = CHR ''r'' \<and> prefix ''#'' cs then
           (case tl cs of
              [] \<Rightarrow> Inl EndsAfterRaw
            | d # ds \<Rightarrow>
                (if is_ident_start d then
                   tokens_loop (dropWhile is_ident_rest ds)
                     (out @ [Ident (d # takeWhile is_ident_rest ds) True])
                 else Inl (CannotBeginRaw (utf8_head (d # ds)))))
         else tokens_loop (dropWhile is_ident_rest cs)
                (out @ [Ident (c # takeWhile is_ident_rest cs) False]))
      else Inl (CannotAppear (utf8_head (c # cs))))"
  by pat_completeness auto
termination
proof (relation "measure (length \<circ> fst)", goal_cases)
  case (7 c cs out a s rest)
  then show ?case
    using split_once_length [of "CHR 0x22" cs s rest] by simp
next
  case (8 c cs out d ds)
  then show ?case
    using length_dropWhile_le [of is_ident_rest ds] by (cases cs) (auto simp: less_Suc_eq_le)
next
  case (9 c cs out)
  then show ?case
    using length_dropWhile_le [of is_ident_rest cs] by (auto simp: less_Suc_eq_le)
qed auto

definition tokens :: "string \<Rightarrow> cfg_error + token list" where
  "tokens text = tokens_loop text []"

section \<open>The parser\<close>

record parser =
  toks :: "token list"
  cursor :: nat

text \<open>\<open>self.tokens.get(self.at)\<close>.\<close>

definition peek :: "parser \<Rightarrow> token option" where
  "peek p = (if cursor p < length (toks p) then Some (toks p ! cursor p) else None)"

definition advance :: "parser \<Rightarrow> parser" where
  "advance p = p\<lparr>cursor := cursor p + 1\<rparr>"

definition skip :: "token \<Rightarrow> parser \<Rightarrow> bool \<times> parser" where
  "skip token p = (if peek p = Some token then (True, advance p) else (False, p))"

definition expect :: "token \<Rightarrow> parser \<Rightarrow> cfg_error + parser" where
  "expect token p =
     (case peek p of
        Some t \<Rightarrow> if t = token then Inr (advance p) else Inl (ExpectedWhere token t)
      | None \<Rightarrow> Inl (EndsWhere token))"

definition value_p :: "parser \<Rightarrow> cfg_error + (cfg \<times> parser)" where
  "value_p p =
     (case peek p of
        Some (Ident name raw) \<Rightarrow>
          (case skip Equals (advance p) of
             (False, p1) \<Rightarrow> Inr (Name name, p1)
           | (True, p1) \<Rightarrow>
               (case peek p1 of
                  Some (Str text) \<Rightarrow> Inr (Pair name text, advance p1)
                | Some t \<Rightarrow> Inl (StringExpectedWhere t)
                | None \<Rightarrow> Inl NoString))
      | Some t \<Rightarrow> Inl (IdentExpectedWhere t)
      | None \<Rightarrow> Inl NoIdent)"

text \<open>The expression a value stands for where a predicate belongs.\<close>

definition predicate_of :: "cfg \<Rightarrow> cfg_expr" where
  "predicate_of c =
     (case c of
        Name name \<Rightarrow>
          if name = ''true'' then ETrue else if name = ''false'' then EFalse else Val c
      | Pair k v \<Rightarrow> Val c)"

text \<open>\<open>Parser::expr\<close> and the loop over the items of \<open>all\<close> and \<open>any\<close>.\<close>

fun expr_fuel :: "nat \<Rightarrow> parser \<Rightarrow> cfg_error + (cfg_expr \<times> parser)"
  and items_fuel :: "nat \<Rightarrow> parser \<Rightarrow> cfg_expr list \<Rightarrow> cfg_error + (cfg_expr list \<times> parser)"
where
  "expr_fuel 0 p = Inl OutOfFuel"
| "expr_fuel (Suc k) p =
     (case peek p of
        None \<Rightarrow> Inl NoPredicate
      | Some t \<Rightarrow>
          if t = Ident ''all'' False \<or> t = Ident ''any'' False then
            (case expect LeftParen (advance p) of
               Inl e \<Rightarrow> Inl e
             | Inr p1 \<Rightarrow>
                 (case items_fuel k p1 [] of
                    Inl e \<Rightarrow> Inl e
                  | Inr (items, p2) \<Rightarrow>
                      Inr (if t = Ident ''all'' False then All items else AnyOf items, p2)))
          else if t = Ident ''not'' False then
            (case expect LeftParen (advance p) of
               Inl e \<Rightarrow> Inl e
             | Inr p1 \<Rightarrow>
                 (case expr_fuel k p1 of
                    Inl e \<Rightarrow> Inl e
                  | Inr (inner, p2) \<Rightarrow>
                      (case expect RightParen p2 of
                         Inl e \<Rightarrow> Inl e
                       | Inr p3 \<Rightarrow> Inr (Not inner, p3))))
          else
            (case value_p p of
               Inl e \<Rightarrow> Inl e
             | Inr (c, p1) \<Rightarrow> Inr (predicate_of c, p1)))"
| "items_fuel 0 p items = Inl OutOfFuel"
| "items_fuel (Suc k) p items =
     (case skip RightParen p of
        (True, p1) \<Rightarrow> Inr (items, p1)
      | (False, p1) \<Rightarrow>
          (case expr_fuel k p1 of
             Inl e \<Rightarrow> Inl e
           | Inr (e, p2) \<Rightarrow>
               (case skip Comma p2 of
                  (True, p3) \<Rightarrow> items_fuel k p3 (items @ [e])
                | (False, p3) \<Rightarrow>
                    (case expect RightParen p3 of
                       Inl er \<Rightarrow> Inl er
                     | Inr p4 \<Rightarrow> Inr (items @ [e], p4)))))"

definition fuel_for :: "parser \<Rightarrow> nat" where
  "fuel_for p = 2 * (length (toks p) - cursor p) + 2"

definition expr_p :: "parser \<Rightarrow> cfg_error + (cfg_expr \<times> parser)" where
  "expr_p p = expr_fuel (fuel_for p) p"

text \<open>\<open>Parser::end\<close>.\<close>

definition end_p :: "parser \<Rightarrow> cfg_error + unit" where
  "end_p p = (case peek p of Some extra \<Rightarrow> Inl (Follows extra) | None \<Rightarrow> Inr ())"

definition key_expression :: "string \<Rightarrow> string option" where
  "key_expression key =
     Option.bind (strip_prefix ''cfg('' key) (strip_suffix '')'')"

definition parse :: "string \<Rightarrow> cfg_error + cfg_expr" where
  "parse text =
     (case tokens text of
        Inl e \<Rightarrow> Inl e
      | Inr ts \<Rightarrow>
          (case expr_p \<lparr>toks = ts, cursor = 0\<rparr> of
             Inl e \<Rightarrow> Inl e
           | Inr (e, p) \<Rightarrow> (case end_p p of Inl er \<Rightarrow> Inl er | Inr _ \<Rightarrow> Inr e)))"

section \<open>Names that describe the compilation, and a target's cfg\<close>

fun find_map :: "('a \<Rightarrow> 'b option) \<Rightarrow> 'a list \<Rightarrow> 'b option" where
  "find_map f [] = None"
| "find_map f (x # xs) = (case f x of Some y \<Rightarrow> Some y | None \<Rightarrow> find_map f xs)"

lemma find_map_cong [fundef_cong]:
  "xs = ys \<Longrightarrow> (\<And>x. x \<in> set ys \<Longrightarrow> f x = g x) \<Longrightarrow> find_map f xs = find_map g ys"
  by (induction ys arbitrary: xs) (auto split: option.split)

fun non_target_name :: "cfg_expr \<Rightarrow> string option" where
  "non_target_name (Not e) = non_target_name e"
| "non_target_name (All es) = find_map non_target_name es"
| "non_target_name (AnyOf es) = find_map non_target_name es"
| "non_target_name (Val (Name name)) =
     (if name \<in> set [''test'', ''debug_assertions'', ''proc_macro''] then Some name else None)"
| "non_target_name (Val (Pair key text)) = (if key = ''feature'' then Some key else None)"
| "non_target_name ETrue = None"
| "non_target_name EFalse = None"

text \<open>\<open>target\<close>: the lines rustc prints, each a value; an error names the line.\<close>

definition value_of_line :: "string \<Rightarrow> cfg_error + cfg" where
  "value_of_line line =
     (case tokens line of
        Inl e \<Rightarrow> Inl e
      | Inr ts \<Rightarrow>
          (case value_p \<lparr>toks = ts, cursor = 0\<rparr> of
             Inl e \<Rightarrow> Inl e
           | Inr (c, p) \<Rightarrow> (case end_p p of Inl er \<Rightarrow> Inl er | Inr _ \<Rightarrow> Inr c)))"

fun target_lines :: "string list \<Rightarrow> cfg list \<Rightarrow> (string \<times> cfg_error) + cfg list" where
  "target_lines [] values = Inr values"
| "target_lines (line # lines) values =
     (if trim line = [] then target_lines lines values
      else (case value_of_line line of
              Inl why \<Rightarrow> Inl (line, why)
            | Inr c \<Rightarrow> target_lines lines (values @ [c])))"

definition target :: "string \<Rightarrow> (string \<times> cfg_error) + cfg list" where
  "target printed = target_lines (str_lines printed) []"

section \<open>The parser against a grammar\<close>

text \<open>
  The grammar cargo's documentation gives, over tokens.  \<open>gexpr ts e\<close>: the tokens \<open>ts\<close> are an
  expression whose tree is \<open>e\<close>; \<open>gitems ts es\<close>: they are a list of expressions, with a comma
  after each but perhaps the last, and the closing parenthesis.
\<close>

definition is_operator :: "token \<Rightarrow> bool" where
  "is_operator t \<longleftrightarrow> t \<in> {Ident ''all'' False, Ident ''any'' False, Ident ''not'' False}"

inductive gvalue :: "token list \<Rightarrow> cfg \<Rightarrow> bool" where
  name: "gvalue [Ident n raw] (Name n)"
| pair: "gvalue [Ident k raw, Equals, Str v] (Pair k v)"

inductive gexpr :: "token list \<Rightarrow> cfg_expr \<Rightarrow> bool"
  and gitems :: "token list \<Rightarrow> cfg_expr list \<Rightarrow> bool"
where
  val: "gvalue ts c \<Longrightarrow> \<not> is_operator (hd ts) \<Longrightarrow> gexpr ts (predicate_of c)"
| neg: "gexpr ts e \<Longrightarrow> gexpr (Ident ''not'' False # LeftParen # ts @ [RightParen]) (Not e)"
| all: "gitems ts es \<Longrightarrow> gexpr (Ident ''all'' False # LeftParen # ts) (All es)"
| any: "gitems ts es \<Longrightarrow> gexpr (Ident ''any'' False # LeftParen # ts) (AnyOf es)"
| close: "gitems [RightParen] []"
| last: "gexpr ts e \<Longrightarrow> gitems (ts @ [RightParen]) [e]"
| more: "gexpr ts e \<Longrightarrow> gitems us es \<Longrightarrow> gitems (ts @ Comma # us) (e # es)"

inductive_cases gvalueE: "gvalue ts c"

text \<open>The tokens the parser has not taken; every step of the parser is a step over them.\<close>

definition remaining :: "parser \<Rightarrow> token list" where
  "remaining p = drop (cursor p) (toks p)"

lemma peek_remaining:
  "peek p = (case remaining p of [] \<Rightarrow> None | t # _ \<Rightarrow> Some t)"
  by (auto simp: peek_def remaining_def hd_drop_conv_nth split: list.split
      dest!: arg_cong [where f = hd])

lemma remaining_advance [simp]: "remaining (advance p) = tl (remaining p)"
  by (simp add: remaining_def advance_def drop_Suc tl_drop)

lemma peek_Some [simp]: "peek p = Some t \<longleftrightarrow> (\<exists>ts. remaining p = t # ts)"
  by (auto simp: peek_remaining split: list.split)

lemma peek_None [simp]: "peek p = None \<longleftrightarrow> remaining p = []"
  by (auto simp: peek_remaining split: list.split)

lemma remaining_start [simp]: "remaining \<lparr>toks = ts, cursor = 0\<rparr> = ts"
  by (simp add: remaining_def)

lemma skip_True: "skip t p = (True, p') \<longleftrightarrow> (\<exists>ts. remaining p = t # ts) \<and> p' = advance p"
  by (auto simp: skip_def)

lemma skip_False: "skip t p = (False, p') \<longleftrightarrow> (\<forall>ts. remaining p \<noteq> t # ts) \<and> p' = p"
  by (auto simp: skip_def)

lemma expect_Inr: "expect t p = Inr p' \<longleftrightarrow> (\<exists>ts. remaining p = t # ts) \<and> p' = advance p"
  by (auto simp: expect_def split: option.splits if_splits)

lemma expect_hit: "remaining p = t # ts \<Longrightarrow> expect t p = Inr (advance p)"
  by (simp add: expect_Inr)

lemma expect_no_fuel: "expect t p \<noteq> Inl OutOfFuel"
  by (auto simp: expect_def split: option.splits)

lemmas parser_steps = skip_True skip_False expect_Inr

lemma value_p_sound:
  assumes "value_p p = Inr (c, p')"
  shows "\<exists>us. remaining p = us @ remaining p' \<and> gvalue us c"
  using assms
  by (auto simp: value_p_def skip_def split: option.splits token.splits if_splits
      intro: gvalue.intros)

lemma value_p_no_fuel: "value_p p \<noteq> Inl OutOfFuel"
  by (auto simp: value_p_def split: option.splits token.splits prod.splits bool.splits)

lemma value_p_complete:
  assumes "gvalue us c" and "remaining p = us @ r" and "\<And>r'. r \<noteq> Equals # r'"
  shows "\<exists>p'. value_p p = Inr (c, p') \<and> remaining p' = r"
  using assms
  by (auto elim!: gvalueE simp: value_p_def skip_def peek_remaining split: list.split)

text \<open>The two loops, step by step, with the guards as conditions on the next token.\<close>

lemma items_fuel_Suc:
  "items_fuel (Suc k) p items =
     (if peek p = Some RightParen then Inr (items, advance p)
      else (case expr_fuel k p of
              Inl e \<Rightarrow> Inl e
            | Inr (e, p2) \<Rightarrow>
                if peek p2 = Some Comma then items_fuel k (advance p2) (items @ [e])
                else (case expect RightParen p2 of
                        Inl er \<Rightarrow> Inl er
                      | Inr p4 \<Rightarrow> Inr (items @ [e], p4))))"
  by (simp add: skip_def split: sum.split prod.split)

lemma expr_fuel_list:
  assumes "remaining p = t # ts" and "t = Ident ''all'' False \<or> t = Ident ''any'' False"
  shows "expr_fuel (Suc k) p =
     (case expect LeftParen (advance p) of
        Inl e \<Rightarrow> Inl e
      | Inr p1 \<Rightarrow>
          (case items_fuel k p1 [] of
             Inl e \<Rightarrow> Inl e
           | Inr (es, p2) \<Rightarrow> Inr (if t = Ident ''all'' False then All es else AnyOf es, p2)))"
  using assms by (simp add: peek_remaining)

lemma expr_fuel_neg:
  assumes "remaining p = Ident ''not'' False # ts"
  shows "expr_fuel (Suc k) p =
     (case expect LeftParen (advance p) of
        Inl e \<Rightarrow> Inl e
      | Inr p1 \<Rightarrow>
          (case expr_fuel k p1 of
             Inl e \<Rightarrow> Inl e
           | Inr (e, p2) \<Rightarrow>
               (case expect RightParen p2 of Inl er \<Rightarrow> Inl er | Inr p3 \<Rightarrow> Inr (Not e, p3))))"
  using assms by (simp add: peek_remaining)

lemma expr_fuel_val:
  assumes "remaining p = t # ts" and "\<not> is_operator t"
  shows "expr_fuel (Suc k) p =
     (case value_p p of Inl e \<Rightarrow> Inl e | Inr (c, p1) \<Rightarrow> Inr (predicate_of c, p1))"
  using assms by (simp add: peek_remaining is_operator_def)

lemma expr_fuel_Nil: "remaining p = [] \<Longrightarrow> expr_fuel (Suc k) p = Inl NoPredicate"
  by (simp add: peek_remaining)

lemma token_cases:
  obtains (list) "t = Ident ''all'' False \<or> t = Ident ''any'' False"
    | (neg) "t = Ident ''not'' False" | (val) "\<not> is_operator t"
  by (auto simp: is_operator_def)

declare expr_fuel.simps(2) [simp del] items_fuel.simps(2) [simp del]

lemma expr_items_sound:
  "(expr_fuel k p = Inr (e, p') \<longrightarrow> (\<exists>us. remaining p = us @ remaining p' \<and> gexpr us e))
   \<and> (items_fuel k p items = Inr (done_items, p') \<longrightarrow>
       (\<exists>us es. remaining p = us @ remaining p' \<and> gitems us es \<and> done_items = items @ es))"
proof (induction k arbitrary: p p' e items done_items)
  case (Suc k)
  have expr: "\<exists>us. remaining p = us @ remaining p' \<and> gexpr us e"
    if run: "expr_fuel (Suc k) p = Inr (e, p')"
  proof (cases "remaining p")
    case Nil
    with run show ?thesis by (simp add: expr_fuel_Nil)
  next
    case t: (Cons t ts)
    show ?thesis
    proof (cases t rule: token_cases)
      case list
      from run [unfolded expr_fuel_list [OF t list]] obtain p1 es p2 where
        p1: "expect LeftParen (advance p) = Inr p1" and es: "items_fuel k p1 [] = Inr (es, p2)"
        and e: "e = (if t = Ident ''all'' False then All es else AnyOf es)" "p' = p2"
        by (auto split: sum.splits)
      from Suc.IH es obtain us where us: "remaining p1 = us @ remaining p2" "gitems us es"
        by fastforce
      from p1 t us have "remaining p = (t # LeftParen # us) @ remaining p2"
        by (auto simp: expect_Inr)
      with e us list show ?thesis
        by (auto intro!: exI [of _ "t # LeftParen # us"] gexpr_gitems.intros)
    next
      case neg
      note t' = t [unfolded neg]
      from run [unfolded expr_fuel_neg [OF t']] obtain p1 e1 p2 where
        p1: "expect LeftParen (advance p) = Inr p1" and e1: "expr_fuel k p1 = Inr (e1, p2)"
        and p2: "expect RightParen p2 = Inr p'" and e: "e = Not e1"
        by (auto split: sum.splits)
      from Suc.IH e1 obtain us where us: "remaining p1 = us @ remaining p2" "gexpr us e1"
        by fastforce
      from p1 p2 t' us
      have "remaining p = (t # LeftParen # us @ [RightParen]) @ remaining p'"
        by (auto simp: expect_Inr neg)
      with e us neg show ?thesis
        by (auto intro!: exI [of _ "t # LeftParen # us @ [RightParen]"] gexpr_gitems.intros)
    next
      case val
      from run [unfolded expr_fuel_val [OF t val]] obtain c where
        c: "value_p p = Inr (c, p')" and e: "e = predicate_of c"
        by (auto split: sum.splits)
      from value_p_sound [OF c] obtain us where us: "remaining p = us @ remaining p'" "gvalue us c"
        by auto
      from us t have "hd us = t"
        by (auto elim!: gvalueE)
      with e us val show ?thesis
        by (auto intro: gexpr_gitems.intros)
    qed
  qed
  have items: "\<exists>us es. remaining p = us @ remaining p' \<and> gitems us es \<and> done_items = items @ es"
    if run: "items_fuel (Suc k) p items = Inr (done_items, p')"
  proof (cases "peek p = Some RightParen")
    case True
    with run have "remaining p = [RightParen] @ remaining p'" "done_items = items"
      by (auto simp: items_fuel_Suc)
    then show ?thesis
      using close by fastforce
  next
    case False
    with run obtain e2 p2 where e2: "expr_fuel k p = Inr (e2, p2)"
      by (auto simp: items_fuel_Suc split: sum.splits)
    with Suc.IH obtain us where us: "remaining p = us @ remaining p2" "gexpr us e2"
      by fastforce
    show ?thesis
    proof (cases "peek p2 = Some Comma")
      case True
      then obtain ts where comma: "remaining p2 = Comma # ts" by auto
      from True False e2 run have "items_fuel k (advance p2) (items @ [e2]) = Inr (done_items, p')"
        by (simp add: items_fuel_Suc)
      with Suc.IH obtain vs es where "remaining (advance p2) = vs @ remaining p'" "gitems vs es"
          "done_items = (items @ [e2]) @ es"
        by metis
      with us comma show ?thesis
        by (auto intro!: exI [of _ "us @ Comma # vs"] exI [of _ "e2 # es"] gexpr_gitems.intros)
    next
      case nocomma: False
      with False e2 run have "remaining p2 = RightParen # remaining p'" "done_items = items @ [e2]"
        by (auto simp: items_fuel_Suc expect_Inr split: sum.splits)
      with us show ?thesis
        by (auto intro!: exI [of _ "us @ [RightParen]"] exI [of _ "[e2]"] gexpr_gitems.intros)
    qed
  qed
  from expr items show ?case by blast
qed simp

lemma gexpr_head: "gexpr us e \<Longrightarrow> \<exists>n raw ts. us = Ident n raw # ts"
  by (cases rule: gexpr.cases) (auto elim!: gvalueE)

lemma expr_items_complete:
  "gexpr us e \<Longrightarrow>
     (\<forall>k p r. remaining p = us @ r \<longrightarrow> (\<forall>r'. r \<noteq> Equals # r') \<longrightarrow> 2 * length us \<le> k \<longrightarrow>
        (\<exists>p'. expr_fuel k p = Inr (e, p') \<and> remaining p' = r))"
  "gitems us es \<Longrightarrow>
     (\<forall>k p r items. remaining p = us @ r \<longrightarrow> 2 * length us \<le> k \<longrightarrow>
        (\<exists>p'. items_fuel k p items = Inr (items @ es, p') \<and> remaining p' = r))"
proof (induction rule: gexpr_gitems.inducts)
  case (val ts c)
  show ?case
  proof (intro allI impI)
    fix k p r
    assume r: "remaining p = ts @ r" "\<forall>r'. r \<noteq> Equals # r'" and k: "2 * length ts \<le> k"
    from val(1) obtain t ts' where ts: "ts = t # ts'"
      by (auto elim!: gvalueE)
    with k obtain k' where k': "k = Suc k'" by (cases k) auto
    from val(2) ts have "\<not> is_operator t" by simp
    from expr_fuel_val [OF _ this] r ts value_p_complete [OF val(1) r(1)] r(2) k'
    show "\<exists>p'. expr_fuel k p = Inr (predicate_of c, p') \<and> remaining p' = r"
      by fastforce
  qed
next
  case (neg ts e)
  show ?case
  proof (intro allI impI)
    fix k p r
    assume r: "remaining p = (Ident ''not'' False # LeftParen # ts @ [RightParen]) @ r"
      and k: "2 * length (Ident ''not'' False # LeftParen # ts @ [RightParen]) \<le> k"
    from k obtain k' where k': "k = Suc k'" "2 * length ts \<le> k'" by (cases k) auto
    from r have p1: "expect LeftParen (advance p) = Inr (advance (advance p))"
      by (simp add: expect_Inr)
    from neg.IH [rule_format, of "advance (advance p)" "RightParen # r" k'] r k'(2) obtain p2 where
      "expr_fuel k' (advance (advance p)) = Inr (e, p2)" "remaining p2 = RightParen # r"
      by auto
    with p1 r k' show "\<exists>p'. expr_fuel k p = Inr (Not e, p') \<and> remaining p' = r"
      by (simp add: expr_fuel_neg expect_hit)
  qed
next
  case (all ts es)
  show ?case
  proof (intro allI impI)
    fix k p r
    assume r: "remaining p = (Ident ''all'' False # LeftParen # ts) @ r"
      and k: "2 * length (Ident ''all'' False # LeftParen # ts) \<le> k"
    from k obtain k' where k': "k = Suc k'" "2 * length ts \<le> k'" by (cases k) auto
    from r have p1: "expect LeftParen (advance p) = Inr (advance (advance p))"
      by (simp add: expect_Inr)
    from all.IH [rule_format, of "advance (advance p)" r k' "[]"] r k'(2) obtain p2 where
      "items_fuel k' (advance (advance p)) [] = Inr (es, p2)" "remaining p2 = r"
      by auto
    with p1 r k' show "\<exists>p'. expr_fuel k p = Inr (All es, p') \<and> remaining p' = r"
      by (auto simp: expr_fuel_list)
  qed
next
  case (any ts es)
  show ?case
  proof (intro allI impI)
    fix k p r
    assume r: "remaining p = (Ident ''any'' False # LeftParen # ts) @ r"
      and k: "2 * length (Ident ''any'' False # LeftParen # ts) \<le> k"
    from k obtain k' where k': "k = Suc k'" "2 * length ts \<le> k'" by (cases k) auto
    from r have p1: "expect LeftParen (advance p) = Inr (advance (advance p))"
      by (simp add: expect_Inr)
    from any.IH [rule_format, of "advance (advance p)" r k' "[]"] r k'(2) obtain p2 where
      "items_fuel k' (advance (advance p)) [] = Inr (es, p2)" "remaining p2 = r"
      by auto
    with p1 r k' show "\<exists>p'. expr_fuel k p = Inr (AnyOf es, p') \<and> remaining p' = r"
      by (auto simp: expr_fuel_list)
  qed
next
  case close
  show ?case
  proof (intro allI impI)
    fix k p r items
    assume "remaining p = [RightParen] @ r" and "2 * length [RightParen] \<le> k"
    then show "\<exists>p'. items_fuel k p items = Inr (items @ [], p') \<and> remaining p' = r"
      by (cases k) (auto simp: items_fuel_Suc)
  qed
next
  case (last ts e)
  from gexpr_head [OF last.hyps] obtain n raw us where ts: "ts = Ident n raw # us" by auto
  show ?case
  proof (intro allI impI)
    fix k p r items
    assume r: "remaining p = (ts @ [RightParen]) @ r" and k: "2 * length (ts @ [RightParen]) \<le> k"
    from k obtain k' where k': "k = Suc k'" "2 * length ts \<le> k'" by (cases k) auto
    from last.IH [rule_format, of p "RightParen # r" k'] r k'(2) obtain p2 where
      "expr_fuel k' p = Inr (e, p2)" "remaining p2 = RightParen # r"
      by auto
    with r k' ts show "\<exists>p'. items_fuel k p items = Inr (items @ [e], p') \<and> remaining p' = r"
      by (simp add: items_fuel_Suc expect_hit)
  qed
next
  case (more ts e us es)
  from gexpr_head [OF more.hyps(1)] obtain n raw vs where ts: "ts = Ident n raw # vs" by auto
  show ?case
  proof (intro allI impI)
    fix k p r items
    assume r: "remaining p = (ts @ Comma # us) @ r" and k: "2 * length (ts @ Comma # us) \<le> k"
    from k obtain k' where k': "k = Suc k'" "2 * length ts \<le> k'" "2 * length us \<le> k'"
      by (cases k) auto
    from more.IH(1) [rule_format, of p "Comma # us @ r" k'] r k'(2) obtain p2 where
      p2: "expr_fuel k' p = Inr (e, p2)" "remaining p2 = Comma # us @ r"
      by auto
    from more.IH(2) [rule_format, of "advance p2" r k' "items @ [e]"] k'(3) p2(2) obtain p3 where
      "items_fuel k' (advance p2) (items @ [e]) = Inr ((items @ [e]) @ es, p3)" "remaining p3 = r"
      by auto
    with p2 r k' ts show "\<exists>p'. items_fuel k p items = Inr (items @ e # es, p') \<and> remaining p' = r"
      by (auto simp: items_fuel_Suc)
  qed
qed

text \<open>The fuel a parser is given is enough, so the model never runs out of it.\<close>

lemma expr_items_fuel_enough:
  "(2 * length (remaining p) + 1 \<le> k \<longrightarrow> expr_fuel k p \<noteq> Inl OutOfFuel)
   \<and> (2 * length (remaining p) + 2 \<le> k \<longrightarrow> items_fuel k p items \<noteq> Inl OutOfFuel)"
proof (induction k arbitrary: p items)
  case (Suc k)
  have shrinks: "length (remaining p2) \<le> length (remaining p1)"
    if "expr_fuel k p1 = Inr (e, p2)" for p1 e p2
    using expr_items_sound that by (metis length_append le_add2)
  have expr: "expr_fuel (Suc k) p \<noteq> Inl OutOfFuel" if k: "2 * length (remaining p) \<le> k"
  proof (cases "remaining p")
    case Nil
    then show ?thesis by (simp add: expr_fuel_Nil)
  next
    case t: (Cons t ts)
    show ?thesis
    proof (cases t rule: token_cases)
      case list
      have "items_fuel k p1 [] \<noteq> Inl OutOfFuel"
        if "expect LeftParen (advance p) = Inr p1" for p1
        using Suc.IH [of p1 "[]"] that t k by (auto simp: expect_Inr)
      then show ?thesis
        using expect_no_fuel [of LeftParen "advance p"]
        by (auto simp: expr_fuel_list [OF t list] split: sum.splits)
    next
      case neg
      have "expr_fuel k p1 \<noteq> Inl OutOfFuel"
        if "expect LeftParen (advance p) = Inr p1" for p1
        using Suc.IH [of p1 "[]"] that t k by (auto simp: expect_Inr)
      then show ?thesis
        using expect_no_fuel by (auto simp: expr_fuel_neg [OF t [unfolded neg]] split: sum.splits)
    next
      case val
      then show ?thesis
        using value_p_no_fuel [of p] by (auto simp: expr_fuel_val [OF t] split: sum.splits)
    qed
  qed
  have "items_fuel (Suc k) p items \<noteq> Inl OutOfFuel" if k: "2 * length (remaining p) + 1 \<le> k"
  proof -
    have "expr_fuel k p \<noteq> Inl OutOfFuel"
      using Suc.IH [of p] k by auto
    moreover have "items_fuel k (advance p2) (items @ [e]) \<noteq> Inl OutOfFuel"
      if "expr_fuel k p = Inr (e, p2)" "peek p2 = Some Comma" for e p2
      using Suc.IH [of "advance p2" "items @ [e]"] shrinks [OF that(1)] that(2) k by auto
    ultimately show ?thesis
      using expect_no_fuel by (auto simp: items_fuel_Suc split: sum.splits)
  qed
  with expr show ?case by simp
qed simp

lemma expr_fuel_enough: "expr_p p \<noteq> Inl OutOfFuel"
  using expr_items_fuel_enough [of p "fuel_for p" "[]"]
  by (simp add: expr_p_def fuel_for_def remaining_def)

lemma tokens_loop_no_fuel: "tokens_loop cs out \<noteq> Inl OutOfFuel"
  by (induction cs out rule: tokens_loop.induct) (auto split: option.splits list.splits)

section \<open>Rendering an expression\<close>

text \<open>
  A rendering of an expression as a reader would write it, with a raw identifier for a name
  that is an operator's.  \<open>plain_expr\<close> is what such text can express: names that are
  identifiers, values with no quotation mark, and no name \<open>true\<close> or \<open>false\<close>, which are
  expressions of their own.
\<close>

definition is_ident :: "string \<Rightarrow> bool" where
  "is_ident s \<longleftrightarrow> s \<noteq> [] \<and> is_ident_start (hd s) \<and> list_all is_ident_rest (tl s)"

definition is_op_name :: "string \<Rightarrow> bool" where
  "is_op_name n \<longleftrightarrow> n \<in> set [''all'', ''any'', ''not'']"

definition show_ident :: "string \<Rightarrow> string" where
  "show_ident n = (if is_op_name n then ''r#'' @ n else n)"

fun show_cfg :: "cfg \<Rightarrow> string" where
  "show_cfg (Name n) = show_ident n"
| "show_cfg (Pair k v) = show_ident k @ '' = '' @ [CHR 0x22] @ v @ [CHR 0x22]"

fun commas :: "string list \<Rightarrow> string" where
  "commas [] = []"
| "commas [s] = s"
| "commas (s # ss) = s @ '', '' @ commas ss"

fun show_expr :: "cfg_expr \<Rightarrow> string" where
  "show_expr (Not e) = ''not('' @ show_expr e @ '')''"
| "show_expr (All es) = ''all('' @ commas (map show_expr es) @ '')''"
| "show_expr (AnyOf es) = ''any('' @ commas (map show_expr es) @ '')''"
| "show_expr (Val c) = show_cfg c"
| "show_expr ETrue = ''true''"
| "show_expr EFalse = ''false''"

fun plain_cfg :: "cfg \<Rightarrow> bool" where
  "plain_cfg (Name n) \<longleftrightarrow> is_ident n"
| "plain_cfg (Pair k v) \<longleftrightarrow> is_ident k \<and> CHR 0x22 \<notin> set v"

fun plain_expr :: "cfg_expr \<Rightarrow> bool" where
  "plain_expr (Not e) \<longleftrightarrow> plain_expr e"
| "plain_expr (All es) \<longleftrightarrow> list_all plain_expr es"
| "plain_expr (AnyOf es) \<longleftrightarrow> list_all plain_expr es"
| "plain_expr (Val c) \<longleftrightarrow> plain_cfg c \<and> c \<noteq> Name ''true'' \<and> c \<noteq> Name ''false''"
| "plain_expr ETrue \<longleftrightarrow> True"
| "plain_expr EFalse \<longleftrightarrow> True"

text \<open>The tokens of the rendering.\<close>

fun cfg_toks :: "cfg \<Rightarrow> token list" where
  "cfg_toks (Name n) = [Ident n (is_op_name n)]"
| "cfg_toks (Pair k v) = [Ident k (is_op_name k), Equals, Str v]"

fun item_toks :: "token list list \<Rightarrow> token list" where
  "item_toks [] = [RightParen]"
| "item_toks [ts] = ts @ [RightParen]"
| "item_toks (ts # tss) = ts @ Comma # item_toks tss"

fun expr_toks :: "cfg_expr \<Rightarrow> token list" where
  "expr_toks (Not e) = Ident ''not'' False # LeftParen # expr_toks e @ [RightParen]"
| "expr_toks (All es) = Ident ''all'' False # LeftParen # item_toks (map expr_toks es)"
| "expr_toks (AnyOf es) = Ident ''any'' False # LeftParen # item_toks (map expr_toks es)"
| "expr_toks (Val c) = cfg_toks c"
| "expr_toks ETrue = [Ident ''true'' False]"
| "expr_toks EFalse = [Ident ''false'' False]"

text \<open>
  \<open>lexes s ts\<close>: wherever \<open>s\<close> stands, followed by nothing that could belong to an
  identifier, the tokenizer takes it as \<open>ts\<close>.
\<close>

definition boundary :: "string \<Rightarrow> bool" where
  "boundary rest \<longleftrightarrow> rest = [] \<or> \<not> is_ident_rest (hd rest) \<and> hd rest \<noteq> CHR ''#''"

definition lexes :: "string \<Rightarrow> token list \<Rightarrow> bool" where
  "lexes s ts \<longleftrightarrow>
     (\<forall>rest out. boundary rest \<longrightarrow> tokens_loop (s @ rest) out = tokens_loop rest (out @ ts))"

declare tokens_loop.simps(2) [simp del]

lemma not_ident_punct [simp]:
  "\<not> is_ident_rest (CHR '' '')" "\<not> is_ident_rest (CHR '','')" "\<not> is_ident_rest (CHR '')'')"
  "\<not> is_ident_rest (CHR ''('')" "\<not> is_ident_rest (CHR ''='')"
  by (simp_all add: is_ident_rest_def is_ident_start_def is_ascii_alphabetic_def is_ascii_digit_def)

lemma boundary_punct [simp]:
  "boundary (CHR '' '' # r)" "boundary (CHR '','' # r)" "boundary (CHR '')'' # r)"
  "boundary (CHR ''('' # r)" "boundary []"
  by (simp_all add: boundary_def)

lemma tokens_loop_punct:
  "tokens_loop (CHR '' '' # cs) out = tokens_loop cs out"
  "tokens_loop (CHR ''('' # cs) out = tokens_loop cs (out @ [LeftParen])"
  "tokens_loop (CHR '')'' # cs) out = tokens_loop cs (out @ [RightParen])"
  "tokens_loop (CHR '','' # cs) out = tokens_loop cs (out @ [Comma])"
  "tokens_loop (CHR ''='' # cs) out = tokens_loop cs (out @ [Equals])"
  by (simp_all add: tokens_loop.simps)

lemma tokens_loop_str:
  "CHR 0x22 \<notin> set v \<Longrightarrow>
     tokens_loop (CHR 0x22 # v @ CHR 0x22 # cs) out = tokens_loop cs (out @ [Str v])"
proof -
  assume "CHR 0x22 \<notin> set v"
  then have "split_once (CHR 0x22) (v @ CHR 0x22 # cs) = Some (v, cs)"
    by (simp add: split_once_Some)
  then show ?thesis by (simp add: tokens_loop.simps)
qed

lemma ident_start_not_special:
  "is_ident_start c \<Longrightarrow> c \<notin> {CHR '' '', CHR ''('', CHR '')'', CHR '','', CHR ''='', CHR 0x22, CHR ''#''}"
  by (auto simp: is_ident_start_def is_ascii_alphabetic_def)

lemma ident_rest_not_hash: "is_ident_rest c \<Longrightarrow> c \<noteq> CHR ''#''"
  by (auto simp: is_ident_rest_def is_ident_start_def is_ascii_alphabetic_def is_ascii_digit_def)

lemma is_ident_Cons: "is_ident n \<longleftrightarrow> (\<exists>c cs. n = c # cs \<and> is_ident_start c \<and> list_all is_ident_rest cs)"
  by (cases n) (auto simp: is_ident_def)

lemma ident_split:
  assumes "list_all is_ident_rest cs" and "boundary rest"
  shows "takeWhile is_ident_rest (cs @ rest) = cs" and "dropWhile is_ident_rest (cs @ rest) = rest"
  using assms
  by (auto simp: boundary_def intro!: takeWhile_all_append dropWhile_all_append)

lemma lexes_ident: "is_ident n \<Longrightarrow> lexes n [Ident n False]"
proof -
  assume "is_ident n"
  then obtain c cs where n: "n = c # cs" "is_ident_start c" "list_all is_ident_rest cs"
    by (auto simp: is_ident_Cons)
  have "tokens_loop (n @ rest) out = tokens_loop rest (out @ [Ident n False])"
    if b: "boundary rest" for rest out
  proof -
    have "\<not> prefix ''#'' (cs @ rest)"
      using n(3) b ident_rest_not_hash
      by (cases cs; cases rest) (auto simp: boundary_def)
    with ident_start_not_special [OF n(2)] n b ident_split [OF n(3) b] show ?thesis
      by (simp add: tokens_loop.simps)
  qed
  then show ?thesis by (simp add: lexes_def)
qed

lemma lexes_raw: "is_ident n \<Longrightarrow> lexes (''r#'' @ n) [Ident n True]"
proof -
  assume "is_ident n"
  then obtain c cs where n: "n = c # cs" "is_ident_start c" "list_all is_ident_rest cs"
    by (auto simp: is_ident_Cons)
  moreover have "is_ident_start (CHR ''r'')"
    by (simp add: is_ident_start_def is_ascii_alphabetic_def)
  ultimately show ?thesis
    by (simp add: lexes_def tokens_loop.simps(2) [of "CHR ''r''"] ident_split)
qed

lemma lexes_show_ident: "is_ident n \<Longrightarrow> lexes (show_ident n) [Ident n (is_op_name n)]"
  using lexes_ident [of n] lexes_raw [of n] by (simp add: show_ident_def)

lemma lexesD:
  "lexes s ts \<Longrightarrow> boundary rest \<Longrightarrow> tokens_loop (s @ rest) out = tokens_loop rest (out @ ts)"
  by (simp add: lexes_def)

lemma lexes_cfg: "plain_cfg c \<Longrightarrow> lexes (show_cfg c) (cfg_toks c)"
  by (cases c)
    (auto simp: lexes_show_ident lexes_def lexesD [OF lexes_show_ident] tokens_loop_punct
      tokens_loop_str)

lemma ident_word:
  "lexes ''not'' [Ident ''not'' False]" "lexes ''all'' [Ident ''all'' False]"
  "lexes ''any'' [Ident ''any'' False]" "lexes ''true'' [Ident ''true'' False]"
  "lexes ''false'' [Ident ''false'' False]"
  by (rule lexes_ident, simp add: is_ident_def is_ident_rest_def is_ident_start_def
      is_ascii_alphabetic_def)+

lemma tokens_loop_word:
  "tokens_loop (CHR ''n'' # CHR ''o'' # CHR ''t'' # CHR ''('' # r) out =
     tokens_loop (CHR ''('' # r) (out @ [Ident ''not'' False])"
  "tokens_loop (CHR ''a'' # CHR ''l'' # CHR ''l'' # CHR ''('' # r) out =
     tokens_loop (CHR ''('' # r) (out @ [Ident ''all'' False])"
  "tokens_loop (CHR ''a'' # CHR ''n'' # CHR ''y'' # CHR ''('' # r) out =
     tokens_loop (CHR ''('' # r) (out @ [Ident ''any'' False])"
  using ident_word(1,2,3) [THEN lexesD, of "CHR ''('' # r" out] by simp_all

lemma lexes_items:
  assumes "\<And>e. e \<in> set es \<Longrightarrow> lexes (show_expr e) (expr_toks e)"
  shows "tokens_loop (commas (map show_expr es) @ CHR '')'' # rest) out =
     tokens_loop rest (out @ item_toks (map expr_toks es))"
  using assms
proof (induction es arbitrary: out)
  case (Cons e es)
  have e: "lexes (show_expr e) (expr_toks e)"
    using Cons.prems by simp
  show ?case
  proof (cases es)
    case Nil
    then show ?thesis
      by (simp add: lexesD [OF e] tokens_loop_punct)
  next
    case (Cons e2 es2)
    then show ?thesis
      using Cons.IH [of "out @ expr_toks e @ [Comma]"] Cons.prems
      by (simp add: lexesD [OF e] tokens_loop_punct)
  qed
qed (simp add: tokens_loop_punct)

lemma lexes_expr: "plain_expr e \<Longrightarrow> lexes (show_expr e) (expr_toks e)"
proof (induction e rule: show_expr.induct)
  case (2 es)
  then show ?case
    using lexes_items [of es] by (simp add: lexes_def [of "_ # _"] tokens_loop_word tokens_loop_punct list_all_iff)
next
  case (3 es)
  then show ?case
    using lexes_items [of es] by (simp add: lexes_def [of "_ # _"] tokens_loop_word tokens_loop_punct list_all_iff)
next
  case 5
  then show ?case by (simp only: show_expr.simps expr_toks.simps ident_word)
next
  case 6
  then show ?case by (simp only: show_expr.simps expr_toks.simps ident_word)
qed (simp_all add: lexes_cfg lexes_def [of "_ # _"] tokens_loop_word tokens_loop_punct lexesD)

lemma gitems_toks:
  "(\<And>e. e \<in> set es \<Longrightarrow> gexpr (expr_toks e) e) \<Longrightarrow> gitems (item_toks (map expr_toks es)) es"
proof (induction es)
  case (Cons e es)
  then show ?case
    by (cases es) (auto intro: gexpr_gitems.intros)
qed (simp add: close)

lemma gexpr_true_false: "gexpr [Ident ''true'' False] ETrue" "gexpr [Ident ''false'' False] EFalse"
  using val [OF gvalue.name [of "''true''" False]] val [OF gvalue.name [of "''false''" False]]
  by (simp_all add: is_operator_def predicate_of_def)

lemma gexpr_cfg: "c \<noteq> Name ''true'' \<Longrightarrow> c \<noteq> Name ''false'' \<Longrightarrow> gexpr (cfg_toks c) (Val c)"
proof -
  assume "c \<noteq> Name ''true''" and "c \<noteq> Name ''false''"
  then have "predicate_of c = Val c"
    by (auto simp: predicate_of_def split: cfg.split)
  moreover have "gvalue (cfg_toks c) c"
    by (cases c) (auto intro: gvalue.intros)
  moreover have "\<not> is_operator (hd (cfg_toks c))"
    by (cases c) (auto simp: is_operator_def is_op_name_def)
  ultimately show ?thesis
    using val by metis
qed

lemma gexpr_toks: "plain_expr e \<Longrightarrow> gexpr (expr_toks e) e"
  by (induction e rule: show_expr.induct)
    (auto intro: gexpr_gitems.intros gitems_toks gexpr_cfg gexpr_true_false simp: list_all_iff)

section \<open>Properties\<close>

lemma end_p_Inr: "end_p p = Inr u \<longleftrightarrow> remaining p = []"
  by (auto simp: end_p_def peek_remaining split: list.splits)

lemma expr_p_complete:
  assumes "gexpr ts e"
  shows "\<exists>p. expr_p \<lparr>toks = ts, cursor = 0\<rparr> = Inr (e, p) \<and> remaining p = []"
  using expr_items_complete(1) [OF assms, rule_format, of "\<lparr>toks = ts, cursor = 0\<rparr>" "[]"]
  by (simp add: expr_p_def fuel_for_def)

lemma expr_p_sound:
  "expr_p p = Inr (e, p') \<Longrightarrow> \<exists>us. remaining p = us @ remaining p' \<and> gexpr us e"
  using expr_items_sound unfolding expr_p_def by blast

text \<open>
  C1: The parser accepts exactly the grammar.  \<open>parse\<close> returns the tree \<open>e\<close> for a text when and
  only when the text is a sequence of tokens that the grammar derives \<open>e\<close> from: nothing the
  grammar has not is accepted, nothing it has is refused, and the tree is the grammar's.
\<close>

theorem parse_iff_grammar:
  "parse s = Inr e \<longleftrightarrow> (\<exists>ts. tokens s = Inr ts \<and> gexpr ts e)"
proof
  assume "parse s = Inr e"
  then obtain ts p where "tokens s = Inr ts" "expr_p \<lparr>toks = ts, cursor = 0\<rparr> = Inr (e, p)"
      "remaining p = []"
    by (auto simp: parse_def end_p_Inr split: sum.splits)
  with expr_p_sound show "\<exists>ts. tokens s = Inr ts \<and> gexpr ts e"
    by fastforce
next
  assume "\<exists>ts. tokens s = Inr ts \<and> gexpr ts e"
  then obtain ts where ts: "tokens s = Inr ts" "gexpr ts e" by blast
  from expr_p_complete [OF ts(2)] obtain p where
    "expr_p \<lparr>toks = ts, cursor = 0\<rparr> = Inr (e, p)" "remaining p = []" by blast
  moreover from this(2) have "end_p p = Inr ()"
    by (simp add: end_p_Inr)
  ultimately show "parse s = Inr e"
    using ts(1) by (simp add: parse_def)
qed

lemma tokens_show: "plain_expr e \<Longrightarrow> tokens (show_expr e) = Inr (expr_toks e)"
  using lexesD [OF lexes_expr, of e "[]" "[]"] by (simp add: tokens_def)

text \<open>
  C2: An expression survives being written and read.  The text of any expression whose names are
  identifiers and whose values hold no quotation mark parses to that expression, however
  deeply its \<open>all\<close>, \<open>any\<close> and \<open>not\<close> nest, operators' names written raw included.
\<close>

theorem parse_show: "plain_expr e \<Longrightarrow> parse (show_expr e) = Inr e"
  unfolding parse_iff_grammar by (blast intro: tokens_show gexpr_toks)

theorem parse_show_witness:
  "parse (''all(unix, not(any(target_os = '' @ quoted ''macos'' @ '', r#all)))'') =
     Inr (All [Val (Name ''unix''), Not (AnyOf [Val (Pair ''target_os'' ''macos''), Val (Name ''all'')])])"
  using parse_show [of "All [Val (Name ''unix''), Not (AnyOf [Val (Pair ''target_os'' ''macos''), Val (Name ''all'')])]"]
  by (simp add: is_ident_def is_ident_rest_def is_ident_start_def is_ascii_alphabetic_def
      show_ident_def is_op_name_def)

text \<open>
  C3: The parser always returns.  With the fuel \<open>fuel_for\<close> gives it, twice the tokens left and
  two, the recursive descent never runs out from any state, so \<open>parse\<close> has for every text the
  result the unbounded recursion of the source has.
\<close>

theorem parse_returns: "expr_p p \<noteq> Inl OutOfFuel \<and> parse s \<noteq> Inl OutOfFuel"
  using expr_fuel_enough tokens_loop_no_fuel
  by (auto simp: parse_def tokens_def end_p_def split: sum.splits option.splits)

section \<open>Reading a target's cfg\<close>

lemma line_pieces_line:
  assumes "CHR 0x0A \<notin> set l" and "\<not> suffix [CHR 0x0D] l"
  shows "line_pieces (l @ CHR 0x0A # s) = l # line_pieces s"
proof -
  have "split_once (CHR 0x0A) (l @ CHR 0x0A # s) = Some (l, s)"
    using assms by (simp add: split_once_Some)
  then show ?thesis
    using assms by (simp add: line_pieces.simps [of "l @ CHR 0x0A # s"])
qed

text \<open>Lines that a cfg value is written as: one line each, beginning with an identifier.\<close>

definition one_line :: "cfg \<Rightarrow> bool" where
  "one_line c \<longleftrightarrow> plain_cfg c \<and> CHR 0x0A \<notin> set (show_cfg c)"

lemma whites_heads: "w \<in> set whites \<Longrightarrow> code (hd w) \<le> 32 \<or> 194 \<le> code (hd w)"
  by (auto simp: whites_def)

lemma ident_start_not_white:
  assumes "is_ident_start c"
  shows "find (\<lambda>w. w \<noteq> [] \<and> prefix w (c # s)) whites = None"
proof -
  have "\<not> prefix w (c # s)" if "w \<in> set whites" "w \<noteq> []" for w
    using assms whites_heads [OF that(1)] that(2)
    by (cases w) (auto simp: is_ident_start_def is_ascii_alphabetic_def)
  then show ?thesis
    by (auto simp: find_None_iff)
qed

lemma trim_with_keeps:
  assumes "\<And>w. w \<in> set ws \<Longrightarrow> c \<notin> set w"
  shows "trim_with ws (xs @ [c]) \<noteq> []"
proof (induction xs rule: length_induct)
  case (1 xs)
  show ?case
  proof (cases xs)
    case Nil
    have "find (\<lambda>w. w \<noteq> [] \<and> prefix w [c]) ws = None"
      using assms [of "[c]"] by (auto simp: find_None_iff prefix_Cons)
    with Nil show ?thesis by simp
  next
    case (Cons a as)
    show ?thesis
    proof (cases "find (\<lambda>w. w \<noteq> [] \<and> prefix w (a # as @ [c])) ws")
      case None
      with Cons show ?thesis by simp
    next
      case (Some w)
      then have w: "w \<in> set ws" "w \<noteq> []" "prefix w (a # as @ [c])"
        by (auto simp: find_Some_iff)
      from w(3) assms [OF w(1)] have "prefix w (a # as)"
        by (metis append_Cons in_set_conv_decomp prefix_snoc)
      then have "length w - 1 \<le> length as"
        by (auto dest: prefix_length_le)
      with 1 [rule_format, of "drop (length w - 1) as"] Some Cons show ?thesis
        by simp
    qed
  qed
qed

lemma whites_bytes: "w \<in> set whites \<Longrightarrow> b \<in> set w \<Longrightarrow> code b \<le> 32 \<or> 128 \<le> code b"
  by (auto simp: whites_def)

lemma trim_ident_line: "is_ident_start c \<Longrightarrow> trim (c # s) \<noteq> []"
proof -
  assume c: "is_ident_start c"
  then have "trim_start (c # s) = c # s"
    by (simp add: trim_start_def ident_start_not_white)
  moreover have "trim_with (map rev whites) (rev s @ [c]) \<noteq> []"
    using whites_bytes [of _ c] c
    by (intro trim_with_keeps) (auto simp: is_ident_start_def is_ascii_alphabetic_def)
  ultimately show ?thesis
    by (simp add: trim_def trim_end_def)
qed

lemma show_cfg_start: "plain_cfg c \<Longrightarrow> \<exists>d s. show_cfg c = d # s \<and> is_ident_start d"
  by (cases c)
    (auto simp: is_ident_Cons show_ident_def is_ident_start_def [of "CHR ''r''"]
      is_ascii_alphabetic_def)

lemma is_ident_last: "is_ident n \<Longrightarrow> n \<noteq> [] \<and> is_ident_rest (last n)"
  by (auto simp: is_ident_Cons list_all_iff dest: last_in_set) (simp add: is_ident_rest_def)

lemma not_ident_rest_cr [simp]: "\<not> is_ident_rest (CHR 0x0D)"
  by (simp add: is_ident_rest_def is_ident_start_def is_ascii_alphabetic_def is_ascii_digit_def)

lemma show_cfg_last: "plain_cfg c \<Longrightarrow> \<not> suffix [CHR 0x0D] (show_cfg c)"
proof (cases c)
  case (Name n)
  assume "plain_cfg c"
  with Name is_ident_last [of n] show ?thesis
    by (auto simp: suffix_single show_ident_def)
qed (simp add: suffix_single)

lemma value_of_line_show: "plain_cfg c \<Longrightarrow> value_of_line (show_cfg c) = Inr c"
proof -
  assume "plain_cfg c"
  then have "tokens (show_cfg c) = Inr (cfg_toks c)"
    using lexesD [OF lexes_cfg, of c "[]" "[]"] by (simp add: tokens_def)
  moreover have "gvalue (cfg_toks c) c"
    by (cases c) (auto intro: gvalue.intros)
  from value_p_complete [OF this, of "\<lparr>toks = cfg_toks c, cursor = 0\<rparr>" "[]"]
  obtain p where "value_p \<lparr>toks = cfg_toks c, cursor = 0\<rparr> = Inr (c, p)" "remaining p = []"
    by auto
  moreover from this(2) have "end_p p = Inr ()" by (simp add: end_p_Inr)
  ultimately show ?thesis by (simp add: value_of_line_def)
qed

lemma target_lines_show:
  "list_all one_line cs \<Longrightarrow>
     target_lines (line_pieces (concat (map (\<lambda>c. show_cfg c @ [CHR 0x0A]) cs))) out = Inr (out @ cs)"
proof (induction cs arbitrary: out)
  case (Cons c cs)
  then have c: "plain_cfg c" "CHR 0x0A \<notin> set (show_cfg c)"
    by (simp_all add: one_line_def)
  from show_cfg_start [OF c(1)] trim_ident_line have "trim (show_cfg c) \<noteq> []" by auto
  with Cons c show ?case
    by (simp add: line_pieces_line show_cfg_last value_of_line_show)
qed (simp add: line_pieces.simps)

text \<open>
  A printed cfg reads back.  What rustc prints, one value a line, is read as exactly those
  values in that order, so an expression matches a target through the text as it does through
  the values.
\<close>

lemma target_show:
  "list_all one_line cs \<Longrightarrow>
     target (concat (map (\<lambda>c. show_cfg c @ [CHR 0x0A]) cs)) = Inr cs"
  using target_lines_show [of cs "[]"] by (simp add: target_def str_lines_def)

lemma target_show_witness:
  "target (''unix'' @ [CHR 0x0A] @ ''target_os = '' @ quoted ''linux'' @ [CHR 0x0A]) =
     Inr [Name ''unix'', Pair ''target_os'' ''linux'']"
  using target_show [of "[Name ''unix'', Pair ''target_os'' ''linux'']"]
  by (simp add: one_line_def is_ident_def is_ident_rest_def is_ident_start_def
      is_ascii_alphabetic_def show_ident_def is_op_name_def)

section \<open>Names of the compilation\<close>

text \<open>The cfg values that describe the compilation rather than the target.\<close>

fun of_compilation :: "cfg \<Rightarrow> bool" where
  "of_compilation (Name n) \<longleftrightarrow> n \<in> set [''test'', ''debug_assertions'', ''proc_macro'']"
| "of_compilation (Pair k v) \<longleftrightarrow> k = ''feature''"

lemma find_map_None: "find_map f xs = None \<longleftrightarrow> (\<forall>x\<in>set xs. f x = None)"
  by (induction xs) (auto split: option.split)

lemma matches_same_target:
  assumes "\<And>c. \<not> of_compilation c \<Longrightarrow> c \<in> set t1 \<longleftrightarrow> c \<in> set t2"
  shows "non_target_name e = None \<Longrightarrow> matches e t1 = matches e t2"
  using assms
  by (induction e rule: non_target_name.induct)
    (auto simp: find_map_None list_all_iff list_ex_iff split: if_splits)

text \<open>
  An expression that is let through selects by target alone.  When \<open>non_target_name\<close> finds
  nothing in an expression, whether a target satisfies it does not change with the values that
  describe the compilation: \<open>test\<close>, \<open>debug_assertions\<close>, \<open>proc_macro\<close> and the features.
\<close>

lemma non_target_name_None:
  assumes "non_target_name e = None"
    and "filter (\<lambda>c. \<not> of_compilation c) t1 = filter (\<lambda>c. \<not> of_compilation c) t2"
  shows "matches e t1 = matches e t2"
proof (rule matches_same_target [OF _ assms(1)])
  fix c
  assume "\<not> of_compilation c"
  with arg_cong [OF assms(2), of set] show "c \<in> set t1 \<longleftrightarrow> c \<in> set t2"
    by auto
qed

lemma non_target_name_None_witness:
  "matches (Not (Val (Name ''windows''))) [Name ''unix'', Name ''test'']
     = matches (Not (Val (Name ''windows''))) [Pair ''feature'' ''gpu'', Name ''unix'']"
  by (rule non_target_name_None) simp_all

end
