(* ===== verification/Clixml_Text.thy ===== *)
theory Clixml_Text
  imports Prelude
begin

text \<open>
  \<open>crates/pwrs-build/src/clixml.rs\<close>, the functions that read bytes: what a run of bytes of a
  CLIXML document starts with, a record and the line it is written as, the shape of a tag, and
  CLIXML's escapes.  The decoder that calls them is in \<open>Clixml_Decoder\<close>.  A \<open>u32\<close> of the source
  is a \<open>nat\<close> here; \<open>Clixml_Escapes\<close> shows that no value reaches \<open>2\<^sup>3\<^sup>2\<close>, so none wraps.
  A function of the source that adds to its \<open>out\<close> argument returns what it adds.
\<close>

section \<open>Constants\<close>

definition MARKER :: string where
  "MARKER = ''#< CLIXML''"

definition ROOT :: string where
  "ROOT = ''<Objs ''"

definition ROOT_END :: string where
  "ROOT_END = ''</Objs>''"

definition TEXT_RECORD :: string where
  "TEXT_RECORD = ''<S S='' @ [quote]"

definition OBJECT_RECORD :: string where
  "OBJECT_RECORD = ''<Obj S='' @ [quote]"

definition LONGEST_REFERENCE :: nat where
  "LONGEST_REFERENCE = 8"

lemmas markers = MARKER_def ROOT_def ROOT_END_def TEXT_RECORD_def OBJECT_RECORD_def

lemma marker_lengths [simp]:
  "length MARKER = 9" "length ROOT = 6" "length ROOT_END = 7" "length TEXT_RECORD = 6"
  "length OBJECT_RECORD = 8"
  by (simp_all add: markers)

section \<open>Escapes\<close>

definition is_line_break :: "char \<Rightarrow> bool" where
  "is_line_break b \<longleftrightarrow> b = CHR 0x0D \<or> b = CHR 0x0A"

text \<open>\<open>char::to_digit\<close>, and the value of a run of digits.\<close>

definition to_digit :: "nat \<Rightarrow> char \<Rightarrow> nat option" where
  "to_digit radix c =
     (let n = code c;
          d = (if 48 \<le> n \<and> n \<le> 57 then Some (n - 48)
               else if 97 \<le> n \<and> n \<le> 122 then Some (n - 87)
               else if 65 \<le> n \<and> n \<le> 90 then Some (n - 55)
               else None)
      in case d of Some v \<Rightarrow> if v < radix then Some v else None | None \<Rightarrow> None)"

fun number_loop :: "nat \<Rightarrow> string \<Rightarrow> nat \<Rightarrow> nat option" where
  "number_loop radix [] val = Some val"
| "number_loop radix (digit # digits) val =
     (case to_digit radix digit of
        Some d \<Rightarrow> number_loop radix digits (val * radix + d)
      | None \<Rightarrow> None)"

definition number :: "string \<Rightarrow> nat \<Rightarrow> nat option" where
  "number digits radix = (if digits = [] then None else number_loop radix digits 0)"

definition push_char :: "nat \<Rightarrow> string" where
  "push_char c = encode_utf8 (if is_scalar c then c else 0xFFFD)"

definition code_unit :: "string \<Rightarrow> (nat \<times> nat) option" where
  "code_unit s =
     (case strip_prefix ''_x'' s of
        None \<Rightarrow> None
      | Some rest \<Rightarrow>
          if length rest < 5 then None
          else if rest ! 4 \<noteq> CHR ''_'' then None
          else (case number (take 4 rest) 16 of None \<Rightarrow> None | Some u \<Rightarrow> Some (u, 7)))"

definition reference :: "string \<Rightarrow> (nat \<times> nat) option" where
  "reference s =
     (case strip_prefix ''&'' s of
        None \<Rightarrow> None
      | Some rest \<Rightarrow>
          (case position (\<lambda>b. b = CHR '';'') (take (LONGEST_REFERENCE + 1) rest) of
             None \<Rightarrow> None
           | Some semicolon \<Rightarrow>
               (let name = take semicolon rest;
                    c = (if name = ''lt'' then Some (code (CHR ''<''))
                         else if name = ''gt'' then Some (code (CHR ''>''))
                         else if name = ''amp'' then Some (code (CHR ''&''))
                         else if name = ''quot'' then Some (code quote)
                         else if name = ''apos'' then Some (code (CHR 0x27))
                         else (case strip_prefix ''#'' name of
                                 None \<Rightarrow> None
                               | Some digits \<Rightarrow>
                                   (case strip_prefix ''x'' digits of
                                      Some hex \<Rightarrow> number hex 16
                                    | None \<Rightarrow>
                                        (case strip_prefix ''X'' digits of
                                           Some hex \<Rightarrow> number hex 16
                                         | None \<Rightarrow> number digits 10))))
                in case c of None \<Rightarrow> None | Some v \<Rightarrow> Some (v, semicolon + 2))))"

text \<open>The low surrogate after a high one, and the bytes it takes.\<close>

definition low_half :: "nat \<Rightarrow> string \<Rightarrow> (nat \<times> nat) option" where
  "low_half unit rest =
     (if 0xD800 \<le> unit \<and> unit < 0xDC00 then
        (case code_unit rest of
           Some (low, more) \<Rightarrow> if 0xDC00 \<le> low \<and> low < 0xE000 then Some (low, more) else None
         | None \<Rightarrow> None)
      else None)"

lemma code_unit_length: "code_unit s = Some (u, len) \<Longrightarrow> 0 < len"
  by (auto simp: code_unit_def split: option.splits if_splits)

lemma reference_length: "reference s = Some (c, len) \<Longrightarrow> 0 < len"
  by (auto simp: reference_def Let_def split: option.splits if_splits)

function unescape :: "string \<Rightarrow> string" where
  "unescape [] = []"
| "unescape (b # bs) =
     (case code_unit (b # bs) of
        Some (unit, len) \<Rightarrow>
          (case low_half unit (drop len (b # bs)) of
             Some (low, more) \<Rightarrow>
               push_char (0x10000 + (unit - 0xD800) * 1024 + (low - 0xDC00))
               @ unescape (drop (len + more) (b # bs))
           | None \<Rightarrow> push_char unit @ unescape (drop len (b # bs)))
      | None \<Rightarrow>
          (case reference (b # bs) of
             Some (c, len) \<Rightarrow> push_char c @ unescape (drop len (b # bs))
           | None \<Rightarrow> b # unescape bs))"
  by pat_completeness auto
termination
  by (relation "measure length") (auto dest!: code_unit_length reference_length)

section \<open>Tags\<close>

text \<open>The value of the \<open>S\<close> attribute in a start tag, and a tag's element name.\<close>

definition stream_name :: "string \<Rightarrow> string" where
  "stream_name tag =
     (case find_sub ('' S='' @ [quote]) tag of
        None \<Rightarrow> []
      | Some at \<Rightarrow>
          (let val = drop (at + 4) tag;
               end = (case position (\<lambda>b. b = quote) val of Some e \<Rightarrow> e | None \<Rightarrow> length val)
           in take end val))"

definition tag_name :: "string \<Rightarrow> string" where
  "tag_name tag =
     (let inner = (case strip_prefix ''</'' tag of
                     Some r \<Rightarrow> r
                   | None \<Rightarrow> (case strip_prefix ''<'' tag of Some r \<Rightarrow> r | None \<Rightarrow> tag))
      in takeWhile is_ascii_alphanumeric inner)"

definition shown :: "string \<Rightarrow> bool" where
  "shown stream \<longleftrightarrow>
     \<not> eq_ignore_ascii_case stream ''progress'' \<and> \<not> eq_ignore_ascii_case stream ''information''"

definition text_line :: "string \<Rightarrow> string \<Rightarrow> string" where
  "text_line stream txt =
     (if eq_ignore_ascii_case stream ''warning'' then ''WARNING: ''
      else if eq_ignore_ascii_case stream ''verbose'' then ''VERBOSE: ''
      else if eq_ignore_ascii_case stream ''debug'' then ''DEBUG: ''
      else []) @ unescape txt"

text \<open>The loop of \<open>is_tag\<close> over the attributes of a start tag.\<close>

function attributes :: "string \<Rightarrow> bool" where
  "attributes rest =
     (if rest = [] \<or> rest = '' /'' then True
      else
        (case strip_prefix '' '' rest of
           None \<Rightarrow> False
         | Some attribute \<Rightarrow>
             (let key = length (takeWhile is_ascii_alphabetic attribute) in
              (case strip_prefix (''='' @ [quote]) (drop key attribute) of
                 None \<Rightarrow> False
               | Some val \<Rightarrow>
                   (case position (\<lambda>b. b = quote) val of
                      None \<Rightarrow> False
                    | Some q \<Rightarrow> if key = 0 then False else attributes (drop (q + 1) val))))))"
  by pat_completeness auto
termination
proof (relation "measure length", goal_cases)
  case (2 rest attribute key val q)
  from 2(4) have "length val < length attribute"
    by (auto simp: strip_prefix_Some dest!: arg_cong [where f = length])
  with 2(2) show ?case
    by (auto simp: strip_prefix_Some)
qed simp

declare attributes.simps [simp del]

definition is_tag :: "string \<Rightarrow> bool" where
  "is_tag tag =
     (case strip_prefix ''<'' tag of
        None \<Rightarrow> False
      | Some t \<Rightarrow>
          (case strip_suffix ''>'' t of
             None \<Rightarrow> False
           | Some inner0 \<Rightarrow>
               (let (inner, end_tag) =
                      (case strip_prefix ''/'' inner0 of
                         Some rest \<Rightarrow> (rest, True)
                       | None \<Rightarrow> (inner0, False));
                    name = length (takeWhile is_ascii_alphanumeric inner)
                in if name = 0 \<or> \<not> is_ascii_alphabetic (inner ! 0) then False
                   else let rest = drop name inner
                        in if end_tag then rest = [] else attributes rest)))"

text \<open>The loop of \<open>last_tag_end\<close>: \<open>end\<close> is where the search goes back from.\<close>

function last_tag_end_from :: "string \<Rightarrow> nat \<Rightarrow> nat" where
  "last_tag_end_from bytes end =
     (case rposition (\<lambda>b. b = CHR ''>'') (take end bytes) of
        None \<Rightarrow> 0
      | Some close \<Rightarrow>
          (case rposition (\<lambda>b. b = CHR ''<'') (take close bytes) of
             Some open \<Rightarrow>
               if is_tag (slice bytes open (close + 1)) then close + 1
               else last_tag_end_from bytes close
           | None \<Rightarrow> last_tag_end_from bytes close))"
  by pat_completeness auto
termination
  by (relation "measure snd") (auto dest!: rposition_less)

declare last_tag_end_from.simps [simp del]

definition last_tag_end :: "string \<Rightarrow> nat" where
  "last_tag_end bytes = last_tag_end_from bytes (length bytes)"

section \<open>Records\<close>

datatype candidate = CPartial | CMarker | CRoot | CPlain

datatype next_item =
    Record nat "string option"
  | End
  | Other nat
  | NPartial

text \<open>\<open>candidate\<close>; \<open>bytes\<close> is never empty.\<close>

definition candidate_of :: "string \<Rightarrow> candidate" where
  "candidate_of bytes =
     (if bytes ! 0 = CHR ''#'' then
        (let n = min (length bytes) (length MARKER);
             head = take n bytes;
             line_end = drop n bytes
         in if \<not> prefix head MARKER then CPlain
            else if line_end = [] \<or> line_end = [CHR 0x0D] then CPartial
            else if line_end = [CHR 0x0A] \<or> line_end = [CHR 0x0D, CHR 0x0A] then CMarker
            else CPlain)
      else if length bytes < length ROOT then
        (if prefix bytes ROOT then CPartial else CPlain)
      else if \<not> prefix ROOT bytes then CPlain
      else
        (case position (\<lambda>b. b = CHR ''>'' \<or> b = CHR ''<'' \<or> is_line_break b)
            (drop (length ROOT) bytes) of
           None \<Rightarrow> CPartial
         | Some at \<Rightarrow> if bytes ! (length ROOT + at) = CHR ''>'' then CRoot else CPlain))"

definition may_start :: "string \<Rightarrow> bool" where
  "may_start bytes = list_ex (\<lambda>start. prefix bytes start) [ROOT_END, TEXT_RECORD, OBJECT_RECORD]"

text \<open>\<open>iter().min()\<close> of what a list of searches found.\<close>

definition least_found :: "nat option list \<Rightarrow> nat option" where
  "least_found founds =
     (case List.map_filter (\<lambda>f. f) founds of [] \<Rightarrow> None | n # ns \<Rightarrow> Some (fold min ns n))"

definition record_start :: "string \<Rightarrow> nat option" where
  "record_start bytes =
     least_found (map (\<lambda>start. find_sub start bytes) [ROOT_END, TEXT_RECORD, OBJECT_RECORD])"

definition text_record :: "string \<Rightarrow> next_item" where
  "text_record bytes =
     (case position (\<lambda>b. b = CHR ''>'') bytes of
        None \<Rightarrow> NPartial
      | Some close \<Rightarrow>
          (let stream = stream_name (take close bytes) in
           if suffix ''/'' (take close bytes) then
             Record (close + 1) (Some (text_line stream []))
           else
             (let txt = drop (close + 1) bytes in
              case position (\<lambda>b. b = CHR ''<'') txt of
                None \<Rightarrow> NPartial
              | Some end \<Rightarrow>
                  (let after = drop end txt;
                       line = Some (text_line stream (take end txt)) in
                   if prefix ''</S>'' after then Record (close + 1 + end + 4) line
                   else if prefix after ''</S>'' then NPartial
                   else Record (close + 1 + end) line))))"

text \<open>
  The loop of \<open>object_record\<close>: the record's length and the text of its own \<open>ToString\<close>, or
  \<open>None\<close> when the bytes end first (\<open>return Next::Partial\<close>).
\<close>

function object_loop :: "string \<Rightarrow> nat \<Rightarrow> nat \<Rightarrow> string option \<Rightarrow> (nat \<times> string option) option" where
  "object_loop bytes depth at txt =
     (if depth = 0 then Some (at, txt)
      else
        (case position (\<lambda>b. b = CHR ''<'') (drop at bytes) of
           None \<Rightarrow> None
         | Some o' \<Rightarrow>
             (let open = at + o';
                  rest = drop open bytes in
              if prefix ROOT_END rest \<or> prefix TEXT_RECORD rest \<or> prefix OBJECT_RECORD rest then
                Some (open, txt)
              else if may_start rest then None
              else
                (case position (\<lambda>b. b = CHR ''>'') rest of
                   None \<Rightarrow> None
                 | Some gt \<Rightarrow>
                     (let tag = take (gt + 1) rest;
                          at' = open + gt + 1 in
                      if tag_name tag = ''Obj'' then
                        (if prefix ''</'' tag then object_loop bytes (depth - 1) at' txt
                         else if \<not> suffix ''/>'' tag then object_loop bytes (depth + 1) at' txt
                         else object_loop bytes depth at' txt)
                      else if depth = 1 \<and> tag = ''<ToString>'' \<and> txt = None then
                        (case position (\<lambda>b. b = CHR ''<'') (drop at' bytes) of
                           None \<Rightarrow> None
                         | Some end \<Rightarrow> object_loop bytes depth at' (Some (slice bytes at' (at' + end))))
                      else object_loop bytes depth at' txt)))))"
  by pat_completeness auto
termination
  by (relation "measure (\<lambda>(bytes, depth, at, txt). length bytes - at)")
    (auto dest!: position_less)

declare object_loop.simps [simp del]

text \<open>One turn of the loop: it ends where it is, or before a record, or goes on past a tag.\<close>

lemma object_loop_step:
  assumes "object_loop bytes depth at t = Some (len, t')"
  shows "len = at
    \<or> (\<exists>i. position (\<lambda>b. b = CHR ''<'') (drop at bytes) = Some i
         \<and> (len = at + i
            \<or> (\<exists>g d2 t2. position (\<lambda>b. b = CHR ''>'') (drop (at + i) bytes) = Some g
                 \<and> object_loop bytes d2 (at + i + g + 1) t2 = Some (len, t'))))"
proof (cases "depth = 0")
  case True
  with assms show ?thesis by (simp add: object_loop.simps [of bytes 0])
next
  case False
  note step = object_loop.simps [of bytes depth at t]
  from False assms obtain i where i: "position (\<lambda>b. b = CHR ''<'') (drop at bytes) = Some i"
    by (auto simp: step split: option.splits)
  show ?thesis
  proof (cases "position (\<lambda>b. b = CHR ''>'') (drop (at + i) bytes)")
    case None
    with False i assms show ?thesis
      by (simp add: step Let_def split: if_splits)
  next
    case (Some g)
    have "len = at + i \<or> (\<exists>d2 t2. object_loop bytes d2 (at + i + g + 1) t2 = Some (len, t'))"
      using False i Some assms [unfolded step]
      by (simp only: Let_def option.case if_False split: if_split_asm option.split_asm) auto
    with i Some show ?thesis by auto
  qed
qed

lemma object_loop_range:
  "object_loop bytes depth at t = Some (len, t') \<Longrightarrow> at \<le> length bytes \<Longrightarrow>
     at \<le> len \<and> len \<le> length bytes"
proof (induction "length bytes - at" arbitrary: depth at t rule: less_induct)
  case less
  from object_loop_step [OF less.prems(1)] show ?case
  proof (elim disjE exE conjE)
    fix i
    assume "position (\<lambda>b. b = CHR ''<'') (drop at bytes) = Some i" and "len = at + i"
    then show ?thesis using position_less less.prems(2) by fastforce
  next
    fix i g d2 t2
    assume i: "position (\<lambda>b. b = CHR ''<'') (drop at bytes) = Some i"
      and g: "position (\<lambda>b. b = CHR ''>'') (drop (at + i) bytes) = Some g"
      and rec: "object_loop bytes d2 (at + i + g + 1) t2 = Some (len, t')"
    from position_less [OF i] position_less [OF g] have "at + i + g + 1 \<le> length bytes"
      by simp
    moreover from this have "length bytes - (at + i + g + 1) < length bytes - at" by simp
    from less.hyps [OF this rec] calculation have "at + i + g + 1 \<le> len \<and> len \<le> length bytes"
      by simp
    ultimately show ?thesis by simp
  qed (use less.prems in simp)
qed

definition object_record :: "string \<Rightarrow> next_item" where
  "object_record bytes =
     (case position (\<lambda>b. b = CHR ''>'') bytes of
        None \<Rightarrow> NPartial
      | Some close \<Rightarrow>
          (let show_it = shown (stream_name (take close bytes));
               depth = (if suffix ''/'' (take close bytes) then 0 else 1) in
           case object_loop bytes depth (close + 1) None of
             None \<Rightarrow> NPartial
           | Some (len, txt) \<Rightarrow>
               Record len
                 (if show_it then
                    Some (case txt of Some t \<Rightarrow> unescape t | None \<Rightarrow> take len bytes)
                  else None)))"

definition next_of :: "string \<Rightarrow> next_item" where
  "next_of bytes =
     (if prefix ROOT_END bytes then End
      else if prefix TEXT_RECORD bytes then text_record bytes
      else if prefix OBJECT_RECORD bytes then object_record bytes
      else if bytes = [] \<or> may_start bytes then NPartial
      else (case record_start (drop 1 bytes) of Some at \<Rightarrow> Other (at + 1) | None \<Rightarrow> NPartial))"

text \<open>Every record and every run of other bytes is at least a byte long.\<close>

lemma text_record_advances: "text_record bytes = Record len line \<Longrightarrow> 0 < len"
  by (auto simp: text_record_def Let_def split: if_splits option.splits)

lemma object_record_advances: "object_record bytes = Record len line \<Longrightarrow> 0 < len"
  by (auto simp: object_record_def Let_def split: if_splits option.splits prod.splits
      dest!: position_less object_loop_range)

lemma text_record_shape: "text_record bytes \<noteq> Other n" "text_record bytes \<noteq> End"
  by (auto simp: text_record_def Let_def split: option.splits)

lemma object_record_shape: "object_record bytes \<noteq> Other n" "object_record bytes \<noteq> End"
  by (auto simp: object_record_def Let_def split: option.splits)

lemma next_of_advances:
  "next_of bytes = Record len line \<Longrightarrow> 0 < len" "next_of bytes = Other len \<Longrightarrow> 0 < len"
  by (auto simp: next_of_def text_record_shape object_record_shape
      split: if_splits option.splits dest: text_record_advances object_record_advances)

lemma text_record_fits: "text_record bytes = Record len line \<Longrightarrow> len \<le> length bytes"
  by (auto simp: text_record_def Let_def split: if_splits option.splits
      dest!: position_less prefix_length_le)

lemma object_record_fits: "object_record bytes = Record len line \<Longrightarrow> len \<le> length bytes"
  by (auto simp: object_record_def Let_def split: if_splits option.splits prod.splits
      dest!: position_less object_loop_range)

lemma least_found_in:
  assumes "least_found fs = Some n"
  shows "Some n \<in> set fs"
proof -
  have fold: "fold min ns n \<in> set (n # ns)" for n :: nat and ns
    by (induction ns arbitrary: n) (auto simp: min_def)
  from assms obtain m ms where ms: "List.map_filter (\<lambda>f. f) fs = m # ms" "fold min ms m = n"
    by (auto simp: least_found_def split: list.splits)
  with fold [of ms m] have "n \<in> set (List.map_filter (\<lambda>f. f) fs)" by simp
  then show ?thesis by (auto simp: map_filter_def)
qed

lemma record_start_fits: "record_start bytes = Some at \<Longrightarrow> at < length bytes"
  by (auto simp: record_start_def dest!: least_found_in find_sub_less [OF sym])

lemma next_of_fits:
  "next_of bytes = Record len line \<Longrightarrow> len \<le> length bytes"
  "next_of bytes = Other len \<Longrightarrow> len \<le> length bytes"
  by (auto simp: next_of_def text_record_shape object_record_shape
      split: if_splits option.splits dest: text_record_fits object_record_fits record_start_fits)

lemma next_of_End: "next_of bytes = End \<longleftrightarrow> prefix ROOT_END bytes"
  by (auto simp: next_of_def text_record_shape object_record_shape split: option.splits)

lemma next_of_Nil [simp]: "next_of [] = NPartial"
  by (simp add: next_of_def markers)

definition first_line_break :: "string \<Rightarrow> bool \<Rightarrow> nat option" where
  "first_line_break bytes at_end =
     (case position is_line_break bytes of
        None \<Rightarrow> None
      | Some at \<Rightarrow>
          if at_end \<or> bytes ! at = CHR 0x0A \<or> at + 1 < length bytes then Some at else None)"

text \<open>
  \<open>write_line\<close> and \<open>write_rest\<close>: the flag the source has behind \<open>&mut\<close> and the buffer it adds
  to are passed and returned.
\<close>

definition write_line :: "bool \<Rightarrow> string \<Rightarrow> string \<Rightarrow> bool \<times> string" where
  "write_line ended_line line out =
     (True,
      out @ (if ended_line then [] else [CHR 0x0A]) @ line
      @ (if line \<noteq> [] \<and> is_line_break (last line) then [] else [CHR 0x0A]))"

definition write_rest :: "bool \<Rightarrow> string \<Rightarrow> string \<Rightarrow> bool \<times> string" where
  "write_rest ended_line bytes out =
     (if bytes = [] then (ended_line, out)
      else
        (case position (\<lambda>b. b = CHR ''>'') bytes of
           Some close \<Rightarrow>
             if prefix TEXT_RECORD bytes then
               (let txt = drop (close + 1) bytes;
                    end = (case position (\<lambda>b. b = CHR ''<'') txt of
                             Some e \<Rightarrow> e | None \<Rightarrow> length txt)
                in write_line ended_line
                     (text_line (stream_name (take close bytes)) (take end txt)) out)
             else if prefix OBJECT_RECORD bytes \<and> \<not> shown (stream_name (take close bytes)) then
               (ended_line, out)
             else write_line ended_line bytes out
         | None \<Rightarrow> write_line ended_line bytes out))"

end
