(* ===== verification/Clixml_Escapes.thy ===== *)
theory Clixml_Escapes
  imports Clixml_Text
begin

text \<open>
  CLIXML's escapes, which \<open>unescape\<close> of \<open>crates/pwrs-build/src/clixml.rs\<close> reads: every way of
  writing a text is read back as the text, and no number of an escape reaches \<open>2\<^sup>3\<^sup>2\<close>, the
  bound of the source's \<open>u32\<close>.
\<close>

section \<open>Numbers\<close>

lemma to_digit_less: "to_digit radix c = Some d \<Longrightarrow> d < radix"
  by (auto simp: to_digit_def Let_def split: if_splits option.splits)

lemma number_loop_less:
  "number_loop radix digits val = Some n \<Longrightarrow> n < (val + 1) * radix ^ length digits"
proof (induction radix digits val rule: number_loop.induct)
  case (2 radix digit digits val)
  then obtain d where d: "to_digit radix digit = Some d"
    and n: "number_loop radix digits (val * radix + d) = Some n"
    by (auto split: option.splits)
  from 2(1) [OF d n] have "n < (val * radix + d + 1) * radix ^ length digits" by simp
  also have "\<dots> \<le> ((val + 1) * radix) * radix ^ length digits"
    using to_digit_less [OF d] by (intro mult_right_mono) simp_all
  finally show ?case by (simp add: algebra_simps)
qed simp

lemma number_less: "number digits radix = Some n \<Longrightarrow> n < radix ^ length digits"
  using number_loop_less [of radix digits 0 n] by (simp add: number_def split: if_splits)

lemma number_fits:
  assumes "number digits radix = Some n" and "length digits \<le> k" and "0 < radix"
  shows "n < radix ^ k"
  using number_less [OF assms(1)] power_increasing [of "length digits" k radix] assms(2,3)
  by simp

lemma code_unit_fits: "code_unit s = Some (u, len) \<Longrightarrow> u < 0x10000"
  by (auto simp: code_unit_def split: option.splits if_splits dest: number_fits [where k = 4])

lemma reference_fits:
  assumes "reference s = Some (c, len)"
  shows "c < 0x1000000"
proof -
  have dec: "n < 10 ^ 7" if "number ds 10 = Some n" "length ds \<le> 7" for ds n
    using number_fits [OF that] by simp
  have hex: "n < 16 ^ 6" if "number ds 16 = Some n" "length ds \<le> 6" for ds n
    using number_fits [OF that] by simp
  show ?thesis
    using assms
    by (auto simp: reference_def LONGEST_REFERENCE_def Let_def strip_prefix_Some
        split: option.splits if_splits dest!: position_less)
      (auto dest!: arg_cong [where f = length] dest: dec hex)
qed

text \<open>
  No number an escape can hold reaches \<open>2\<^sup>3\<^sup>2\<close>, so the source's \<open>u32\<close> never wraps: a
  \<open>_xHHHH_\<close> escape is below \<open>2\<^sup>1\<^sup>6\<close>, an XML reference of the length read is below \<open>2\<^sup>2\<^sup>4\<close>, and the
  character two surrogates make is a Unicode scalar value.
\<close>

lemma escapes_fit:
  "(code_unit s = Some (u, len) \<longrightarrow> u < 2 ^ 16) \<and> (reference s = Some (c, len) \<longrightarrow> c < 2 ^ 24)
   \<and> (code_unit s = Some (u, len) \<longrightarrow> low_half u rest = Some (low, more) \<longrightarrow>
       is_scalar (0x10000 + (u - 0xD800) * 1024 + (low - 0xDC00)))"
  using code_unit_fits [of s u len] reference_fits [of s c len]
  by (auto simp: low_half_def is_scalar_def split: if_splits option.splits)

lemma escapes_fit_witness:
  "code_unit ''_xD83D_'' = Some (0xD83D, 7) \<and> 0xD83D < (2 ^ 16 :: nat)
   \<and> low_half 0xD83D ''_xDE00_'' = Some (0xDE00, 7)
   \<and> is_scalar (0x10000 + (0xD83D - 0xD800) * 1024 + (0xDE00 - 0xDC00))"
proof -
  have "code_unit ''_xD83D_'' = Some (0xD83D, 7)" "low_half 0xD83D ''_xDE00_'' = Some (0xDE00, 7)"
    by (simp_all add: low_half_def code_unit_def strip_prefix_def number_def to_digit_def)
  with escapes_fit [of "''_xD83D_''" "0xD83D" 7 0 "''_xDE00_''" "0xDE00" 7] show ?thesis
    by simp
qed

section \<open>Escaped text\<close>

text \<open>
  \<open>escaped cs bytes\<close>: \<open>bytes\<close> write the characters \<open>cs\<close>, each as itself, as an XML entity or
  character reference, or as one or two \<open>_xHHHH_\<close> code units.  A character stands for itself
  where its bytes do not start an escape.
\<close>

definition entity :: "nat \<Rightarrow> string \<Rightarrow> bool" where
  "entity c name \<longleftrightarrow>
     (name, c) \<in> {(''lt'', code (CHR ''<'')), (''gt'', code (CHR ''>'')), (''amp'', code (CHR ''&'')),
        (''quot'', code quote), (''apos'', code (CHR 0x27))}
     \<or> (\<exists>ds. name = ''#'' @ ds \<and> length ds \<le> 7 \<and> number ds 10 = Some c)
     \<or> (\<exists>ds. name = ''#x'' @ ds \<and> length ds \<le> 6 \<and> number ds 16 = Some c)"

inductive escaped :: "nat list \<Rightarrow> string \<Rightarrow> bool" where
  none: "escaped [] []"
| itself: "is_scalar c \<Longrightarrow> escaped cs bytes \<Longrightarrow> c \<noteq> code (CHR ''&'') \<Longrightarrow>
    code_unit (encode_utf8 c @ bytes) = None \<Longrightarrow> escaped (c # cs) (encode_utf8 c @ bytes)"
| entity: "is_scalar c \<Longrightarrow> escaped cs bytes \<Longrightarrow> entity c name \<Longrightarrow>
    escaped (c # cs) (''&'' @ name @ '';'' @ bytes)"
| unit: "is_scalar c \<Longrightarrow> escaped cs bytes \<Longrightarrow> length ds = 4 \<Longrightarrow> number ds 16 = Some c \<Longrightarrow>
    escaped (c # cs) (''_x'' @ ds @ ''_'' @ bytes)"
| pair: "is_scalar c \<Longrightarrow> escaped cs bytes \<Longrightarrow> 0x10000 \<le> c \<Longrightarrow>
    length ds = 4 \<Longrightarrow> number ds 16 = Some (0xD800 + (c - 0x10000) div 1024) \<Longrightarrow>
    length es = 4 \<Longrightarrow> number es 16 = Some (0xDC00 + (c - 0x10000) mod 1024) \<Longrightarrow>
    escaped (c # cs) (''_x'' @ ds @ ''_'' @ ''_x'' @ es @ ''_'' @ bytes)"

lemma strip_prefix_append [simp]: "strip_prefix p (p @ s) = Some s"
  by (simp add: strip_prefix_Some)

lemma code_unit_read:
  assumes "length ds = 4" and "number ds 16 = Some u"
  shows "code_unit (''_x'' @ ds @ ''_'' @ bytes) = Some (u, 7)"
  using assms by (simp add: code_unit_def strip_prefix_append [of "''_x''", simplified] nth_append)

lemma code_unit_plain: "b \<noteq> CHR ''_'' \<Longrightarrow> code_unit (b # bs) = None"
  by (simp add: code_unit_def strip_prefix_def)

lemma reference_plain: "b \<noteq> CHR ''&'' \<Longrightarrow> reference (b # bs) = None"
  by (simp add: reference_def strip_prefix_def)

lemma unescape_plain:
  "(\<And>b. b \<in> set bytes \<Longrightarrow> b \<noteq> CHR ''_'' \<and> b \<noteq> CHR ''&'') \<Longrightarrow> unescape (bytes @ more) = bytes @ unescape more"
  by (induction bytes) (simp_all add: code_unit_plain reference_plain)

lemma to_digit_char:
  "to_digit radix c = Some d \<Longrightarrow> c \<noteq> CHR '';'' \<and> (radix = 10 \<longrightarrow> c \<noteq> CHR ''x'' \<and> c \<noteq> CHR ''X'')"
  by (auto simp: to_digit_def split: if_splits)

lemma number_loop_chars:
  "number_loop radix ds val = Some n \<Longrightarrow> c \<in> set ds \<Longrightarrow>
     c \<noteq> CHR '';'' \<and> (radix = 10 \<longrightarrow> c \<noteq> CHR ''x'' \<and> c \<noteq> CHR ''X'')"
  by (induction radix ds val rule: number_loop.induct)
    (auto split: option.splits dest: to_digit_char)

lemma number_chars:
  "number ds radix = Some n \<Longrightarrow> c \<in> set ds \<Longrightarrow>
     c \<noteq> CHR '';'' \<and> (radix = 10 \<longrightarrow> c \<noteq> CHR ''x'' \<and> c \<noteq> CHR ''X'')"
  using number_loop_chars [of radix ds 0 n c] by (simp add: number_def split: if_splits)

text \<open>Decimal digits do not start with the letter that says hexadecimal.\<close>

lemma decimal_start:
  assumes "number ds 10 = Some c" and "x = CHR ''x'' \<or> x = CHR ''X''"
  shows "strip_prefix [x] ds = None"
proof (cases ds)
  case (Cons d ds')
  with number_chars [OF assms(1), of d] assms(2) show ?thesis
    by (auto simp: strip_prefix_def)
qed (simp add: strip_prefix_def)

lemma entity_name:
  assumes "entity c name"
  shows "length name \<le> 8 \<and> CHR '';'' \<notin> set name"
  using assms number_chars by (fastforce simp: entity_def)

lemma position_first:
  assumes "\<And>x. x \<in> set xs \<Longrightarrow> \<not> p x" and "p y"
  shows "position p (xs @ y # ys) = Some (length xs)"
  using assms by (induction xs) simp_all

lemma reference_read:
  assumes "entity c name"
  shows "reference (''&'' @ name @ '';'' @ bytes) = Some (c, length name + 2)"
proof -
  from entity_name [OF assms] have name: "length name \<le> 8" "CHR '';'' \<notin> set name" by simp_all
  have t: "take (LONGEST_REFERENCE + 1) (name @ '';'' @ bytes)
      = name @ CHR '';'' # take (8 - length name) bytes"
    using name(1) by (simp add: LONGEST_REFERENCE_def take_Cons' numeral_eq_Suc)
  have "x \<noteq> CHR '';''" if "x \<in> set name" for x
    using name(2) that by blast
  then have p: "position (\<lambda>b. b = CHR '';'') (take (LONGEST_REFERENCE + 1) (name @ '';'' @ bytes))
      = Some (length name)"
    unfolding t by (intro position_first) simp_all
  have n: "take (length name) (name @ '';'' @ bytes) = name" by simp
  note step = reference_def [of "''&'' @ name @ '';'' @ bytes", unfolded strip_prefix_append option.case p,
      unfolded Let_def n]
  from assms consider
    "(name, c) \<in> {(''lt'', code (CHR ''<'')), (''gt'', code (CHR ''>'')), (''amp'', code (CHR ''&'')),
        (''quot'', code quote), (''apos'', code (CHR 0x27))}"
    | ds where "name = ''#'' @ ds" "number ds 10 = Some c"
    | ds where "name = ''#x'' @ ds" "number ds 16 = Some c"
    unfolding entity_def by blast
  then show ?thesis
  proof cases
    case 1
    then show ?thesis
      by (elim insertE emptyE)
        (simp_all add: reference_def LONGEST_REFERENCE_def strip_prefix_def)
  next
    case (2 ds)
    then show ?thesis
      unfolding step using decimal_start [OF 2(2)] strip_prefix_append [of "''#''" ds] by simp
  next
    case (3 ds)
    then show ?thesis
      unfolding step
      using strip_prefix_append [of "''x''" ds] strip_prefix_append [of "''#''" "CHR ''x'' # ds"]
      by simp
  qed
qed

lemma entity_scalar: "entity c name \<Longrightarrow> code_unit (''&'' @ s) = None"
  by (simp add: code_unit_plain)

lemma encode_utf8_bytes:
  assumes "is_scalar c" and "b \<in> set (encode_utf8 c)" and "128 \<le> c"
  shows "128 \<le> code b"
proof -
  have "c < 0x110000" using assms(1) by (auto simp: is_scalar_def)
  moreover have "(192 + c div 64) mod 256 = 192 + c div 64" if "c < 0x800"
    using that by simp
  ultimately show ?thesis
    using assms(2,3)
    by (auto simp: encode_utf8_def of_char_of split: if_splits)
qed

lemma unescape_itself:
  assumes "is_scalar c" and "c \<noteq> code (CHR ''&'')" and "code_unit (encode_utf8 c @ bytes) = None"
  shows "unescape (encode_utf8 c @ bytes) = encode_utf8 c @ unescape bytes"
proof (cases "c < 128")
  case True
  then have c: "encode_utf8 c = [char_of c]" "char_of c \<noteq> CHR ''&''"
    using assms(2) by (auto simp: encode_utf8_def char_of_eq_iff take_bit_eq_mod)
  with assms(3) show ?thesis by (simp add: reference_plain)
next
  case False
  then have "b \<noteq> CHR ''_'' \<and> b \<noteq> CHR ''&''" if "b \<in> set (encode_utf8 c)" for b
    using encode_utf8_bytes [OF assms(1) that] by auto
  then show ?thesis by (simp add: unescape_plain)
qed

lemma unescape_pair:
  assumes "is_scalar c" and "0x10000 \<le> c"
    and "length ds = 4" and "number ds 16 = Some (0xD800 + (c - 0x10000) div 1024)"
    and "length es = 4" and "number es 16 = Some (0xDC00 + (c - 0x10000) mod 1024)"
  shows "unescape (''_x'' @ ds @ ''_'' @ ''_x'' @ es @ ''_'' @ bytes) = encode_utf8 c @ unescape bytes"
proof -
  define h where "h = (c - 0x10000) div 1024"
  define l where "l = (c - 0x10000) mod 1024"
  have c: "0x10000 + h * 1024 + l = c"
    using assms(2) by (simp add: h_def l_def)
  have h: "h < 1024" and l: "l < 1024"
    using assms(1,2) by (auto simp: is_scalar_def h_def l_def)
  note u = code_unit_read [OF assms(3,4), folded h_def]
  note v = code_unit_read [OF assms(5,6), folded l_def]
  from h l v have "low_half (0xD800 + h) (''_x'' @ es @ ''_'' @ bytes) = Some (0xDC00 + l, 7)"
    by (simp add: low_half_def)
  moreover have "drop 7 (''_x'' @ ds @ ''_'' @ rest) = rest" "drop 14 (''_x'' @ ds @ ''_'' @ ''_x'' @ es @ ''_'' @ rest) = rest"
    for rest using assms(3,5) by simp_all
  ultimately show ?thesis
    using assms(1) u c by (simp add: push_char_def)
qed

text \<open>
  C5: \<open>unescape\<close> reads back what an escaped text says: whichever of its characters are written
  as themselves, as XML references or as \<open>_xHHHH_\<close> code units, a surrogate pair of units among
  them, the result is the UTF-8 text of those characters.
\<close>

theorem escapes_read_back:
  "escaped cs bytes \<Longrightarrow> unescape bytes = concat (map encode_utf8 cs)"
proof (induction rule: escaped.induct)
  case none
  show ?case by simp
next
  case (itself c cs bytes)
  with unescape_itself show ?case by simp
next
  case (entity c cs bytes name)
  then show ?case
    using reference_read [OF entity(3), of bytes]
    by (simp add: code_unit_plain push_char_def)
next
  case (unit c cs bytes ds)
  then have "low_half c bytes = None" for bytes
    by (auto simp: low_half_def is_scalar_def)
  with unit show ?case
    using code_unit_read [OF unit(3,4), of bytes]
    by (simp add: push_char_def)
next
  case (pair c cs bytes ds es)
  with unescape_pair [of c ds es bytes] show ?case by simp
qed

lemma escapes_read_back_witness:
  "escaped [0x1F600, 65, 38] ''_xD83D__xDE00_A&amp;''
   \<and> unescape ''_xD83D__xDE00_A&amp;'' = encode_utf8 0x1F600 @ ''A&''"
proof -
  have enc: "encode_utf8 65 = ''A''" "encode_utf8 38 = ''&''" by code_simp+
  have "escaped [38] (''&'' @ ''amp'' @ '';'' @ [])"
    by (intro escaped.intros) (simp_all add: is_scalar_def entity_def)
  then have "escaped [65, 38] (encode_utf8 65 @ ''&amp;'')"
    by (intro escaped.itself) (simp_all add: is_scalar_def enc code_unit_plain)
  then have "escaped [0x1F600, 65, 38] (''_x'' @ ''D83D'' @ ''_'' @ ''_x'' @ ''DE00'' @ ''_'' @
      encode_utf8 65 @ ''&amp;'')"
    by (intro escaped.pair) (simp_all add: is_scalar_def number_def to_digit_def)
  then have e: "escaped [0x1F600, 65, 38] ''_xD83D__xDE00_A&amp;''"
    by (simp add: enc)
  from e escapes_read_back [OF e] show ?thesis
    by (simp add: enc)
qed

end
