(* ===== verification/Clixml_Decoder.thy ===== *)
theory Clixml_Decoder
  imports Clixml_Text
begin

text \<open>
  \<open>crates/pwrs-build/src/clixml.rs\<close>, the \<open>Decoder\<close>: it turns an error stream that may hold
  CLIXML documents into plain text, one read at a time.  The state is the record \<open>decoder\<close>,
  passed and returned, with the buffer \<open>out\<close> beside it.  The vector of documents is a list
  whose head is the vector's last element, the innermost document.  Every loop is a
  \<open>function\<close> with its termination proved: the plain loop by the bytes left and whether a
  candidate is kept, the loops over documents by the bytes the documents hold.
\<close>

section \<open>State\<close>

record document =
  d_bytes :: string
  d_reads :: "nat list"

record decoder =
  candidate :: string
  line_start :: bool
  due :: nat
  documents :: "document list"
  ended_line :: bool

datatype records =
    Ended document
  | Wrote
  | Waiting

definition new_decoder :: decoder where
  "new_decoder =
     \<lparr>candidate = [], line_start = True, due = 0, documents = [], ended_line = True\<rparr>"

text \<open>\<open>Document::default\<close>, \<open>split_off\<close>, \<open>append\<close> and \<open>cut\<close>.\<close>

definition empty_document :: document where
  "empty_document = \<lparr>d_bytes = [], d_reads = []\<rparr>"

definition split_off :: "document \<Rightarrow> nat \<Rightarrow> document \<times> document" where
  "split_off d from =
     (\<lparr>d_bytes = take from (d_bytes d), d_reads = filter (\<lambda>r. r < from) (d_reads d)\<rparr>,
      \<lparr>d_bytes = drop from (d_bytes d),
       d_reads = map (\<lambda>r. r - from) (filter (\<lambda>r. from \<le> r) (d_reads d))\<rparr>)"

definition append_document :: "document \<Rightarrow> document \<Rightarrow> document" where
  "append_document d other =
     (let at = length (d_bytes d)
      in \<lparr>d_bytes = d_bytes d @ d_bytes other,
          d_reads = d_reads d @ map (\<lambda>r. r + at) (d_reads other)\<rparr>)"

definition cut :: "document \<Rightarrow> nat \<Rightarrow> nat \<Rightarrow> document \<times> string" where
  "cut d from to =
     (\<lparr>d_bytes = take from (d_bytes d) @ drop to (d_bytes d),
       d_reads = map (\<lambda>r. if to \<le> r then r - (to - from) else r)
                   (filter (\<lambda>r. r < from \<or> to \<le> r) (d_reads d))\<rparr>,
      slice (d_bytes d) from to)"

section \<open>Plain text\<close>

definition write_plain :: "decoder \<Rightarrow> string \<Rightarrow> string \<Rightarrow> decoder \<times> string" where
  "write_plain d bytes out =
     (if bytes = [] then (d, out)
      else (let b = is_line_break (last bytes)
            in (d\<lparr>line_start := b, ended_line := b\<rparr>, out @ bytes)))"

text \<open>
  The loop of \<open>plain\<close> over the bytes from \<open>at\<close> on, which returns the bytes it has not taken.
  Where the source steps \<open>at\<close> back, the byte stays in front.
\<close>

function plain_loop :: "decoder \<Rightarrow> string \<Rightarrow> string \<Rightarrow> decoder \<times> string \<times> string" where
  "plain_loop d [] out = (d, [], out)"
| "plain_loop d (byte # bytes) out =
     (let starts = (line_start d \<and> byte = CHR ''#'') \<or> (0 < due d \<and> byte = CHR ''<'') in
      if candidate d = [] \<and> \<not> starts then
        (let (d', out') = write_plain d [byte] out in plain_loop d' bytes out')
      else
        (let d1 = d\<lparr>candidate := candidate d @ [byte]\<rparr> in
         case candidate_of (candidate d1) of
           CPartial \<Rightarrow> plain_loop d1 bytes out
         | CMarker \<Rightarrow>
             plain_loop (d1\<lparr>candidate := [], due := due d1 + 1, line_start := True\<rparr>) bytes out
         | CRoot \<Rightarrow>
             (d1\<lparr>candidate := [], due := due d1 - 1,
                documents := empty_document # documents d1\<rparr>, bytes, out)
         | CPlain \<Rightarrow>
             (let txt = candidate d1;
                  d2 = d1\<lparr>candidate := []\<rparr> in
              if butlast txt = [] then
                (let (d', out') = write_plain d2 [last txt] out in plain_loop d' bytes out')
              else
                (let (d', out') = write_plain d2 (butlast txt) out
                 in plain_loop d' (byte # bytes) out'))))"
  by pat_completeness auto
termination
  by (relation "measure (\<lambda>(d, bytes, out). 2 * length bytes + (if candidate d = [] then 0 else 1))")
    (auto simp: write_plain_def Let_def split: if_splits)

declare plain_loop.simps(2) [simp del]

text \<open>\<open>plain\<close>: how many bytes it took.\<close>

definition plain :: "decoder \<Rightarrow> string \<Rightarrow> string \<Rightarrow> decoder \<times> nat \<times> string" where
  "plain d bytes out =
     (case plain_loop d bytes out of (d', rest, out') \<Rightarrow> (d', length bytes - length rest, out'))"

section \<open>Documents\<close>

text \<open>
  The loop of \<open>write_records\<close> over the bytes of the innermost document: where it stopped,
  whether the document ended there, and what it wrote.
\<close>

function records_loop ::
  "string \<Rightarrow> nat \<Rightarrow> nat \<Rightarrow> bool \<Rightarrow> string \<Rightarrow> nat \<times> bool \<times> bool \<times> string"
where
  "records_loop bytes limit at ended out =
     (case next_of (slice bytes at limit) of
        Record len line \<Rightarrow>
          (let (ended', out') =
                 (case line of Some l \<Rightarrow> write_line ended l out | None \<Rightarrow> (ended, out))
           in records_loop bytes limit (at + len) ended' out')
      | Other len \<Rightarrow>
          (let (ended', out') = write_line ended (slice bytes at (at + len)) out
           in records_loop bytes limit (at + len) ended' out')
      | End \<Rightarrow> (at, True, ended, out)
      | NPartial \<Rightarrow> (at, False, ended, out))"
  by pat_completeness auto
termination
proof (relation "measure (\<lambda>(bytes, limit, at, ended, out). limit - at)", goal_cases)
  case (2 bytes limit at ended out len line)
  then show ?case
    using next_of_advances(1) [OF 2(1)] by (cases "at < limit") (auto simp: slice_def)
next
  case (3 bytes limit at ended out len)
  then show ?case
    using next_of_advances(2) [OF 3(1)] by (cases "at < limit") (auto simp: slice_def)
qed simp

declare records_loop.simps [simp del]

definition write_records :: "decoder \<Rightarrow> nat \<Rightarrow> string \<Rightarrow> decoder \<times> records \<times> string" where
  "write_records d limit out =
     (case documents d of
        [] \<Rightarrow> (d, Waiting, out)
      | doc # outers \<Rightarrow>
          (case records_loop (d_bytes doc) limit 0 (ended_line d) out of
             (at, ended, el, out') \<Rightarrow>
               if ended then
                 (let (doc', after) = split_off doc (at + length ROOT_END)
                  in (d\<lparr>documents := doc' # outers, ended_line := el\<rparr>, Ended after, out'))
               else if at = 0 then (d\<lparr>ended_line := el\<rparr>, Waiting, out')
               else (d\<lparr>documents := fst (cut doc 0 at) # outers, ended_line := el\<rparr>, Wrote, out')))"

text \<open>
  \<open>write_inserted\<close>: where the text another writer put there ends, past its line break at \<open>at\<close>,
  and where it starts.
\<close>

definition inserted_end :: "string \<Rightarrow> nat \<Rightarrow> nat" where
  "inserted_end bytes at =
     (if bytes ! at = CHR 0x0D \<and> at + 1 < length bytes \<and> bytes ! (at + 1) = CHR 0x0A
      then at + 2 else at + 1)"

definition inserted_from :: "document \<Rightarrow> nat \<Rightarrow> nat" where
  "inserted_from doc at =
     (if suffix MARKER (take at (d_bytes doc)) then at - length MARKER
      else (let tag_end = last_tag_end (take at (d_bytes doc))
            in (case find (\<lambda>r. tag_end \<le> r \<and> r \<le> at) (d_reads doc) of
                  Some r \<Rightarrow> r | None \<Rightarrow> tag_end)))"

definition write_inserted :: "decoder \<Rightarrow> nat \<Rightarrow> string \<Rightarrow> decoder \<times> string" where
  "write_inserted d at out =
     (case documents d of
        [] \<Rightarrow> (d, out)
      | doc # outers \<Rightarrow>
          (let (doc', line) = cut doc (inserted_from doc at) (inserted_end (d_bytes doc) at);
               d1 = d\<lparr>documents := doc' # outers\<rparr>
           in if suffix MARKER (take at (d_bytes doc)) then (d1\<lparr>due := due d1 + 1\<rparr>, out)
              else (let (el, out') = write_line (ended_line d1) line out
                    in (d1\<lparr>ended_line := el\<rparr>, out'))))"

definition start_nested :: "decoder \<Rightarrow> nat \<Rightarrow> decoder \<times> bool" where
  "start_nested d at =
     (case documents d of
        [] \<Rightarrow> (d, False)
      | outer # outers \<Rightarrow>
          (case position (\<lambda>b. b = CHR ''>'') (drop at (d_bytes outer)) of
             None \<Rightarrow> (d, False)
           | Some close \<Rightarrow>
               (let (outer1, inner) = split_off outer (at + close + 1);
                    outer2 = fst (cut outer1 at (at + close + 1))
                in (d\<lparr>documents := inner # outer2 # outers, due := due d - 1\<rparr>, True))))"

text \<open>How many bytes the documents hold, which every step of \<open>drain\<close> lessens.\<close>

definition held :: "decoder \<Rightarrow> nat" where
  "held d = sum_list (map (length \<circ> d_bytes) (documents d))"

lemma held_simps [simp]:
  "held (d\<lparr>documents := doc # ds\<rparr>) = length (d_bytes doc) + sum_list (map (length \<circ> d_bytes) ds)"
  "held (d\<lparr>documents := []\<rparr>) = 0"
  "held (d\<lparr>ended_line := e\<rparr>) = held d" "held (d\<lparr>due := n\<rparr>) = held d"
  "held (d\<lparr>candidate := c\<rparr>) = held d" "held (d\<lparr>line_start := b\<rparr>) = held d"
  by (simp_all add: held_def)

lemma held_Cons: "documents d = doc # ds \<Longrightarrow> held d = length (d_bytes doc) + sum_list (map (length \<circ> d_bytes) ds)"
  by (simp add: held_def)

lemma held_append:
  "length (d_bytes (append_document a b)) = length (d_bytes a) + length (d_bytes b)"
  by (simp add: append_document_def Let_def)

lemma records_loop_bounds:
  assumes "records_loop bytes limit at ended out = (at', True, el, out')"
  shows "at' + length ROOT_END \<le> length bytes"
  using assms
proof (induction bytes limit at ended out rule: records_loop.induct)
  case (1 bytes limit at ended out)
  note step = records_loop.simps [of bytes limit at ended out]
  show ?case
  proof (cases "next_of (slice bytes at limit)")
    case (Record len line)
    with 1 show ?thesis
      by (cases line) (auto simp: step write_line_def)
  next
    case (Other len)
    with 1 show ?thesis
      by (auto simp: step write_line_def)
  next
    case End
    then have "length ROOT_END \<le> length (slice bytes at limit)"
      by (auto simp: next_of_End dest: prefix_length_le)
    with End "1.prems" show ?thesis
      by (auto simp: step slice_def)
  next
    case NPartial
    with "1.prems" show ?thesis by (simp add: step)
  qed
qed

lemma records_loop_fits:
  assumes "records_loop bytes limit at ended out = (at', b, el, out')"
    and "at \<le> length bytes"
  shows "at \<le> at' \<and> at' \<le> length bytes \<and> (at \<le> limit \<longrightarrow> at' \<le> limit)"
  using assms
proof (induction bytes limit at ended out rule: records_loop.induct)
  case (1 bytes limit at ended out)
  note step = records_loop.simps [of bytes limit at ended out]
  note fits = next_of_fits [of "slice bytes at limit"]
  show ?case
  proof (cases "next_of (slice bytes at limit)")
    case (Record len line)
    obtain e' o' where w:
      "(case line of Some l \<Rightarrow> write_line ended l out | None \<Rightarrow> (ended, out)) = (e', o')"
      by fastforce
    with Record "1.prems"(1) have "records_loop bytes limit (at + len) e' o' = (at', b, el, out')"
      by (simp add: step)
    moreover from fits(1) [OF Record] "1.prems"(2)
    have "at + len \<le> length bytes" "at \<le> limit \<Longrightarrow> at + len \<le> limit"
      by (auto simp: slice_def)
    ultimately show ?thesis
      using "1.IH"(1) [OF Record w [symmetric] refl] by fastforce
  next
    case (Other len)
    obtain e' o' where w: "write_line ended (slice bytes at (at + len)) out = (e', o')"
      by fastforce
    with Other "1.prems"(1) have "records_loop bytes limit (at + len) e' o' = (at', b, el, out')"
      by (simp add: step)
    moreover from fits(2) [OF Other] "1.prems"(2)
    have "at + len \<le> length bytes" "at \<le> limit \<Longrightarrow> at + len \<le> limit"
      by (auto simp: slice_def)
    ultimately show ?thesis
      using "1.IH"(2) [OF Other w [symmetric] refl] by fastforce
  qed (use "1.prems" in \<open>simp_all add: step\<close>)
qed

lemma records_loop_empty: "records_loop [] limit at ended out = (at, False, ended, out)"
  by (simp add: records_loop.simps [of "[]"] slice_def)

lemma write_records_held:
  "write_records d limit out = (d', Wrote, out') \<Longrightarrow> held d' < held d"
  "write_records d limit out = (d', Waiting, out') \<Longrightarrow> held d' = held d"
  "write_records d limit out = (d', Ended after, out') \<Longrightarrow>
     held d' + length (d_bytes after) = held d
     \<and> (\<exists>doc outers. documents d' = doc # outers \<and> 7 \<le> length (d_bytes doc))"
  by (cases "documents d"; cases "d_bytes (hd (documents d)) = []";
      auto simp: write_records_def cut_def split_off_def held_Cons records_loop_empty
        split: prod.splits if_splits dest: records_loop_bounds)+

lemma cut_shrinks:
  "from \<le> at \<Longrightarrow> at < to \<Longrightarrow> at < length (d_bytes doc) \<Longrightarrow>
     length (d_bytes (fst (cut doc from to))) < length (d_bytes doc)"
  by (simp add: cut_def)

lemma last_tag_end_from_le: "last_tag_end_from bytes end \<le> length bytes"
proof (induction bytes "end" rule: last_tag_end_from.induct)
  case (1 bytes n)
  note step = last_tag_end_from.simps [of bytes n]
  show ?case
  proof (cases "rposition (\<lambda>b. b = CHR ''>'') (take n bytes)")
    case None
    then show ?thesis by (simp add: step)
  next
    case (Some close)
    from rposition_less [OF this] have "close < length bytes" by simp
    with Some 1 show ?thesis
      by (auto simp: step split: option.split)
  qed
qed

lemma last_tag_end_le: "last_tag_end (take at bytes) \<le> at"
  using last_tag_end_from_le [of "take at bytes"] by (simp add: last_tag_end_def le_trans)

lemma inserted_from_le: "inserted_from doc at \<le> at"
  by (auto simp: inserted_from_def Let_def find_Some_iff last_tag_end_le split: option.split)

lemma inserted_end_gt: "at < inserted_end bytes at"
  by (simp add: inserted_end_def)

lemma inserted_end_le: "at < length bytes \<Longrightarrow> inserted_end bytes at \<le> length bytes"
  by (simp add: inserted_end_def)

lemma write_inserted_held:
  assumes "documents d = doc # ds" and "at < length (d_bytes doc)"
  shows "held (fst (write_inserted d at out)) < held d"
proof -
  have "held (fst (write_inserted d at out))
      = length (d_bytes (fst (cut doc (inserted_from doc at) (inserted_end (d_bytes doc) at))))
        + sum_list (map (length \<circ> d_bytes) ds)"
    using assms(1) by (auto simp: write_inserted_def Let_def split: prod.split)
  with cut_shrinks [OF inserted_from_le inserted_end_gt assms(2)] held_Cons [OF assms(1)]
  show ?thesis by simp
qed

lemma start_nested_held:
  assumes "start_nested d at = (d', True)"
  shows "held d' < held d"
proof -
  from assms obtain outer outers close where outer: "documents d = outer # outers"
    and close: "position (\<lambda>b. b = CHR ''>'') (drop at (d_bytes outer)) = Some close"
    by (auto simp: start_nested_def split: list.splits option.splits)
  from position_less [OF close] have "at + close < length (d_bytes outer)" by simp
  with assms outer close show ?thesis
    by (auto simp: start_nested_def split_off_def cut_def held_Cons)
qed

lemma write_records_waiting:
  "write_records d limit out = (d', Waiting, out') \<Longrightarrow> documents d' = documents d"
  by (auto simp: write_records_def split: list.splits prod.splits if_splits)

lemma first_line_break_less: "first_line_break bytes at_end = Some at \<Longrightarrow> at < length bytes"
  by (auto simp: first_line_break_def split: option.splits if_splits dest: position_less)

lemma drain_ended:
  assumes "write_records d limit out = (d1, Ended after, out1)"
    and "tl (documents d1) = outer # outers"
  shows "held (d1\<lparr>documents := append_document outer after # outers\<rparr>) < held d"
  using write_records_held(3) [OF assms(1)] assms(2)
  by (auto simp: held_append held_Cons)

lemma drain_inserted:
  assumes "write_records d limit out = (d1, Waiting, out1)" and "documents d = doc # ds"
    and "first_line_break (d_bytes doc) at_end = Some at"
    and "write_inserted d1 at out1 = (d2, out2)"
  shows "held d2 < held d"
  using write_inserted_held [of d1 doc ds at out1] first_line_break_less [OF assms(3)]
    write_records_waiting [OF assms(1)] write_records_held(2) [OF assms(1)] assms(2,4)
  by simp

lemma drain_nested:
  assumes "write_records d limit out = (d1, Waiting, out1)" and "start_nested d1 at = (d2, True)"
  shows "held d2 < held d"
  using start_nested_held [OF assms(2)] write_records_held(2) [OF assms(1)] by simp

text \<open>\<open>drain\<close>.\<close>

function drain :: "decoder \<Rightarrow> bool \<Rightarrow> string \<Rightarrow> decoder \<times> string option \<times> string" where
  "drain d at_end out =
     (case documents d of
        [] \<Rightarrow> (d, None, out)
      | doc # outers0 \<Rightarrow>
          (let line_break = first_line_break (d_bytes doc) at_end;
               nested = find_sub ROOT (d_bytes doc);
               limit = (case least_found [line_break, nested] of
                          Some n \<Rightarrow> n | None \<Rightarrow> length (d_bytes doc)) in
           case write_records d limit out of
             (d1, Ended after, out1) \<Rightarrow>
               (case tl (documents d1) of
                  outer # outers \<Rightarrow>
                    drain (d1\<lparr>documents := append_document outer after # outers\<rparr>) at_end out1
                | [] \<Rightarrow> (d1\<lparr>documents := [], line_start := True\<rparr>, Some (d_bytes after), out1))
           | (d1, Wrote, out1) \<Rightarrow> drain d1 at_end out1
           | (d1, Waiting, out1) \<Rightarrow>
               (case (line_break, nested) of
                  (Some at, None) \<Rightarrow>
                    (let (d2, out2) = write_inserted d1 at out1 in drain d2 at_end out2)
                | (Some at, Some root) \<Rightarrow>
                    if at < root then
                      (let (d2, out2) = write_inserted d1 at out1 in drain d2 at_end out2)
                    else
                      (let (d2, started) = start_nested d1 root
                       in if started then drain d2 at_end out1 else (d2, None, out1))
                | (None, Some root) \<Rightarrow>
                    (let (d2, started) = start_nested d1 root
                     in if started then drain d2 at_end out1 else (d2, None, out1))
                | (None, None) \<Rightarrow> (d1, None, out1))))"
  by pat_completeness auto
termination
  by (relation "measure (\<lambda>(d, at_end, out). held d)")
    (simp_all del: held_simps,
      (metis drain_ended drain_inserted drain_nested write_records_held(1))+)

declare drain.simps [simp del]

text \<open>
  The turns of the loop of \<open>drain\<close> as a step relation on the decoder and its output, and the
  ways it stops.  \<open>drain_turns\<close> shows that a run of the loop is a sequence of turns and a stop,
  so what every turn keeps, \<open>drain\<close> keeps.
\<close>

inductive turn :: "bool \<Rightarrow> decoder \<times> string \<Rightarrow> decoder \<times> string \<Rightarrow> bool" for e :: bool where
  inner_ended: "write_records d limit out = (d1, Ended after, out1) \<Longrightarrow>
     documents d1 = doc # outer # outers \<Longrightarrow>
     turn e (d, out) (d1\<lparr>documents := append_document outer after # outers\<rparr>, out1)"
| wrote: "write_records d limit out = (d1, Wrote, out1) \<Longrightarrow> turn e (d, out) (d1, out1)"
| inserted: "write_records d limit out = (d1, Waiting, out1) \<Longrightarrow> documents d = doc # outers \<Longrightarrow>
     first_line_break (d_bytes doc) e = Some at \<Longrightarrow> write_inserted d1 at out1 = (d2, out2) \<Longrightarrow>
     turn e (d, out) (d2, out2)"
| nested: "write_records d limit out = (d1, Waiting, out1) \<Longrightarrow>
     start_nested d1 root = (d2, True) \<Longrightarrow> turn e (d, out) (d2, out1)"

inductive stop :: "decoder \<times> string \<Rightarrow> decoder \<times> string option \<times> string \<Rightarrow> bool" where
  no_document: "documents d = [] \<Longrightarrow> stop (d, out) (d, None, out)"
| outermost_ended: "write_records d limit out = (d1, Ended after, out1) \<Longrightarrow>
     documents d1 = [doc] \<Longrightarrow>
     stop (d, out) (d1\<lparr>documents := [], line_start := True\<rparr>, Some (d_bytes after), out1)"
| starved: "write_records d limit out = (d1, Waiting, out1) \<Longrightarrow> documents d \<noteq> [] \<Longrightarrow>
     stop (d, out) (d1, None, out1)"

inductive_cases turnE: "turn e s t"
inductive_cases stopE: "stop s r"

lemma start_nested_False: "start_nested d at = (d', False) \<Longrightarrow> d' = d"
  by (auto simp: start_nested_def split: list.splits option.splits prod.splits)

lemma write_records_ended: "write_records d limit out = (d1, Ended after, out1) \<Longrightarrow>
    \<exists>doc outers. documents d1 = doc # outers"
  by (auto simp: write_records_def split: list.splits prod.splits if_splits)

lemma drain_once:
  "(\<exists>s. turn e (d, out) s \<and> drain d e out = drain (fst s) e (snd s))
   \<or> (\<exists>r. stop (d, out) r \<and> drain d e out = r)"
proof (cases "documents d")
  case Nil
  then show ?thesis
    by (auto simp: drain.simps [of d e out] intro: no_document)
next
  case (Cons doc outers0)
  define lb where "lb = first_line_break (d_bytes doc) e"
  define ne where "ne = find_sub ROOT (d_bytes doc)"
  define limit where "limit =
    (case least_found [lb, ne] of Some n \<Rightarrow> n | None \<Rightarrow> length (d_bytes doc))"
  obtain d1 rs out1 where w: "write_records d limit out = (d1, rs, out1)"
    by (metis surj_pair)
  note step = drain.simps [of d e out, unfolded Cons list.case Let_def,
      folded lb_def ne_def, folded limit_def, unfolded w prod.case]
  have ins: ?thesis if "rs = Waiting" "lb = Some at"
    "drain d e out = (let (d2, out2) = write_inserted d1 at out1 in drain d2 e out2)" for at
    using that inserted [OF w [unfolded that(1)] Cons, of e at] lb_def
    by (auto split: prod.splits)
  have nest: ?thesis if "rs = Waiting"
    "drain d e out = (let (d2, started) = start_nested d1 root
       in if started then drain d2 e out1 else (d2, None, out1))" for root
  proof (cases "start_nested d1 root")
    case (Pair d2 b)
    then show ?thesis
      using that nested [OF w [unfolded that(1)], of root] start_nested_False [of d1 root d2]
        starved [OF w [unfolded that(1)]] Cons
      by (cases b) fastforce+
  qed
  show ?thesis
  proof (cases rs)
    case (Ended after)
    note w = w [unfolded Ended]
    from write_records_ended [OF w] obtain doc1 outers1 where "documents d1 = doc1 # outers1" by blast
    with Ended inner_ended [OF w] outermost_ended [OF w] step show ?thesis
      by (cases outers1) fastforce+
  next
    case Wrote
    with step wrote [OF w [unfolded Wrote]] show ?thesis by auto
  next
    case Waiting
    show ?thesis
    proof (cases lb)
      case None
      then show ?thesis
        using step Waiting nest starved [OF w [unfolded Waiting]] Cons by (cases ne) auto
    next
      case (Some at)
      show ?thesis
      proof (cases ne)
        case None
        then show ?thesis using step Waiting Some ins by auto
      next
        case ne': (Some root)
        then show ?thesis
          using step Waiting Some ins nest by (cases "at < root") auto
      qed
    qed
  qed
qed

lemma turn_held: "turn e s t \<Longrightarrow> held (fst t) < held (fst s)"
  by (erule turnE)
    (auto simp del: held_simps
      intro: drain_ended drain_inserted drain_nested write_records_held(1))

lemma drain_turns:
  "\<exists>s. (turn e)\<^sup>*\<^sup>* (d, out) s \<and> stop s (drain d e out)"
proof (induction "held d" arbitrary: d out rule: less_induct)
  case less
  from drain_once [of e d out] show ?case
  proof (elim disjE exE conjE)
    fix s
    assume t: "turn e (d, out) s" and eq: "drain d e out = drain (fst s) e (snd s)"
    from less.hyps [of "fst s" "snd s"] turn_held [OF t] obtain u where
      "(turn e)\<^sup>*\<^sup>* s u" "stop u (drain (fst s) e (snd s))"
      by auto
    with t eq show ?thesis
      by (metis converse_rtranclp_into_rtranclp)
  qed blast
qed

text \<open>What every turn keeps holds wherever \<open>drain\<close> stops.\<close>

lemma drain_rule:
  assumes "P (d, out)" and "\<And>s t. P s \<Longrightarrow> turn e s t \<Longrightarrow> P t"
    and "\<And>s r. P s \<Longrightarrow> stop s r \<Longrightarrow> Q r"
  shows "Q (drain d e out)"
proof -
  obtain s where s: "(turn e)\<^sup>*\<^sup>* (d, out) s" "stop s (drain d e out)"
    using drain_turns by blast
  from s(1) assms(1) have "P s"
    by (induction rule: rtranclp_induct) (auto intro: assms(2))
  with s(2) assms(3) show ?thesis by blast
qed

lemma drain_held:
  assumes "drain d e out = (d', r, out')"
  shows "held d' + (case r of Some p \<Rightarrow> Suc (length p) | None \<Rightarrow> 0) \<le> held d"
proof -
  have "case drain d e out of (d', r, out') \<Rightarrow>
      held d' + (case r of Some p \<Rightarrow> Suc (length p) | None \<Rightarrow> 0) \<le> held d"
  proof (rule drain_rule [where P = "\<lambda>s. held (fst s) \<le> held d"])
    fix s t
    assume "held (fst s) \<le> held d" and "turn e s t"
    then show "held (fst t) \<le> held d"
      using turn_held [of e s t] by simp
  next
    fix s r
    assume le: "held (fst s) \<le> held d" and "stop s r"
    from this(2) show "case r of (d', r, out') \<Rightarrow>
      held d' + (case r of Some p \<Rightarrow> Suc (length p) | None \<Rightarrow> 0) \<le> held d"
      using le
      by (cases rule: stop.cases)
        (auto dest: write_records_held(2,3) simp: held_Cons)
  qed simp
  with assms show ?thesis by simp
qed

section \<open>Reading a stream\<close>

text \<open>
  What \<open>plain_loop\<close> does to the documents, and a rule for what its writes keep: the case
  distinction of its body is made here once.
\<close>

lemma plain_loop_rule:
  assumes "plain_loop d bytes out = (d', rest, out')" and "P d out"
    and wr: "\<And>d b out. P d out \<Longrightarrow> P (fst (write_plain d b out)) (snd (write_plain d b out))"
    and cand: "\<And>d c out. P d out \<Longrightarrow> P (d\<lparr>candidate := c\<rparr>) out"
    and marker: "\<And>d out. P d out \<Longrightarrow> P (d\<lparr>due := due d + 1, line_start := True\<rparr>) out"
    and root: "\<And>d out. P d out \<Longrightarrow>
      P (d\<lparr>due := due d - 1, documents := empty_document # documents d\<rparr>) out"
  shows "P d' out' \<and> length rest \<le> length bytes \<and>
    (documents d' = documents d \<and> rest = [] \<or> documents d' = empty_document # documents d)"
  using assms(1,2)
proof (induction d bytes out rule: plain_loop.induct)
  case (2 d byte bytes out)
  define starts where
    "starts \<longleftrightarrow> line_start d \<and> byte = CHR ''#'' \<or> 0 < due d \<and> byte = CHR ''<''"
  note step = plain_loop.simps(2) [of d byte bytes out, folded starts_def]
  note IH = "2.IH" [OF starts_def]
  show ?case
  proof (cases "candidate d = [] \<and> \<not> starts")
    case True
    obtain d' out' where w: "write_plain d [byte] out = (d', out')"
      by (meson surj_pair)
    moreover from w have "documents d' = documents d"
      by (auto simp: write_plain_def Let_def split: if_splits)
    ultimately show ?thesis
      using "2.prems" True IH(1) [OF True w [symmetric]] wr [OF "2.prems"(2), of "[byte]"]
      by (auto simp: step)
  next
    case False
    define d1 where "d1 = d\<lparr>candidate := candidate d @ [byte]\<rparr>"
    note IH = IH(2-) [OF False d1_def]
    have d1: "documents d1 = documents d" "P d1 out"
      by (simp_all add: d1_def cand "2.prems"(2))
    show ?thesis
    proof (cases "candidate_of (candidate d1)")
      case CPartial
      with "2.prems" False IH(1) [OF CPartial] show ?thesis
        by (simp add: step Let_def d1 flip: d1_def)
    next
      case CMarker
      with "2.prems" False IH(2) [OF CMarker] marker [OF cand [OF d1(2)], of "[]"] show ?thesis
        by (simp add: step Let_def d1 flip: d1_def)
    next
      case CRoot
      with "2.prems" False root [OF cand [OF d1(2)], of "[]"] show ?thesis
        by (auto simp: step Let_def d1 simp flip: d1_def)
    next
      case CPlain
      note step = step [folded d1_def, unfolded Let_def CPlain candidate.case if_not_P [OF False]]
      note IH = IH(3,4) [OF CPlain refl refl]
      show ?thesis
      proof (cases "butlast (candidate d1) = []")
        case True
        obtain d2 out2 where
          w: "write_plain (d1\<lparr>candidate := []\<rparr>) [last (candidate d1)] out = (d2, out2)"
          by (meson surj_pair)
        moreover from w have "documents d2 = documents d"
          by (auto simp: write_plain_def Let_def d1 split: if_splits)
        ultimately show ?thesis
          using "2.prems" True IH(1) [OF True w [symmetric]]
            wr [OF cand [OF d1(2)], of "[]" "[last (candidate d1)]"]
          by (auto simp: step)
      next
        case False
        obtain d2 out2 where
          w: "write_plain (d1\<lparr>candidate := []\<rparr>) (butlast (candidate d1)) out = (d2, out2)"
          by (meson surj_pair)
        moreover from w have "documents d2 = documents d"
          by (auto simp: write_plain_def Let_def d1 split: if_splits)
        ultimately show ?thesis
          using "2.prems" False IH(2) [OF False w [symmetric]]
            wr [OF cand [OF d1(2)], of "[]" "(butlast (candidate d1))"]
          by (auto simp: step)
      qed
    qed
  qed
qed simp

lemma plain_loop_documents:
  "plain_loop d bytes out = (d', rest, out') \<Longrightarrow> length rest \<le> length bytes \<and>
    (documents d' = documents d \<and> rest = [] \<or> documents d' = empty_document # documents d)"
  using plain_loop_rule [of d bytes out d' rest out' "\<lambda>_ _. True"] by simp

text \<open>
  A run of the loop over a read cut in two: where the first part starts no document, the second
  goes on from its state; where it starts one, the rest is left over.
\<close>

lemma plain_loop_append:
  "plain_loop d a out = (d', rest, out') \<Longrightarrow>
     plain_loop d (a @ b) out =
       (if documents d' = documents d then plain_loop d' b out' else (d', rest @ b, out'))"
proof (induction d a out rule: plain_loop.induct)
  case (2 d byte bytes out)
  define starts where
    "starts \<longleftrightarrow> line_start d \<and> byte = CHR ''#'' \<or> 0 < due d \<and> byte = CHR ''<''"
  note step = plain_loop.simps(2) [of d byte, folded starts_def]
  note IH = "2.IH" [OF starts_def]
  show ?case
  proof (cases "candidate d = [] \<and> \<not> starts")
    case True
    obtain d' out' where w: "write_plain d [byte] out = (d', out')"
      by (meson surj_pair)
    moreover from w have "documents d' = documents d"
      by (auto simp: write_plain_def Let_def split: if_splits)
    ultimately show ?thesis
      using "2.prems" True IH(1) [OF True refl w [symmetric]] by (simp add: step)
  next
    case False
    note step = step [unfolded Let_def if_not_P [OF False]]
    let ?d1 = "d\<lparr>candidate := candidate d @ [byte]\<rparr>"
    note IH = IH(2-) [OF False refl]
    show ?thesis
    proof (cases "candidate_of (candidate ?d1)")
      case CPlain
      note step = step [unfolded CPlain candidate.case]
      note IH = IH(3,4) [OF CPlain refl refl]
      show ?thesis
      proof (cases "butlast (candidate ?d1) = []")
        case True
        obtain d2 out2 where
          w: "write_plain (?d1\<lparr>candidate := []\<rparr>) [last (candidate ?d1)] out = (d2, out2)"
          by (meson surj_pair)
        moreover from w have "documents d2 = documents d"
          by (auto simp: write_plain_def Let_def split: if_splits)
        ultimately show ?thesis
          using "2.prems" True IH(1) [OF True refl w [symmetric]] by (simp add: step)
      next
        case False
        obtain d2 out2 where
          w: "write_plain (?d1\<lparr>candidate := []\<rparr>) (butlast (candidate ?d1)) out = (d2, out2)"
          by (meson surj_pair)
        moreover from w have "documents d2 = documents d"
          by (auto simp: write_plain_def Let_def split: if_splits)
        ultimately show ?thesis
          using "2.prems" False IH(2) [OF False refl w [symmetric]] by (simp add: step)
      qed
    qed (use "2.prems" False IH(1,2) in \<open>auto simp: step\<close>)
  qed
qed simp

lemma plain_held:
  "plain d bytes out = (d', used, out') \<Longrightarrow> held d' = held d \<and> used \<le> length bytes"
  by (auto simp: plain_def held_def empty_document_def split: prod.splits
      dest!: plain_loop_documents)

lemma take_loop_lessens:
  assumes "(if documents d = [] then plain d input out else (d, 0, out)) = (d1, used, out1)"
    and "documents d1 = doc # outers"
    and "drain (d1\<lparr>documents := \<lparr>d_bytes = d_bytes doc @ drop used input, d_reads = reads\<rparr> # outers\<rparr>)
      at_end out1 = (d2, Some after, out2)"
  shows "held d2 + length after < held d + length input"
proof -
  from assms(1) have "held d1 = held d" by (auto dest: plain_held split: if_splits)
  with drain_held [OF assms(3)] held_Cons [OF assms(2)] show ?thesis by simp
qed

text \<open>
  The loop of \<open>take\<close>: \<open>input\<close> is the read at first, then what followed the end of the
  outermost document.
\<close>

function take_loop :: "decoder \<Rightarrow> string \<Rightarrow> bool \<Rightarrow> bool \<Rightarrow> string \<Rightarrow> decoder \<times> string" where
  "take_loop d input starts_read at_end out =
     (let (d1, used, out1) = (if documents d = [] then plain d input out else (d, 0, out)) in
      case documents d1 of
        [] \<Rightarrow> (d1, out1)
      | doc # outers \<Rightarrow>
          (let reads = (if starts_read \<and> used = 0 then d_reads doc @ [length (d_bytes doc)]
                        else d_reads doc);
               doc' = \<lparr>d_bytes = d_bytes doc @ drop used input, d_reads = reads\<rparr> in
           case drain (d1\<lparr>documents := doc' # outers\<rparr>) at_end out1 of
             (d2, Some after, out2) \<Rightarrow> take_loop d2 after False at_end out2
           | (d2, None, out2) \<Rightarrow> (d2, out2)))"
  by pat_completeness auto
termination
proof (relation "measure (\<lambda>(d, input, starts_read, at_end, out). held d + length input)", goal_cases)
  case 2
  then show ?case
    by (auto simp del: held_simps intro: take_loop_lessens [OF sym _ sym])
qed simp

declare take_loop.simps [simp del]

text \<open>What the plain loop, a read's bytes and \<open>drain\<close> keep, \<open>take\<close> keeps.\<close>

lemma take_loop_rule:
  assumes "take_loop d input n e out = (d', out')" and "P d out"
    and plain: "\<And>d input out d1 used out1. P d out \<Longrightarrow> plain d input out = (d1, used, out1) \<Longrightarrow> P d1 out1"
    and feed: "\<And>d doc outers reads bytes out. P d out \<Longrightarrow> documents d = doc # outers \<Longrightarrow>
      reads = d_reads doc \<or> reads = d_reads doc @ [length (d_bytes doc)] \<Longrightarrow>
      P (d\<lparr>documents := \<lparr>d_bytes = d_bytes doc @ bytes, d_reads = reads\<rparr> # outers\<rparr>) out"
    and drain: "\<And>d e out d2 r out2. P d out \<Longrightarrow> drain d e out = (d2, r, out2) \<Longrightarrow> P d2 out2"
  shows "P d' out'"
  using assms(1,2)
proof (induction d input n e out rule: take_loop.induct)
  case (1 d input n e out)
  note step = take_loop.simps [of d input n e out]
  obtain d1 used out1 where
    p: "(if documents d = [] then plain d input out else (d, 0, out)) = (d1, used, out1)"
    by (metis prod_cases3)
  then have keep1: "P d1 out1"
    using "1.prems"(2) plain [OF "1.prems"(2)] by (auto split: if_splits)
  show ?case
  proof (cases "documents d1")
    case Nil
    with p keep1 "1.prems"(1) show ?thesis by (simp add: step)
  next
    case (Cons doc outers)
    define reads where
      "reads = (if n \<and> used = 0 then d_reads doc @ [length (d_bytes doc)] else d_reads doc)"
    define doc' where "doc' = \<lparr>d_bytes = d_bytes doc @ drop used input, d_reads = reads\<rparr>"
    obtain d2 r out2 where dr: "drain (d1\<lparr>documents := doc' # outers\<rparr>) e out1 = (d2, r, out2)"
      by (metis prod_cases3)
    have "P (d1\<lparr>documents := doc' # outers\<rparr>) out1"
      unfolding doc'_def by (rule feed [OF keep1 Cons]) (simp add: reads_def)
    from drain [OF this dr] have keep2: "P d2 out2" .
    note step = step [unfolded p, unfolded Let_def prod.case Cons list.case,
        folded reads_def, folded doc'_def, unfolded dr prod.case]
    show ?thesis
    proof (cases r)
      case None
      with keep2 "1.prems"(1) step show ?thesis by simp
    next
      case (Some after)
      with "1.prems"(1) step have "take_loop d2 after False e out2 = (d', out')" by simp
      with "1.IH" [OF p [symmetric] refl refl Cons reads_def doc'_def dr [symmetric] refl Some]
        keep2 show ?thesis by simp
    qed
  qed
qed

definition take_read :: "decoder \<Rightarrow> string \<Rightarrow> bool \<Rightarrow> bool \<Rightarrow> string \<Rightarrow> decoder \<times> string" where
  "take_read d bytes new_read at_end out = take_loop d bytes new_read at_end out"

definition read :: "decoder \<Rightarrow> string \<Rightarrow> string \<Rightarrow> decoder \<times> string" where
  "read d bytes out = take_read d bytes True False out"

fun rest_loop :: "document list \<Rightarrow> bool \<Rightarrow> string \<Rightarrow> bool \<times> string" where
  "rest_loop [] ended out = (ended, out)"
| "rest_loop (doc # outers) ended out =
     (let (ended', out') = write_rest ended (d_bytes doc) out in rest_loop outers ended' out')"

definition end_stream :: "decoder \<Rightarrow> string \<Rightarrow> decoder \<times> string" where
  "end_stream d out =
     (let (d1, out1) = take_read d [] False True out;
          (el, out2) = rest_loop (documents d1) (ended_line d1) out1;
          (d3, out3) = write_plain (d1\<lparr>documents := [], ended_line := el, candidate := []\<rparr>)
                         (candidate d1) out2
      in if ended_line d3 then (d3, out3) else (d3\<lparr>ended_line := True\<rparr>, out3 @ [CHR 0x0A]))"

text \<open>A whole stream, one read after another.\<close>

fun read_all :: "decoder \<Rightarrow> string list \<Rightarrow> string \<Rightarrow> decoder \<times> string" where
  "read_all d [] out = (d, out)"
| "read_all d (bytes # reads) out =
     (let (d', out') = read d bytes out in read_all d' reads out')"

definition decoded :: "string list \<Rightarrow> string" where
  "decoded reads = (let (d, out) = read_all new_decoder reads [] in snd (end_stream d out))"

end
