(* ===== verification/Clixml_Laws.thy ===== *)
theory Clixml_Laws
  imports Clixml_Decoder
begin

text \<open>
  What holds of the decoder of \<open>crates/pwrs-build/src/clixml.rs\<close> on every stream.  The locale
  \<open>document_invariant\<close> says what an invariant of one document has to survive, and lifts it
  through every operation of the decoder; it is interpreted on the offsets a document keeps of
  its reads, which are in order and inside its bytes.  The rest is the decoder's record of
  whether the output ends a line, the pieces \<open>write_inserted\<close> takes, the number of turns of
  \<open>drain\<close>, and the size of the numbers in escapes.
\<close>

section \<open>Invariants of documents\<close>

locale document_invariant =
  fixes good :: "document \<Rightarrow> bool"
  assumes good_empty: "good empty_document"
    and good_split: "good d \<Longrightarrow> from \<le> length (d_bytes d) \<Longrightarrow>
      good (fst (split_off d from)) \<and> good (snd (split_off d from))"
    and good_append: "good a \<Longrightarrow> good b \<Longrightarrow> good (append_document a b)"
    and good_cut: "good d \<Longrightarrow> from \<le> to \<Longrightarrow> to \<le> length (d_bytes d) \<Longrightarrow> good (fst (cut d from to))"
    and good_more: "good d \<Longrightarrow> reads = d_reads d \<or> reads = d_reads d @ [length (d_bytes d)] \<Longrightarrow>
      good \<lparr>d_bytes = d_bytes d @ bytes, d_reads = reads\<rparr>"
begin

abbreviation all_good :: "decoder \<Rightarrow> bool" where
  "all_good d \<equiv> \<forall>doc \<in> set (documents d). good doc"

lemma records_good:
  assumes "write_records d limit out = (d', r, out')" and "all_good d"
  shows "all_good d' \<and> (\<forall>after. r = Ended after \<longrightarrow> good after)"
proof (cases "documents d")
  case Nil
  with assms(1) show ?thesis by (simp add: write_records_def)
next
  case (Cons doc outers)
  obtain at ended el out1 where
    l: "records_loop (d_bytes doc) limit 0 (ended_line d) out = (at, ended, el, out1)"
    by (meson prod_cases4)
  from assms(2) Cons have doc: "good doc" by simp
  show ?thesis
  proof (cases ended)
    case True
    with records_loop_bounds l have "at + length ROOT_END \<le> length (d_bytes doc)" by fastforce
    from good_split [OF doc this] True l Cons assms show ?thesis
      by (auto simp: write_records_def Let_def split: prod.splits)
  next
    case False
    with l records_loop_fits [OF l] Cons assms doc good_cut [OF doc, of 0 at] show ?thesis
      by (auto simp: write_records_def split: if_splits)
  qed
qed

lemma inserted_good:
  assumes "write_inserted d at out = (d', out')" and "all_good d"
    and "documents d = doc # outers" and "at < length (d_bytes doc)"
  shows "all_good d'"
proof -
  from assms(2,3) have doc: "good doc" by simp
  have "inserted_from doc at \<le> inserted_end (d_bytes doc) at"
    using inserted_from_le inserted_end_gt less_imp_le le_trans by metis
  from good_cut [OF doc this inserted_end_le [OF assms(4)]] assms show ?thesis
    by (auto simp: write_inserted_def Let_def split: prod.splits if_splits)
qed

lemma nested_good:
  assumes "start_nested d at = (d', b)" and "all_good d"
  shows "all_good d'"
proof (cases b)
  case False
  with assms start_nested_False [of d at d'] show ?thesis by simp
next
  case True
  with assms(1) obtain outer outers close where outer: "documents d = outer # outers"
    and close: "position (\<lambda>b. b = CHR ''>'') (drop at (d_bytes outer)) = Some close"
    by (auto simp: start_nested_def split: list.splits option.splits)
  from position_less [OF close] have le: "at + close + 1 \<le> length (d_bytes outer)" by simp
  from assms(2) outer have "good outer" by simp
  from good_split [OF this le] obtain a b where s: "split_off outer (at + close + 1) = (a, b)"
    "good a" "good b" by (metis prod.collapse)
  from s(1) le have "length (d_bytes a) = at + close + 1"
    by (auto simp: split_off_def)
  with good_cut [OF s(2), of at "at + close + 1"] s assms outer close show ?thesis
    by (auto simp: start_nested_def Let_def)
qed

lemma turn_good: "turn e s t \<Longrightarrow> all_good (fst s) \<Longrightarrow> all_good (fst t)"
proof (induction s t rule: turn.induct)
  case (inner_ended d limit out d1 after out1 doc outer outers)
  from records_good [OF inner_ended(1)] inner_ended(2,3) good_append show ?case by simp
next
  case (inserted d limit out d1 out1 doc outers at d2 out2)
  with inserted_good [of d1 at out1 d2 out2 doc outers] write_records_waiting [OF inserted(1)]
    first_line_break_less [OF inserted(3)]
  show ?case by simp
next
  case (nested d limit out d1 out1 root d2)
  then show ?case
    using nested_good [OF nested(2)] write_records_waiting [OF nested(1)] by simp
qed (auto dest: records_good)

lemma drain_good:
  assumes "drain d e out = (d', r, out')" and "all_good d"
  shows "all_good d'"
proof -
  have "case drain d e out of (d', r, out') \<Rightarrow> all_good d'"
  proof (rule drain_rule [where P = "\<lambda>s. all_good (fst s)"])
    fix s r
    assume "all_good (fst s)" and "stop s r"
    from this(2,1) show "case r of (d', r, out') \<Rightarrow> all_good d'"
      by (cases rule: stop.cases) (auto dest: records_good)
  qed (use assms(2) turn_good in auto)
  with assms(1) show ?thesis by simp
qed

lemma plain_loop_good:
  "plain_loop d bytes out = (d', rest, out') \<Longrightarrow> all_good d \<Longrightarrow> all_good d'"
  using plain_loop_documents [of d bytes out d' rest out'] good_empty by auto

lemma take_loop_good:
  assumes "take_loop d input n e out = (d', out')" and "all_good d"
  shows "all_good d'"
proof (rule take_loop_rule [where P = "\<lambda>d out. all_good d", OF assms])
  fix d :: decoder and doc outers reads and bytes out :: string
  assume "all_good d" and "documents d = doc # outers"
    and "reads = d_reads doc \<or> reads = d_reads doc @ [length (d_bytes doc)]"
  then show "all_good (d\<lparr>documents := \<lparr>d_bytes = d_bytes doc @ bytes, d_reads = reads\<rparr> # outers\<rparr>)"
    using good_more [of doc reads] by simp
qed (auto simp: plain_def split: prod.splits dest!: plain_loop_good drain_good)

lemma read_good: "all_good d \<Longrightarrow> all_good (fst (read d bytes out))"
  using take_loop_good [of d bytes True False out] by (cases "read d bytes out")
    (auto simp: read_def take_read_def)

lemma read_all_good: "all_good d \<Longrightarrow> all_good (fst (read_all d reads out))"
proof (induction reads arbitrary: d out)
  case (Cons bytes reads)
  obtain d' out' where r: "read d bytes out = (d', out')" by fastforce
  with read_good [OF Cons.prems, of bytes out] have "all_good d'" by simp
  from Cons.IH [OF this] r show ?case by simp
qed simp

end

section \<open>Where reads started\<close>

definition reads_in_order :: "document \<Rightarrow> bool" where
  "reads_in_order d \<longleftrightarrow> sorted (d_reads d) \<and> (\<forall>r \<in> set (d_reads d). r \<le> length (d_bytes d))"

lemma sorted_shift:
  assumes "sorted xs" and "\<And>x y. x \<in> set xs \<Longrightarrow> y \<in> set xs \<Longrightarrow> x \<le> y \<Longrightarrow> f x \<le> (f y :: nat)"
  shows "sorted (map f xs)"
  using sorted_wrt_mono_rel [OF _ assms(1), of "\<lambda>x y. f x \<le> f y"] assms(2)
  by (simp add: sorted_map)

interpretation reads: document_invariant reads_in_order
proof
  show "reads_in_order empty_document"
    by (simp add: reads_in_order_def empty_document_def)
next
  fix d "from"
  assume "reads_in_order d" "from \<le> length (d_bytes d)"
  then show "reads_in_order (fst (split_off d from)) \<and> reads_in_order (snd (split_off d from))"
    by (auto simp: reads_in_order_def split_off_def sorted_wrt_filter intro!: sorted_shift)
next
  fix a b
  assume a: "reads_in_order a" and b: "reads_in_order b"
  have "sorted (map (\<lambda>r. r + length (d_bytes a)) (d_reads b))"
    using b by (intro sorted_shift) (simp_all add: reads_in_order_def)
  with a b show "reads_in_order (append_document a b)"
    by (fastforce simp: reads_in_order_def append_document_def Let_def sorted_append)
next
  fix d "from" to
  assume d: "reads_in_order d" and le: "from \<le> to" "to \<le> length (d_bytes d)"
  then show "reads_in_order (fst (cut d from to))"
    by (auto simp: reads_in_order_def cut_def sorted_wrt_filter intro!: sorted_shift)
next
  fix d reads bytes
  assume "reads_in_order d" "reads = d_reads d \<or> reads = d_reads d @ [length (d_bytes d)]"
  then show "reads_in_order \<lparr>d_bytes = d_bytes d @ bytes, d_reads = reads\<rparr>"
    by (auto simp: reads_in_order_def sorted_append trans_le_add1)
qed

text \<open>
  Where its reads started is known for every document at every moment: from the decoder's
  first state on, after any reads, the offsets each open document keeps are in order and at
  most the number of its bytes, so \<open>cut\<close> never takes an offset below zero and
  \<open>write_inserted\<close> never looks past the bytes it has.
\<close>

lemma reads_stay_in_order:
  "\<forall>doc \<in> set (documents (fst (read_all new_decoder reads []))). reads_in_order doc"
  using reads.read_all_good [of new_decoder reads "[]"] by (simp add: new_decoder_def)

text \<open>It does so after three reads that leave a document open with two of their starts in it.\<close>

lemma reads_stay_in_order_witness:
  "let d = fst (read_all new_decoder [MARKER @ [CHR 0x0A] @ ROOT @ ''>'', ''<S'', '' S''] [])
   in map d_reads (documents d) = [[0, 2]] \<and> (\<forall>doc \<in> set (documents d). reads_in_order doc)"
  using reads_stay_in_order [of "[MARKER @ [CHR 0x0A] @ ROOT @ ''>'', ''<S'', '' S'']"]
  by (simp only: Let_def) code_simp

section \<open>Whether the output ends a line\<close>

definition ends_line :: "bool \<Rightarrow> string \<Rightarrow> bool" where
  "ends_line ended out \<longleftrightarrow> ended = (out = [] \<or> is_line_break (last out))"

lemma write_line_ends: "write_line ended line out = (ended', out') \<Longrightarrow> ends_line ended' out'"
  by (auto simp: write_line_def ends_line_def is_line_break_def split: if_splits)

lemma write_rest_ends:
  "write_rest ended bytes out = (ended', out') \<Longrightarrow> ends_line ended out \<Longrightarrow> ends_line ended' out'"
  by (auto simp: write_rest_def Let_def split: if_splits option.splits dest: write_line_ends)

lemma write_plain_ends:
  "write_plain d bytes out = (d', out') \<Longrightarrow> ends_line (ended_line d) out \<Longrightarrow>
     ends_line (ended_line d') out'"
  by (auto simp: write_plain_def ends_line_def Let_def split: if_splits)

lemma records_loop_ends:
  "records_loop bytes limit at ended out = (at', b, ended', out') \<Longrightarrow> ends_line ended out \<Longrightarrow>
     ends_line ended' out'"
proof (induction bytes limit at ended out rule: records_loop.induct)
  case (1 bytes limit at ended out)
  note step = records_loop.simps [of bytes limit at ended out]
  show ?case
  proof (cases "next_of (slice bytes at limit)")
    case (Record len line)
    obtain e' o' where w:
      "(case line of Some l \<Rightarrow> write_line ended l out | None \<Rightarrow> (ended, out)) = (e', o')"
      by fastforce
    then have "ends_line e' o'"
      using "1.prems"(2) by (auto split: option.splits dest: write_line_ends)
    with "1.IH"(1) [OF Record w [symmetric] refl] "1.prems"(1) Record w show ?thesis
      by (simp add: step)
  next
    case (Other len)
    obtain e' o' where w: "write_line ended (slice bytes at (at + len)) out = (e', o')"
      by fastforce
    with "1.IH"(2) [OF Other w [symmetric] refl] "1.prems"(1) Other write_line_ends [OF w]
    show ?thesis by (simp add: step)
  qed (use "1.prems" in \<open>simp_all add: step\<close>)
qed

lemma write_records_ends:
  "write_records d limit out = (d', r, out') \<Longrightarrow> ends_line (ended_line d) out \<Longrightarrow>
     ends_line (ended_line d') out'"
  by (auto simp: write_records_def split: list.splits prod.splits if_splits dest: records_loop_ends)

lemma write_inserted_ends:
  "write_inserted d at out = (d', out') \<Longrightarrow> ends_line (ended_line d) out \<Longrightarrow>
     ends_line (ended_line d') out'"
  by (auto simp: write_inserted_def Let_def split: list.splits prod.splits if_splits
      dest: write_line_ends)

lemma start_nested_ends: "start_nested d at = (d', b) \<Longrightarrow> ended_line d' = ended_line d"
  by (auto simp: start_nested_def Let_def split: list.splits option.splits prod.splits)

lemma drain_ends:
  assumes "drain d e out = (d', r, out')" and "ends_line (ended_line d) out"
  shows "ends_line (ended_line d') out'"
proof -
  let ?P = "\<lambda>s. ends_line (ended_line (fst s)) (snd s)"
  have "case drain d e out of (d', r, out') \<Rightarrow> ?P (d', out')"
  proof (rule drain_rule [where P = ?P])
    fix s t
    assume "?P s" and "turn e s t"
    from this(2,1) show "?P t"
      by (cases rule: turn.cases) (auto simp: start_nested_ends
        dest: write_records_ends write_inserted_ends)
  next
    fix s r
    assume "?P s" and "stop s r"
    from this(2,1) show "case r of (d', r, out') \<Rightarrow> ?P (d', out')"
      by (cases rule: stop.cases) (auto dest: write_records_ends)
  qed (use assms(2) in simp)
  with assms(1) show ?thesis by simp
qed

lemma plain_loop_ends:
  "plain_loop d bytes out = (d', rest, out') \<Longrightarrow> ends_line (ended_line d) out \<Longrightarrow>
     ends_line (ended_line d') out'"
  using plain_loop_rule [of d bytes out d' rest out' "\<lambda>d out. ends_line (ended_line d) out"]
    write_plain_ends [OF surjective_pairing] by simp

lemma take_read_ends:
  assumes "take_read d bytes n e out = (d', out')" and "ends_line (ended_line d) out"
  shows "ends_line (ended_line d') out'"
  by (rule take_loop_rule [where P = "\<lambda>d out. ends_line (ended_line d) out",
        OF assms [unfolded take_read_def]])
    (auto simp: plain_def split: prod.splits dest: plain_loop_ends drain_ends)

lemma read_all_ends:
  "read_all d reads out = (d', out') \<Longrightarrow> ends_line (ended_line d) out \<Longrightarrow>
     ends_line (ended_line d') out'"
proof (induction reads arbitrary: d out)
  case (Cons bytes reads)
  obtain d1 out1 where r: "read d bytes out = (d1, out1)" by fastforce
  with Cons.prems(2) have "ends_line (ended_line d1) out1"
    by (auto simp: read_def dest: take_read_ends)
  with Cons r show ?case by simp
qed simp

lemma rest_loop_ends:
  "rest_loop docs ended out = (ended', out') \<Longrightarrow> ends_line ended out \<Longrightarrow> ends_line ended' out'"
  by (induction docs ended out rule: rest_loop.induct)
    (auto split: prod.splits dest: write_rest_ends)

text \<open>
  The text of a whole stream ends with a line break, whatever the stream holds and however
  it is cut into reads: only a stream that comes to no text at all has none.
\<close>

lemma decoded_ends_line: "decoded reads = [] \<or> is_line_break (last (decoded reads))"
proof -
  obtain d out where r: "read_all new_decoder reads [] = (d, out)" by fastforce
  then have "ends_line (ended_line d) out"
    by (rule read_all_ends) (simp add: ends_line_def new_decoder_def)
  moreover obtain d1 out1 where t: "take_read d [] False True out = (d1, out1)" by fastforce
  ultimately have e1: "ends_line (ended_line d1) out1" by (blast intro: take_read_ends)
  obtain el out2 where l: "rest_loop (documents d1) (ended_line d1) out1 = (el, out2)"
    by fastforce
  obtain d3 out3 where w:
    "write_plain (d1\<lparr>documents := [], ended_line := el, candidate := []\<rparr>) (candidate d1) out2
      = (d3, out3)" by fastforce
  from write_plain_ends [OF w] rest_loop_ends [OF l e1] have "ends_line (ended_line d3) out3"
    by simp
  with r t l w show ?thesis
    by (auto simp: decoded_def end_stream_def ends_line_def is_line_break_def)
qed

text \<open>
  The loop of \<open>drain\<close> makes at most one turn for each byte the open documents hold, so it
  returns on every input.
\<close>

lemma drain_turns_at_most: "(turn e ^^ n) s t \<Longrightarrow> n + held (fst t) \<le> held (fst s)"
proof (induction n arbitrary: t)
  case (Suc n)
  then obtain u where "(turn e ^^ n) s u" and "turn e u t" by auto
  with Suc.IH [of u] turn_held [of e u t] show ?case by simp
qed simp

text \<open>A document that holds one record takes one turn, which leaves none of its 19 bytes.\<close>

lemma drain_turns_at_most_witness:
  "let doc = \<lparr>d_bytes = TEXT_RECORD @ ''Error'' @ [quote] @ ''>hi</S>'', d_reads = []\<rparr>;
       d = new_decoder\<lparr>documents := [doc]\<rparr>; d' = new_decoder\<lparr>documents := [empty_document]\<rparr>
   in (turn False ^^ 1) (d, []) (d', ''hi'' @ [CHR 0x0A]) \<and> 1 + held d' \<le> held d"
proof -
  define doc where "doc = \<lparr>d_bytes = TEXT_RECORD @ ''Error'' @ [quote] @ ''>hi</S>'', d_reads = []\<rparr>"
  define d where "d = new_decoder\<lparr>documents := [doc]\<rparr>"
  define d' where "d' = new_decoder\<lparr>documents := [empty_document]\<rparr>"
  have "write_records d 19 [] = (d', Wrote, ''hi'' @ [CHR 0x0A])"
    unfolding d_def d'_def doc_def by code_simp
  then have t: "(turn False ^^ 1) (d, []) (d', ''hi'' @ [CHR 0x0A])"
    by (auto intro: wrote)
  with drain_turns_at_most [OF t] show ?thesis
    unfolding d_def d'_def doc_def Let_def by simp
qed

end
