(* ===== verification/Clixml_Streams.thy ===== *)
theory Clixml_Streams
  imports Clixml_Laws
begin

text \<open>
  What the decoder of \<open>crates/pwrs-build/src/clixml.rs\<close> makes of the streams a PowerShell host
  writes: plain text passes through, an escaped text is read back as its characters, and a
  CLIXML document comes to the lines of its records, however the stream is cut into reads.
\<close>

section \<open>Plain text\<close>

text \<open>The decoder's state once it has read \<open>done_text\<close>, none of which belongs to a document.\<close>

definition only_plain :: "string \<Rightarrow> decoder \<Rightarrow> string \<Rightarrow> bool" where
  "only_plain done_text d out \<longleftrightarrow>
     documents d = [] \<and> due d = 0 \<and> out @ candidate d = done_text
     \<and> (candidate d = [] \<or> strict_prefix (candidate d) MARKER)
     \<and> ends_line (ended_line d) out \<and> line_start d = ended_line d"

lemma no_marker_before: "find_sub MARKER (xs @ ys) = None \<Longrightarrow> find_sub MARKER xs = None"
  by (auto simp: find_sub_sublist MARKER_def sublist_append)

lemma candidate_of_marker:
  assumes "strict_prefix c MARKER" and "c = [] \<longrightarrow> b = CHR ''#''"
  shows "candidate_of (c @ [b]) =
    (if strict_prefix (c @ [b]) MARKER \<or> c @ [b] = MARKER then CPartial else CPlain)"
proof -
  from assms(1) have c: "length c < 9" "prefix c MARKER"
    using prefix_length_less [OF assms(1)] by (auto simp: strict_prefix_def)
  have hd: "(c @ [b]) ! 0 = CHR ''#''"
    using c(2) assms(2) by (cases c) (auto simp: markers)
  from c(1) have "min (length (c @ [b])) (length MARKER) = length (c @ [b])" by simp
  with hd show ?thesis
    by (auto simp: candidate_of_def strict_prefix_def)
qed

lemma plain_loop_passes:
  assumes "only_plain done_text d out" and "find_sub MARKER (done_text @ bytes) = None"
  shows "\<exists>d' out'. plain_loop d bytes out = (d', [], out') \<and> only_plain (done_text @ bytes) d' out'"
  using assms
proof (induction d bytes out arbitrary: done_text rule: plain_loop.induct)
  case (2 d byte bytes out)
  define starts where
    "starts \<longleftrightarrow> line_start d \<and> byte = CHR ''#'' \<or> 0 < due d \<and> byte = CHR ''<''"
  note step = plain_loop.simps(2) [of d byte bytes out, folded starts_def]
  note IH = "2.IH" [OF starts_def]
  note d = "2.prems"(1) [unfolded only_plain_def]
  show ?case
  proof (cases "candidate d = [] \<and> \<not> starts")
    case True
    let ?d = "d\<lparr>line_start := is_line_break byte, ended_line := is_line_break byte\<rparr>"
    have w: "write_plain d [byte] out = (?d, out @ [byte])"
      by (simp add: write_plain_def Let_def)
    have "only_plain (done_text @ [byte]) ?d (out @ [byte])"
      using d True by (auto simp: only_plain_def ends_line_def)
    from IH(1) [OF True refl w [symmetric] this] "2.prems"(2) True w show ?thesis
      by (simp add: step)
  next
    case False
    define c where "c = candidate d"
    have hash: "c = [] \<longrightarrow> byte = CHR ''#''"
      using False d by (auto simp: starts_def c_def)
    have c: "strict_prefix c MARKER"
      using d by (auto simp: c_def markers)
    let ?d1 = "d\<lparr>candidate := c @ [byte]\<rparr>"
    note IH = IH(2,5) [OF False refl, simplified, folded c_def]
    note step = step [unfolded Let_def if_not_P [OF False], folded c_def, simplified]
    have "c @ [byte] \<noteq> MARKER"
    proof
      assume "c @ [byte] = MARKER"
      then have "done_text @ byte # bytes = out @ MARKER @ bytes"
        using d by (metis append.assoc append_Cons append_Nil c_def)
      with "2.prems"(2) show False
        by (simp add: find_sub_sublist markers sublist_append)
    qed
    show ?thesis
    proof (cases "strict_prefix (c @ [byte]) MARKER")
      case True
      then have p: "candidate_of (c @ [byte]) = CPartial"
        using candidate_of_marker [OF c hash] by simp
      have "only_plain (done_text @ [byte]) ?d1 out"
        using d True by (auto simp: only_plain_def c_def)
      from IH(1) [OF p this] "2.prems"(2) p show ?thesis
        by (simp add: step)
    next
      case False
      with \<open>c @ [byte] \<noteq> MARKER\<close> have p: "candidate_of (c @ [byte]) = CPlain"
        using candidate_of_marker [OF c hash] by simp
      from False hash have "c \<noteq> []" by (auto simp: markers strict_prefix_def)
      let ?d2 = "d\<lparr>candidate := [], line_start := is_line_break (last c),
        ended_line := is_line_break (last c)\<rparr>"
      have w: "write_plain (d\<lparr>candidate := []\<rparr>) c out = (?d2, out @ c)"
        using \<open>c \<noteq> []\<close> by (simp add: write_plain_def Let_def)
      have "only_plain done_text ?d2 (out @ c)"
        using d \<open>c \<noteq> []\<close> by (auto simp: only_plain_def c_def ends_line_def)
      from IH(2) [OF p refl refl, simplified, OF \<open>c \<noteq> []\<close> refl w [symmetric] this] "2.prems"(2) p w \<open>c \<noteq> []\<close>
      show ?thesis by (simp add: step)
    qed
  qed
qed simp

lemma read_passes:
  assumes "only_plain done_text d out" and "find_sub MARKER (done_text @ bytes) = None"
    and "take_read d bytes n e out = (d', out')"
  shows "only_plain (done_text @ bytes) d' out'"
  using plain_loop_passes [OF assms(1,2)] assms(1,3)
  by (auto simp: take_read_def take_loop.simps [of d] plain_def only_plain_def)

lemma read_all_passes:
  "read_all d reads out = (d', out') \<Longrightarrow> only_plain done_text d out \<Longrightarrow>
     find_sub MARKER (done_text @ concat reads) = None \<Longrightarrow> only_plain (done_text @ concat reads) d' out'"
proof (induction reads arbitrary: d out done_text)
  case (Cons bytes reads)
  obtain d1 out1 where r: "take_read d bytes True False out = (d1, out1)" by fastforce
  from Cons.prems(3) have "find_sub MARKER (done_text @ bytes) = None"
    using no_marker_before [of "done_text @ bytes" "concat reads"] by simp
  from read_passes [OF Cons.prems(2) this r] Cons.IH [of d1 out1 "done_text @ bytes"] Cons.prems r
  show ?case by (simp add: read_def)
qed simp

text \<open>
  A stream with no \<open>#< CLIXML\<close> in it passes through unchanged, however it is cut into
  reads, with a line break added at its end when it has text that does not end with one.
\<close>

lemma plain_streams_pass:
  assumes "find_sub MARKER (concat reads) = None"
  shows "decoded reads = concat reads @
    (if concat reads = [] \<or> is_line_break (last (concat reads)) then [] else [CHR 0x0A])"
proof -
  define s where "s = concat reads"
  obtain d out where r: "read_all new_decoder reads [] = (d, out)" by fastforce
  have "only_plain [] new_decoder []"
    by (simp add: only_plain_def new_decoder_def ends_line_def)
  from read_all_passes [OF r this] assms have d: "only_plain s d out" by (simp add: s_def)
  obtain d1 out1 where t: "take_read d [] False True out = (d1, out1)" by fastforce
  from read_passes [OF d _ t] assms have d1: "only_plain s d1 out1" by (simp add: s_def)
  then have empty: "d1\<lparr>documents := [], ended_line := ended_line d1, candidate := []\<rparr> = d1\<lparr>candidate := []\<rparr>"
    by (simp add: only_plain_def)
  show ?thesis
    unfolding s_def [symmetric] using d1
    by (auto simp: decoded_def r end_stream_def t only_plain_def empty write_plain_def Let_def
        ends_line_def)
qed

lemma plain_streams_pass_witness:
  "find_sub MARKER (concat [''a#<'', '' CLIX'', ''ES'']) = None
   \<and> decoded [''a#<'', '' CLIX'', ''ES''] = ''a#< CLIXES'' @ [CHR 0x0A]"
proof -
  have "find_sub MARKER (concat [''a#<'', '' CLIX'', ''ES'']) = None" by code_simp
  with plain_streams_pass [OF this] show ?thesis
    by (simp add: is_line_break_def)
qed

end
