(* ===== verification/Clixml_Documents.thy ===== *)
theory Clixml_Documents
  imports Clixml_Streams
begin

text \<open>
  What the decoder of \<open>crates/pwrs-build/src/clixml.rs\<close> makes of a CLIXML document: the lines of
  its records, however the document's bytes are cut into reads.  A document here is the marker
  line, the root start tag, records of text, and the end of the root; the state the decoder is
  in part way through is a function of the bytes read so far.
\<close>

section \<open>Documents\<close>

definition bare :: "char \<Rightarrow> bool" where
  "bare b \<longleftrightarrow> b \<noteq> CHR ''<'' \<and> b \<noteq> CHR ''>'' \<and> \<not> is_line_break b"

text \<open>A record is its stream's name and its escaped text.\<close>

type_synonym text_item = "string \<times> string"

definition item_ok :: "text_item \<Rightarrow> bool" where
  "item_ok r \<longleftrightarrow> list_all (\<lambda>b. bare b \<and> b \<noteq> quote) (fst r)
     \<and> list_all (\<lambda>b. b \<noteq> CHR ''<'' \<and> \<not> is_line_break b) (snd r)"

definition item_bytes :: "text_item \<Rightarrow> string" where
  "item_bytes r = TEXT_RECORD @ fst r @ [quote] @ ''>'' @ snd r @ ''</S>''"

definition item_line :: "text_item \<Rightarrow> string" where
  "item_line r = snd (write_line True (text_line (fst r) (snd r)) [])"

abbreviation items_bytes :: "text_item list \<Rightarrow> string" where
  "items_bytes rs \<equiv> concat (map item_bytes rs)"

abbreviation items_lines :: "text_item list \<Rightarrow> string" where
  "items_lines rs \<equiv> concat (map item_line rs)"

section \<open>Records\<close>

lemma bare_position:
  assumes "list_all p xs" and "\<And>x. p x \<Longrightarrow> \<not> q x"
  shows "position q (xs @ ys) = map_option (\<lambda>n. n + length xs) (position q ys)"
  using assms by (induction xs) (auto simp: option.map_comp comp_def option.map_ident)

lemma item_tag:
  assumes "item_ok r"
  shows "position (\<lambda>b. b = CHR ''>'') (item_bytes r @ rest) = Some (7 + length (fst r))"
    and "stream_name (TEXT_RECORD @ fst r @ [quote]) = fst r"
proof -
  from assms have n: "list_all (\<lambda>b. bare b \<and> b \<noteq> quote) (fst r)"
    by (simp add: item_ok_def)
  show "position (\<lambda>b. b = CHR ''>'') (item_bytes r @ rest) = Some (7 + length (fst r))"
    using bare_position [OF n, of "\<lambda>b. b = CHR ''>''"] by (simp add: item_bytes_def markers bare_def)
  show "stream_name (TEXT_RECORD @ fst r @ [quote]) = fst r"
    using bare_position [OF n, of "\<lambda>b. b = quote"]
    by (simp add: stream_name_def markers)
qed

lemma text_record_open:
  assumes "position (\<lambda>b. b = CHR ''>'') b = Some close" and "take close b = tag"
    and "drop (close + 1) b = after" and "\<not> suffix ''/'' tag"
  shows "text_record b =
    (case position (\<lambda>b. b = CHR ''<'') after of
       None \<Rightarrow> NPartial
     | Some n \<Rightarrow>
         (let line = Some (text_line (stream_name tag) (take n after))
          in if prefix ''</S>'' (drop n after) then Record (close + 1 + n + 4) line
             else if prefix (drop n after) ''</S>'' then NPartial
             else Record (close + 1 + n) line))"
  using assms by (simp add: text_record_def Let_def split: option.split)

lemma next_of_item:
  assumes "item_ok r"
  shows "next_of (item_bytes r @ rest) = Record (length (item_bytes r)) (Some (text_line (fst r) (snd r)))"
proof -
  note tag = item_tag [OF assms]
  let ?b = "item_bytes r @ rest"
  let ?tag = "TEXT_RECORD @ fst r @ [quote]"
  have b: "?b = ?tag @ ''>'' @ snd r @ ''</S>'' @ rest" "?b = (?tag @ ''>'') @ snd r @ ''</S>'' @ rest"
    and l: "length ?tag = 7 + length (fst r)" "length (?tag @ ''>'') = 7 + length (fst r) + 1"
    by (simp_all add: item_bytes_def)
  have "take (7 + length (fst r)) ?b = ?tag"
    using b(1) l(1) by (metis append_eq_conv_conj)
  note tk = this
  have dr: "drop (7 + length (fst r) + 1) ?b = snd r @ ''</S>'' @ rest"
    using b(2) l(2) by (metis append_eq_conv_conj)
  from assms have "list_all (\<lambda>b. b \<noteq> CHR ''<'' \<and> \<not> is_line_break b) (snd r)"
    by (simp add: item_ok_def)
  then have pos: "position (\<lambda>b. b = CHR ''<'') (snd r @ ''</S>'' @ rest) = Some (length (snd r))"
    using bare_position [of _ "snd r" "\<lambda>b. b = CHR ''<''" "''</S>'' @ rest"] by simp
  have "\<not> suffix ''/'' ?tag" by (simp add: suffix_single)
  from text_record_open [OF tag(1) tk dr this]
  have "text_record ?b = Record (length (item_bytes r)) (Some (text_line (fst r) (snd r)))"
    unfolding tag(2) pos by (simp add: item_bytes_def)
  moreover have "\<not> prefix ROOT_END ?b" "prefix TEXT_RECORD ?b"
    by (simp_all add: item_bytes_def markers)
  ultimately show ?thesis by (simp add: next_of_def)
qed

text \<open>A record that is not whole: cut in its start, in its tag, in its text or in its end tag.\<close>

lemma strict_prefix_append_cases:
  assumes "strict_prefix part (a @ b)"
  obtains "strict_prefix part a" | v where "part = a @ v" "strict_prefix v b"
proof -
  from assms have "prefix part a \<or> (\<exists>v. part = a @ v \<and> prefix v b)"
    by (simp add: strict_prefix_def prefix_append)
  with assms that that(2) [of "[]"] show thesis
    by (cases "part = a") (auto simp: strict_prefix_def)
qed

lemma text_record_cut:
  assumes "item_ok r" and "strict_prefix v (snd r @ ''</S>'')"
  shows "text_record ((TEXT_RECORD @ fst r @ [quote]) @ ''>'' @ v) = NPartial"
proof -
  let ?tag = "TEXT_RECORD @ fst r @ [quote]"
  let ?part = "?tag @ ''>'' @ v"
  from assms(1) have n: "list_all (\<lambda>b. bare b \<and> b \<noteq> quote) (fst r)"
    and t: "list_all (\<lambda>b. b \<noteq> CHR ''<'' \<and> \<not> is_line_break b) (snd r)"
    by (simp_all add: item_ok_def)
  have tag: "position (\<lambda>b. b = CHR ''>'') ?part = Some (7 + length (fst r))"
    using bare_position [OF n, of "\<lambda>b. b = CHR ''>''"] by (simp add: markers bare_def)
  have l: "length ?tag = 7 + length (fst r)" by simp
  then have tk: "take (7 + length (fst r)) ?part = ?tag" by (metis append_eq_conv_conj)
  have dr: "drop (7 + length (fst r) + 1) ?part = v"
    using l by (metis append.assoc append_eq_conv_conj length_append_singleton Suc_eq_plus1)
  have s: "\<not> suffix ''/'' ?tag" by (simp add: suffix_single)
  note start = text_record_open [OF tag tk dr s]
  from assms(2) show ?thesis
  proof (cases rule: strict_prefix_append_cases)
    case 1
    then have "position (\<lambda>b. b = CHR ''<'') v = None"
      using t by (auto simp: position_None list_all_iff strict_prefix_def dest: set_mono_prefix)
    then show ?thesis by (simp add: start del: append_assoc append_Cons)
  next
    case (2 w)
    show ?thesis
    proof (cases w)
      case Nil
      with 2 t have "position (\<lambda>b. b = CHR ''<'') v = None"
        by (auto simp: position_None list_all_iff)
      then show ?thesis by (simp add: start del: append_assoc append_Cons)
    next
      case (Cons x w')
      with 2 have x: "x = CHR ''<''" by (auto simp: strict_prefix_def)
      then have pos: "position (\<lambda>b. b = CHR ''<'') v = Some (length (snd r))"
        using 2(1) Cons bare_position [OF t, of "\<lambda>b. b = CHR ''<''"] by simp
      from 2 have "drop (length (snd r)) v = w" "prefix w ''</S>''" "\<not> prefix ''</S>'' w"
        by (auto simp: strict_prefix_def dest: prefix_order.antisym)
      then show ?thesis by (simp add: start pos del: append_assoc append_Cons)
    qed
  qed
qed

lemma next_of_part:
  assumes "item_ok r" and "strict_prefix part (item_bytes r)"
  shows "next_of part = NPartial"
proof -
  let ?tag = "TEXT_RECORD @ fst r @ [quote]"
  have bytes: "item_bytes r = TEXT_RECORD @ (fst r @ [quote]) @ ''>'' @ snd r @ ''</S>''"
    by (simp add: item_bytes_def)
  have read: "next_of (TEXT_RECORD @ v) = text_record (TEXT_RECORD @ v)" for v
    by (simp add: next_of_def markers)
  from assms(2) [unfolded bytes] show ?thesis
  proof (cases rule: strict_prefix_append_cases)
    case 1
    then have "may_start part" by (simp add: may_start_def strict_prefix_def)
    moreover have "\<not> prefix TEXT_RECORD part" "\<not> prefix ROOT_END part" "\<not> prefix OBJECT_RECORD part"
      using prefix_length_less [OF 1] by (auto dest!: prefix_length_le)
    ultimately show ?thesis by (simp add: next_of_def)
  next
    case (2 u)
    note part = 2(1)
    have open_tag: "next_of part = NPartial" if "prefix u (fst r @ [quote])"
    proof -
      have "b \<noteq> CHR ''>''" if "b \<in> set part" for b
      proof -
        have "b \<in> set TEXT_RECORD \<union> insert quote (set (fst r))"
          using that set_mono_prefix [OF \<open>prefix u (fst r @ [quote])\<close>] unfolding part by auto
        moreover have "\<forall>b \<in> set (fst r). b \<noteq> CHR ''>''"
          using assms(1) by (simp add: item_ok_def list_all_iff bare_def)
        ultimately show ?thesis by (auto simp: TEXT_RECORD_def)
      qed
      then have "position (\<lambda>b. b = CHR ''>'') part = None" by (simp add: position_None)
      then show ?thesis by (simp add: part read text_record_def)
    qed
    from 2(2) show ?thesis
    proof (cases rule: strict_prefix_append_cases)
      case 1
      then show ?thesis using open_tag unfolding strict_prefix_def by blast
    next
      case (2 w)
      show ?thesis
      proof (cases w)
        case Nil
        with 2(1) open_tag show ?thesis by simp
      next
        case (Cons x v)
        with 2(2) have x: "x = CHR ''>''" "strict_prefix v (snd r @ ''</S>'')" by simp_all
        have a: "part = TEXT_RECORD @ (fst r @ [quote] @ ''>'' @ v)"
          and b: "part = (TEXT_RECORD @ fst r @ [quote]) @ ''>'' @ v"
          unfolding part 2(1) Cons x(1) by simp_all
        have "next_of part = text_record part" unfolding a by (rule read)
        also have "\<dots> = NPartial" unfolding b by (rule text_record_cut [OF assms(1) x(2)])
        finally show ?thesis .
      qed
    qed
  qed
qed

lemma next_of_end_part: "strict_prefix part ROOT_END \<Longrightarrow> next_of part = NPartial"
proof -
  assume p: "strict_prefix part ROOT_END"
  then have "\<not> prefix ROOT_END part" "may_start part"
    by (auto simp: may_start_def strict_prefix_def dest: prefix_order.antisym)
  moreover from p have "\<not> prefix TEXT_RECORD part" "\<not> prefix OBJECT_RECORD part"
    by (auto simp: markers strict_prefix_def dest: prefix_order.trans)
  ultimately show ?thesis by (simp add: next_of_def)
qed

section \<open>A document part way through\<close>

text \<open>
  No two bytes of records and of the root's end are the start of \<open>ROOT\<close>, and none is a line
  break, so the decoder looks for records to the end of the bytes it has.
\<close>

fun no_root :: "string \<Rightarrow> bool" where
  "no_root (a # b # bs) \<longleftrightarrow> \<not> (a = CHR ''<'' \<and> b = CHR ''O'') \<and> no_root (b # bs)"
| "no_root bs \<longleftrightarrow> True"

lemma no_root_append:
  "no_root a \<Longrightarrow> no_root b \<Longrightarrow> a = [] \<or> last a \<noteq> CHR ''<'' \<Longrightarrow> no_root (a @ b)"
  by (induction a rule: no_root.induct; cases b; auto)

lemma no_root_plain: "CHR ''<'' \<notin> set a \<Longrightarrow> no_root a"
  by (induction a rule: no_root.induct) auto

lemma no_root_find: "no_root a \<Longrightarrow> find_sub ROOT a = None"
  by (induction a rule: no_root.induct) (auto simp: ROOT_def)

lemma no_root_suffix: "no_root (a @ b) \<Longrightarrow> no_root b"
proof (induction a)
  case (Cons x a)
  then show ?case by (cases "a @ b") auto
qed simp

lemma no_root_prefix: "no_root (a @ b) \<Longrightarrow> no_root a"
  by (induction a rule: no_root.induct) auto

definition whole :: "text_item list \<Rightarrow> string" where
  "whole rs = items_bytes rs @ ROOT_END"

lemma item_tame: "item_ok r \<Longrightarrow> no_root (item_bytes r) \<and> (\<forall>b \<in> set (item_bytes r). \<not> is_line_break b)"
proof -
  assume r: "item_ok r"
  then have n: "CHR ''<'' \<notin> set (fst r)" and t: "CHR ''<'' \<notin> set (snd r)"
    by (auto simp: item_ok_def list_all_iff bare_def)
  have m: "CHR ''<'' \<notin> set (fst r @ [quote] @ ''>'' @ snd r)" "no_root TEXT_RECORD"
    using n t by (simp_all add: markers)
  have "snd r \<noteq> [] \<Longrightarrow> last (snd r) \<noteq> CHR ''<''"
    using t last_in_set by metis
  then have "last (fst r @ [quote] @ ''>'' @ snd r) \<noteq> CHR ''<''"
    by (cases "snd r = []") simp_all
  with m have "no_root (TEXT_RECORD @ (fst r @ [quote] @ ''>'' @ snd r) @ ''</S>'')"
    by (intro no_root_append [OF m(2)] no_root_append [OF no_root_plain [OF m(1)]])
      (simp_all add: markers)
  with r show ?thesis
    by (auto simp: item_bytes_def item_ok_def list_all_iff bare_def markers is_line_break_def)
qed

lemma whole_tame:
  "list_all item_ok rs \<Longrightarrow> no_root (whole rs) \<and> (\<forall>b \<in> set (whole rs). \<not> is_line_break b)"
proof (induction rs)
  case Nil
  show ?case by (simp add: whole_def markers is_line_break_def)
next
  case (Cons r rs)
  then have "no_root (item_bytes r @ whole rs)"
    using item_tame [of r] by (intro no_root_append) (auto simp: item_bytes_def)
  with Cons item_tame [of r] show ?case by (auto simp: whole_def)
qed

text \<open>
  The bytes of a document so far are whole records and the start of what follows; the decoder
  writes the lines of the records and keeps that start.
\<close>

definition next_part :: "text_item list \<Rightarrow> string \<Rightarrow> bool" where
  "next_part rs part \<longleftrightarrow> strict_prefix part (case rs of [] \<Rightarrow> ROOT_END | r # _ \<Rightarrow> item_bytes r)"

lemma prefix_of_whole:
  assumes "strict_prefix q (whole rs)"
  obtains xs ys part where "rs = xs @ ys" "q = items_bytes xs @ part" "next_part ys part"
proof -
  have "\<exists>xs ys part. rs = xs @ ys \<and> q = items_bytes xs @ part \<and> next_part ys part"
    using assms
  proof (induction rs arbitrary: q)
    case Nil
    then have "[] = [] @ []" "q = items_bytes [] @ q" "next_part [] q"
      by (simp_all add: whole_def next_part_def)
    then show ?case by metis
  next
    case (Cons r rs)
    then have "strict_prefix q (item_bytes r @ whole rs)" by (simp add: whole_def)
    then show ?case
    proof (cases rule: strict_prefix_append_cases)
      case 1
      then have "next_part (r # rs) q" by (simp add: next_part_def)
      then show ?thesis by (metis append_Nil concat.simps(1) list.map(1))
    next
      case (2 v)
      from Cons.IH [OF 2(2)] obtain xs ys part where
        "rs = xs @ ys" "v = items_bytes xs @ part" "next_part ys part" by blast
      with 2(1) have "r # rs = (r # xs) @ ys" "q = items_bytes (r # xs) @ part" by simp_all
      with \<open>next_part ys part\<close> show ?thesis by blast
    qed
  qed
  with that show thesis by blast
qed

lemma next_part_read: "list_all item_ok rs \<Longrightarrow> next_part rs part \<Longrightarrow> next_of part = NPartial"
  by (cases rs) (auto simp: next_part_def next_of_end_part intro: next_of_part)

lemma write_item_line: "write_line True (text_line (fst r) (snd r)) out = (True, out @ item_line r)"
  by (simp add: item_line_def write_line_def)

lemma records_loop_items:
  assumes "list_all item_ok xs" and "next_of part = NPartial \<or> next_of part = End"
    and "bytes = before @ items_bytes xs @ part"
  shows "records_loop bytes (length bytes) (length before) True out
    = (length before + length (items_bytes xs), next_of part = End, True, out @ items_lines xs)"
  using assms(1,3)
proof (induction xs arbitrary: before out)
  case Nil
  then have "slice bytes (length before) (length bytes) = part" by (simp add: slice_def)
  with assms(2) show ?case
    unfolding records_loop.simps [of bytes "length bytes" "length before"] by auto
next
  case (Cons r xs)
  then have bytes: "bytes = (before @ item_bytes r) @ items_bytes xs @ part" by simp
  have "slice bytes (length before) (length bytes) = item_bytes r @ items_bytes xs @ part"
    by (simp add: Cons.prems(2) slice_def)
  then have nx: "next_of (slice bytes (length before) (length bytes))
      = Record (length (item_bytes r)) (Some (text_line (fst r) (snd r)))"
    using Cons.prems(1) by (simp add: next_of_item)
  show ?case
    using Cons.IH [OF _ bytes, of "out @ item_line r"] Cons.prems(1)
    unfolding records_loop.simps [of bytes "length bytes" "length before"] nx
    by (simp add: write_item_line)
qed

definition in_document :: "string \<Rightarrow> decoder \<Rightarrow> bool" where
  "in_document part d \<longleftrightarrow>
     (\<exists>doc. documents d = [doc] \<and> d_bytes doc = part) \<and> candidate d = [] \<and> due d = 0 \<and> ended_line d"

definition tame :: "string \<Rightarrow> bool" where
  "tame bytes \<longleftrightarrow> no_root bytes \<and> (\<forall>b \<in> set bytes. \<not> is_line_break b)"

lemma drain_tame:
  assumes "documents d = [doc]" and "tame (d_bytes doc)"
  shows "drain d e out =
    (case write_records d (length (d_bytes doc)) out of
       (d1, Ended after, out1) \<Rightarrow>
         (case tl (documents d1) of
            outer # outers \<Rightarrow> drain (d1\<lparr>documents := append_document outer after # outers\<rparr>) e out1
          | [] \<Rightarrow> (d1\<lparr>documents := [], line_start := True\<rparr>, Some (d_bytes after), out1))
     | (d1, Wrote, out1) \<Rightarrow> drain d1 e out1
     | (d1, Waiting, out1) \<Rightarrow> (d1, None, out1))"
proof -
  have "first_line_break (d_bytes doc) e = None"
    using assms(2) position_None [of is_line_break "d_bytes doc"]
    by (simp add: tame_def first_line_break_def)
  moreover have "find_sub ROOT (d_bytes doc) = None"
    using assms(2) no_root_find by (simp add: tame_def)
  moreover have "least_found [None, None] = None"
    by (simp add: least_found_def map_filter_def)
  ultimately show ?thesis
    unfolding drain.simps [of d e out] assms(1)
    by (simp add: Let_def split: prod.split records.split)
qed

lemma drain_part:
  assumes "in_document part d" and "tame part" and "next_of part = NPartial"
  shows "drain d e out = (d, None, out)"
proof -
  from assms(1) obtain doc where doc: "documents d = [doc]" "d_bytes doc = part" "ended_line d"
    by (auto simp: in_document_def)
  have "records_loop part (length part) 0 True out = (0, False, True, out)"
    using records_loop_items [of "[]" part part "[]" out] assms(3) by simp
  with doc have "write_records d (length part) out = (d, Waiting, out)"
    by (simp add: write_records_def)
  with drain_tame [OF doc(1)] doc(2) assms(2) show ?thesis by simp
qed

lemma tame_append: "tame (a @ b) \<Longrightarrow> no_root b \<Longrightarrow> tame b"
  by (simp add: tame_def)

lemma drain_items:
  assumes "in_document (items_bytes xs @ part) d" and "tame (items_bytes xs @ part)" "tame part"
    and "list_all item_ok xs" and "next_of part = NPartial"
  shows "\<exists>d'. drain d e out = (d', None, out @ items_lines xs) \<and> in_document part d'"
proof (cases "items_bytes xs = []")
  case True
  then have "xs = []" by (cases xs) (simp_all add: item_bytes_def)
  with assms drain_part show ?thesis by auto
next
  case False
  let ?bytes = "items_bytes xs @ part"
  from assms(1) obtain doc where doc: "documents d = [doc]" "d_bytes doc = ?bytes" "ended_line d"
    by (auto simp: in_document_def)
  have "records_loop ?bytes (length ?bytes) 0 True out
      = (length (items_bytes xs), False, True, out @ items_lines xs)"
    using records_loop_items [of xs part ?bytes "[]" out] assms(4,5) by simp
  then have w: "write_records d (length (d_bytes doc)) out
      = (d\<lparr>documents := [fst (cut doc 0 (length (items_bytes xs)))], ended_line := True\<rparr>, Wrote,
         out @ items_lines xs)"
    using doc False by (simp add: write_records_def)
  let ?d = "d\<lparr>documents := [fst (cut doc 0 (length (items_bytes xs)))], ended_line := True\<rparr>"
  have d: "in_document part ?d"
    using assms(1) doc by (simp add: in_document_def cut_def)
  from drain_tame [OF doc(1)] w doc(2) assms(2) have "drain d e out = drain ?d e (out @ items_lines xs)"
    by simp
  with drain_part [OF d assms(3,5)] d show ?thesis by simp
qed

lemma drain_whole:
  assumes "in_document (whole xs) d" and "list_all item_ok xs"
  shows "drain d e out = (new_decoder, Some [], out @ items_lines xs)"
proof -
  from assms(1) obtain doc where doc: "documents d = [doc]" "d_bytes doc = whole xs" "ended_line d"
    by (auto simp: in_document_def)
  have "records_loop (whole xs) (length (whole xs)) 0 True out
      = (length (items_bytes xs), True, True, out @ items_lines xs)"
    using records_loop_items [of xs ROOT_END "whole xs" "[]" out] assms(2)
    by (simp add: whole_def next_of_End)
  then have "\<exists>d1 after. write_records d (length (d_bytes doc)) out = (d1, Ended after, out @ items_lines xs)
      \<and> tl (documents d1) = [] \<and> d_bytes after = [] \<and> d1\<lparr>documents := [], line_start := True\<rparr> = new_decoder"
    using doc assms(1)
    by (simp add: write_records_def split_off_def whole_def in_document_def new_decoder_def)
  moreover have "tame (d_bytes doc)"
    using whole_tame [OF assms(2)] doc(2) by (simp add: tame_def)
  ultimately show ?thesis
    using drain_tame [OF doc(1)] by auto
qed

section \<open>The start of a document\<close>

definition line_end_ok :: "string \<Rightarrow> bool" where
  "line_end_ok lb \<longleftrightarrow> lb = [CHR 0x0A] \<or> lb = [CHR 0x0D, CHR 0x0A]"

definition header :: "string \<Rightarrow> string \<Rightarrow> string" where
  "header lb attrs = MARKER @ lb @ ROOT @ attrs @ ''>''"

lemmas reads_candidates =
  plain_loop.simps(2) candidate_of_def is_line_break_def new_decoder_def Let_def

lemma plain_marker:
  "line_end_ok lb \<Longrightarrow> plain_loop new_decoder (MARKER @ lb @ bytes) [] =
     plain_loop (new_decoder\<lparr>due := 1\<rparr>) bytes []"
  by (auto simp: line_end_ok_def reads_candidates markers)

lemma plain_root:
  "plain_loop (new_decoder\<lparr>due := 1\<rparr>) (ROOT @ bytes) [] =
     plain_loop (new_decoder\<lparr>due := 1, candidate := ROOT\<rparr>) bytes []"
  by (simp add: reads_candidates markers)

lemma plain_attributes:
  "list_all bare attrs \<Longrightarrow> list_all bare before \<Longrightarrow>
     plain_loop (new_decoder\<lparr>due := 1, candidate := ROOT @ before\<rparr>) (attrs @ ''>'' @ bytes) [] =
     (new_decoder\<lparr>documents := [empty_document]\<rparr>, bytes, [])"
proof (induction attrs arbitrary: before)
  case Nil
  have "position (\<lambda>b. b = CHR ''>'' \<or> b = CHR ''<'' \<or> is_line_break b) (before @ ''>'')
      = Some (length before)"
    using bare_position [OF Nil(2), of "\<lambda>b. b = CHR ''>'' \<or> b = CHR ''<'' \<or> is_line_break b" "''>''"]
    by (auto simp: bare_def)
  then have "candidate_of (ROOT @ before @ ''>'') = CRoot"
    by (simp add: candidate_of_def markers nth_append)
  then show ?case
    by (simp add: plain_loop.simps(2) new_decoder_def ROOT_def)
next
  case (Cons a attrs)
  then have "list_all bare (before @ [a])" by simp
  moreover from bare_position [OF this, of "\<lambda>b. b = CHR ''>'' \<or> b = CHR ''<'' \<or> is_line_break b" "[]"]
  have "position (\<lambda>b. b = CHR ''>'' \<or> b = CHR ''<'' \<or> is_line_break b) (before @ [a]) = None"
    by (auto simp: bare_def)
  then have "candidate_of (ROOT @ before @ [a]) = CPartial"
    by (simp add: candidate_of_def markers)
  ultimately show ?case
    using Cons.IH [of "before @ [a]"] Cons.prems
    by (simp add: plain_loop.simps(2) new_decoder_def ROOT_def)
qed

lemma plain_header:
  assumes "line_end_ok lb" and "list_all bare attrs"
  shows "plain_loop new_decoder (header lb attrs @ bytes) [] =
    (new_decoder\<lparr>documents := [empty_document]\<rparr>, bytes, [])"
  using plain_marker [OF assms(1)] plain_root plain_attributes [OF assms(2), of "[]"]
  by (simp add: header_def del: append_Cons)

lemma plain_header_part:
  assumes "line_end_ok lb" and "list_all bare attrs" and "strict_prefix part (header lb attrs)"
  shows "\<exists>d out. plain_loop new_decoder part [] = (d, [], out) \<and> documents d = []"
proof -
  obtain d rest out where p: "plain_loop new_decoder part [] = (d, rest, out)"
    by (metis prod_cases3)
  from assms(3) obtain b where b: "header lb attrs = part @ b" "b \<noteq> []"
    by (auto simp: strict_prefix_def prefix_def)
  have "documents d = documents new_decoder"
  proof (rule ccontr)
    assume "documents d \<noteq> documents new_decoder"
    with plain_loop_append [OF p, of b] plain_header [OF assms(1,2), of "[]"] b show False by simp
  qed
  with plain_loop_documents [OF p] p show ?thesis by (auto simp: new_decoder_def)
qed

section \<open>Any cut into reads\<close>

definition document_stream :: "string \<Rightarrow> string \<Rightarrow> text_item list \<Rightarrow> string" where
  "document_stream lb attrs rs = header lb attrs @ whole rs"

text \<open>Where the decoder is once it has read \<open>q\<close>, the first bytes of a document's stream.\<close>

inductive stage :: "string \<Rightarrow> text_item list \<Rightarrow> string \<Rightarrow> decoder \<Rightarrow> string \<Rightarrow> bool"
  for hdr :: string and rs :: "text_item list" where
  starting: "strict_prefix q hdr \<Longrightarrow> plain_loop new_decoder q [] = (d, [], out) \<Longrightarrow>
    documents d = [] \<Longrightarrow> stage hdr rs q d out"
| within: "rs = xs @ ys \<Longrightarrow> next_part ys part \<Longrightarrow> in_document part d \<Longrightarrow>
    stage hdr rs (hdr @ items_bytes xs @ part) d (items_lines xs)"
| over: "stage hdr rs (hdr @ whole rs) new_decoder (items_lines rs)"

text \<open>The bytes of an open document go through \<open>drain\<close>.\<close>

lemma drain_stage:
  assumes "list_all item_ok rs" and "rs = xs @ ys" and "prefix u (whole ys)" and "in_document u d"
    and "drain d e (items_lines xs) = (d', r, out')"
  shows "stage hdr rs (hdr @ items_bytes xs @ u) d' out' \<and> (r = None \<or> r = Some [] \<and> d' = new_decoder)"
proof -
  have ok: "list_all item_ok ys" using assms(1,2) by simp
  show ?thesis
  proof (cases "u = whole ys")
    case True
    with drain_whole [of ys d e "items_lines xs"] ok assms(2,4,5) show ?thesis
      using stage.over [of hdr rs] by (auto simp: whole_def)
  next
    case False
    with assms(3) have "strict_prefix u (whole ys)" by (simp add: strict_prefix_def)
    then obtain zs ws part where z: "ys = zs @ ws" "u = items_bytes zs @ part" "next_part ws part"
      by (rule prefix_of_whole)
    then have okz: "list_all item_ok zs" "list_all item_ok ws" using ok by simp_all
    from assms(3) obtain v where "whole ys = u @ v" by (auto simp: prefix_def)
    with whole_tame [OF ok] have "tame u"
      by (auto simp: tame_def dest: no_root_prefix)
    moreover from this have "tame part" using z(2) by (auto simp: tame_def dest: no_root_suffix)
    ultimately have t: "tame (items_bytes zs @ part)" "tame part" using z(2) by simp_all
    with drain_items [of zs part d e "items_lines xs"] z assms(4,5) okz next_part_read [OF okz(2) z(3)] t
    show ?thesis
      using stage.within [of rs "xs @ zs" ws part d' hdr] assms(2) by (auto simp: tame_def)
  qed
qed

lemma take_new: "take_loop new_decoder [] n e out = (new_decoder, out)"
  unfolding take_loop.simps [of new_decoder "[]"] by (simp add: plain_def new_decoder_def)

lemma take_stage:
  assumes "list_all item_ok rs" and "rs = xs @ ys" and "prefix (part @ bytes) (whole ys)"
    and "(if documents d = [] then plain d input out else (d, 0, out))
      = (d1, used, items_lines xs)"
    and "in_document part d1" and "bytes = drop used input"
    and "take_loop d input n e out = (d', out')"
  shows "stage hdr rs (hdr @ items_bytes xs @ part @ bytes) d' out'"
proof -
  from assms(5) obtain doc where doc: "documents d1 = [doc]" "d_bytes doc = part"
    by (auto simp: in_document_def)
  define doc' where "doc' = \<lparr>d_bytes = d_bytes doc @ drop used input,
    d_reads = (if n \<and> used = 0 then d_reads doc @ [length (d_bytes doc)] else d_reads doc)\<rparr>"
  obtain d2 r out2 where dr: "drain (d1\<lparr>documents := [doc']\<rparr>) e (items_lines xs) = (d2, r, out2)"
    by (metis prod_cases3)
  have "in_document (part @ bytes) (d1\<lparr>documents := [doc']\<rparr>)"
    using assms(5,6) doc by (simp add: in_document_def doc'_def)
  from drain_stage [OF assms(1-3) this dr]
  have st: "stage hdr rs (hdr @ items_bytes xs @ part @ bytes) d2 out2"
    "r = None \<or> r = Some [] \<and> d2 = new_decoder" by simp_all
  have "take_loop d input n e out =
      (case r of Some after \<Rightarrow> take_loop d2 after False e out2 | None \<Rightarrow> (d2, out2))"
    unfolding take_loop.simps [of d input n e out] assms(4)
    by (simp add: doc(1) dr flip: doc'_def) 
  with st assms(7) take_new show ?thesis by auto
qed

lemma read_stage:
  assumes "line_end_ok lb" and "list_all bare attrs" and "list_all item_ok rs"
    and "stage (header lb attrs) rs q d out"
    and "prefix (q @ bytes) (document_stream lb attrs rs)"
    and "take_loop d bytes n e out = (d', out')"
  shows "stage (header lb attrs) rs (q @ bytes) d' out'"
  using assms(4)
proof cases
  case starting
  let ?h = "header lb attrs"
  note p = plain_loop_append [OF starting(2), of bytes]
  show ?thesis
  proof (cases "strict_prefix (q @ bytes) ?h")
    case True
    from plain_header_part [OF assms(1,2) True] p starting(3) obtain d2 out2 where
      "plain_loop d bytes out = (d2, [], out2)" "documents d2 = []"
      "plain_loop new_decoder (q @ bytes) [] = (d2, [], out2)"
      by (auto simp: new_decoder_def)
    with True starting(3) assms(6) show ?thesis
      by (auto simp: take_loop.simps [of d] plain_def intro: stage.starting)
  next
    case False
    with assms(5) obtain u where u: "q @ bytes = ?h @ u" "prefix u (whole rs)"
      by (auto simp: document_stream_def prefix_append strict_prefix_def)
    from starting(1) obtain c where c: "?h = q @ c" by (auto simp: strict_prefix_def prefix_def)
    with u(1) have bytes: "bytes = c @ u" by simp
    let ?d = "new_decoder\<lparr>documents := [empty_document]\<rparr>"
    have "plain_loop d bytes out = (?d, u, [])"
      using p plain_header [OF assms(1,2), of u] u(1) starting(3) by (simp add: new_decoder_def)
    then have pl: "plain d bytes out = (?d, length c, [])"
      by (simp add: plain_def bytes)
    have "stage ?h rs (?h @ items_bytes [] @ [] @ u) d' out'"
    proof (rule take_stage [OF assms(3)])
      show "(if documents d = [] then plain d bytes out else (d, 0, out))
        = (?d, length c, items_lines [])" using starting(3) pl by simp
      show "in_document [] ?d" by (simp add: in_document_def empty_document_def new_decoder_def)
    qed (use u bytes assms(6) in simp_all)
    with u(1) show ?thesis by simp
  qed
next
  case (within xs ys part)
  from within(5) have d: "documents d \<noteq> []" by (auto simp: in_document_def)
  have "whole rs = items_bytes xs @ whole ys" by (simp add: within(3) whole_def)
  with assms(5) within(1) have "prefix (part @ bytes) (whole ys)"
    by (simp add: document_stream_def)
  from take_stage [OF assms(3) _ this, of xs d bytes out d 0] within assms(6) d
  show ?thesis by simp
next
  case over
  with assms(5) have "bytes = []" by (simp add: document_stream_def)
  with over assms(6) take_new stage.over [of "header lb attrs" rs] show ?thesis by auto
qed

lemma read_all_stage:
  assumes "line_end_ok lb" and "list_all bare attrs" and "list_all item_ok rs"
  shows "stage (header lb attrs) rs q d out \<Longrightarrow>
    prefix (q @ concat reads) (document_stream lb attrs rs) \<Longrightarrow>
    read_all d reads out = (d', out') \<Longrightarrow> stage (header lb attrs) rs (q @ concat reads) d' out'"
proof (induction reads arbitrary: q d out)
  case (Cons bytes reads)
  obtain d1 out1 where r: "take_loop d bytes True False out = (d1, out1)" by fastforce
  from Cons.prems(2) have "prefix (q @ bytes) (document_stream lb attrs rs)"
    using append_prefixD [of "q @ bytes" "concat reads"] by simp
  from read_stage [OF assms Cons.prems(1) this r]
  have "stage (header lb attrs) rs (q @ bytes) d1 out1" .
  from Cons.IH [OF this] Cons.prems(2,3) r show ?case
    by (simp add: read_def take_read_def)
qed simp

text \<open>
  C4: A stream that is one CLIXML document of records written as text (\<open><S S="stream">text</S>\<close>), with nothing
  inserted in it, comes to the lines of its records, however its bytes are cut into reads:
  whether the marker line, a tag, an escape or the end of the document falls across two reads,
  the text is the stream's label and the unescaped text of each record, one line each.
\<close>

theorem documents_decode:
  assumes "line_end_ok lb" and "list_all bare attrs" and "list_all item_ok rs"
    and "concat reads = document_stream lb attrs rs"
  shows "decoded reads = items_lines rs"
proof -
  obtain d out where r: "read_all new_decoder reads [] = (d, out)" by fastforce
  have "strict_prefix [] (header lb attrs)" by (simp add: header_def markers strict_prefix_def)
  then have "stage (header lb attrs) rs [] new_decoder []"
    by (rule stage.starting) (simp_all add: new_decoder_def)
  from read_all_stage [OF assms(1-3) this _ r] assms(4)
  have "stage (header lb attrs) rs (header lb attrs @ whole rs) d out"
    by (simp add: document_stream_def)
  then have "d = new_decoder \<and> out = items_lines rs"
  proof cases
    case (within xs ys part)
    then have "part = whole ys" by (auto simp: whole_def)
    moreover have "length (whole ys) \<ge> length (case ys of [] \<Rightarrow> ROOT_END | r # _ \<Rightarrow> item_bytes r)"
      by (simp add: whole_def split: list.split)
    ultimately show ?thesis
      using within(4) prefix_length_less unfolding next_part_def by (metis not_less)
  qed (auto simp: strict_prefix_def)
  moreover have "snd (end_stream new_decoder out) = out" for out
    by (simp add: end_stream_def take_read_def take_new) (simp add: new_decoder_def write_plain_def)
  ultimately show ?thesis by (simp add: decoded_def r)
qed

lemma documents_decode_witness:
  "let rs = [(''Error'', ''a b''), (''warning'', ''c'')];
       s = document_stream [CHR 0x0A] ''V=1'' rs
   in concat [take 30 s, drop 30 s] = s
      \<and> decoded [take 30 s, drop 30 s] = ''a b'' @ [CHR 0x0A] @ ''WARNING: c'' @ [CHR 0x0A]"
proof -
  let ?rs = "[(''Error'', ''a b''), (''warning'', ''c'')]"
  let ?s = "document_stream [CHR 0x0A] ''V=1'' ?rs"
  have "line_end_ok [CHR 0x0A]" "list_all bare ''V=1''" "list_all item_ok ?rs"
    by code_simp+
  from documents_decode [OF this, of "[take 30 ?s, drop 30 ?s]"]
  have "decoded [take 30 ?s, drop 30 ?s] = items_lines ?rs" by simp
  also have "\<dots> = ''a b'' @ [CHR 0x0A] @ ''WARNING: c'' @ [CHR 0x0A]" by code_simp
  finally show ?thesis by (simp add: Let_def)
qed

end
