(* ===== verification/Marker_Scan.thy ===== *)
theory Marker_Scan
  imports Prelude
begin

text \<open>
  Data a build leaves in a native library and cargo-pwrs reads back out of the file's bytes: a
  marker, a text, and a NUL.  \<open>crates/cargo-pwrs/src/records.rs\<close> and
  \<open>crates/cargo-pwrs/src/cpu.rs\<close> each have a loop that looks for the next marker, takes the text
  up to the NUL and goes on from there.  The locale states what such a loop is, and proves once
  what it makes of a file: every text between a marker and a NUL, in order, whatever lies
  between them.
\<close>

definition nul :: char where
  "nul = CHR 0x00"

text \<open>Texts taken one after another, the first error ending the run.\<close>

fun steps :: "('a \<Rightarrow> string \<Rightarrow> 'e + 'a) \<Rightarrow> 'a \<Rightarrow> string list \<Rightarrow> 'e + 'a" where
  "steps step acc [] = Inr acc"
| "steps step acc (t # ts) =
     (case step acc t of Inl e \<Rightarrow> Inl e | Inr acc' \<Rightarrow> steps step acc' ts)"

text \<open>
  A file: runs of other bytes, each before a marker, a text and its NUL, and the bytes after
  the last of them.
\<close>

definition marked :: "string \<Rightarrow> (string \<times> string) list \<Rightarrow> string \<Rightarrow> string" where
  "marked marker ps tail = concat (map (\<lambda>(gap, t). gap @ marker @ t @ [nul]) ps) @ tail"

definition marks_ok :: "string \<Rightarrow> (string \<times> string) list \<Rightarrow> string \<Rightarrow> bool" where
  "marks_ok marker ps tail \<longleftrightarrow>
     list_all (\<lambda>(gap, t). find_sub marker gap = None \<and> nul \<notin> set t) ps
     \<and> find_sub marker tail = None"

definition unbordered :: "'a list \<Rightarrow> bool" where
  "unbordered m \<longleftrightarrow> list_all (\<lambda>n. \<not> prefix (drop n m) m) [1..<length m]"

lemma no_straddle:
  assumes "unbordered m" and "find_sub m pre = None" and "pre \<noteq> []"
  shows "\<not> prefix m (pre @ m @ rest)"
proof
  assume p: "prefix m (pre @ m @ rest)"
  show False
  proof (cases "length m \<le> length pre")
    case True
    with p have "prefix m pre" by (metis prefixI prefix_length_prefix)
    with assms(2,3) show False by (cases pre) auto
  next
    case False
    with p have "prefix pre m" by (metis nat_le_linear prefixI prefix_length_prefix)
    then obtain u where u: "m = pre @ u" by (auto simp: prefix_def)
    with p have "prefix u (m @ rest)" by (metis same_prefix_prefix)
    then have "prefix (drop (length pre) m) m"
      using u by (metis append_eq_conv_conj le_add2 length_append prefixI prefix_length_prefix)
    moreover have "length pre \<in> set [1..<length m]"
      using False assms(3) by (cases pre) auto
    ultimately show False using assms(1) by (auto simp: unbordered_def list_all_iff)
  qed
qed

lemma find_sub_first:
  assumes "m \<noteq> []" and "unbordered m"
  shows "find_sub m pre = None \<Longrightarrow> find_sub m (pre @ m @ rest) = Some (length pre)"
proof (induction pre)
  case Nil
  then show ?case using assms(1) by (cases m) auto
next
  case (Cons a pre)
  then have "find_sub m pre = None" by (auto split: if_splits)
  with Cons no_straddle [OF assms(2) Cons.prems, of rest] show ?case by auto
qed

locale marked_loop =
  fixes marker :: string
    and step :: "'a \<Rightarrow> string \<Rightarrow> 'e + 'a"
    and unended :: 'e
    and loop :: "string \<Rightarrow> 'a \<Rightarrow> 'e + 'a"
  assumes marker_form: "marker \<noteq> []" "nul \<notin> set marker" "unbordered marker"
    and loop_unfold: "loop bytes acc =
      (case find_sub marker bytes of
         None \<Rightarrow> Inr acc
       | Some offset \<Rightarrow>
           (let rest = drop (offset + length marker) bytes in
            case position (\<lambda>b. b = nul) rest of
              None \<Rightarrow> Inl unended
            | Some end \<Rightarrow>
                (case step acc (take end rest) of
                   Inl e \<Rightarrow> Inl e
                 | Inr acc' \<Rightarrow> loop (drop end rest) acc')))"
begin

lemma loop_none: "find_sub marker bytes = None \<Longrightarrow> loop bytes acc = Inr acc"
  by (simp add: loop_unfold [of bytes])

lemma no_nul_start [simp]: "\<not> prefix marker (nul # bytes)"
  using marker_form by (cases marker) auto

lemma loop_text:
  assumes "find_sub marker gap = None" and "nul \<notin> set t"
  shows "loop (gap @ marker @ t @ nul # bytes) acc =
    (case step acc t of Inl e \<Rightarrow> Inl e | Inr acc' \<Rightarrow> loop (nul # bytes) acc')"
proof -
  have "position (\<lambda>b. b = nul) (t @ nul # bytes) = Some (length t)"
    using assms(2) by (induction t) auto
  then show ?thesis
    by (simp add: loop_unfold [of "gap @ marker @ t @ nul # bytes"]
        find_sub_first [OF marker_form(1,3) assms(1)] cong: sum.case_cong)
qed

lemma loop_marked_nul:
  "marks_ok marker ps tail \<Longrightarrow>
     loop (marked marker ps tail) acc = steps step acc (map snd ps)
     \<and> loop (nul # marked marker ps tail) acc = steps step acc (map snd ps)"
proof (induction ps arbitrary: acc)
  case Nil
  then show ?case by (simp add: marks_ok_def marked_def loop_none)
next
  case (Cons p ps)
  obtain gap t where p: "p = (gap, t)" by fastforce
  with Cons.prems have gap: "find_sub marker gap = None" "nul \<notin> set t"
    and ps: "marks_ok marker ps tail" by (simp_all add: marks_ok_def)
  have m: "marked marker ((gap, t) # ps) tail = gap @ marker @ t @ nul # marked marker ps tail"
    by (simp add: marked_def)
  from loop_text [OF gap] loop_text [of "nul # gap" t] gap Cons.IH [OF ps] show ?case
    by (simp add: m p split: sum.split)
qed

lemma loop_marked:
  "marks_ok marker ps tail \<Longrightarrow> loop (marked marker ps tail) acc = steps step acc (map snd ps)"
  by (simp add: loop_marked_nul)

text \<open>A text with no NUL after it is an error, wherever the loop gets to it.\<close>

lemma loop_cut:
  assumes "find_sub marker gap = None" and "nul \<notin> set t"
  shows "loop (gap @ marker @ t) acc = Inl unended"
proof -
  have "position (\<lambda>b. b = nul) t = None"
    using assms(2) by (auto simp: position_None)
  then show ?thesis
    by (simp add: loop_unfold [of "gap @ marker @ t"] find_sub_first [OF marker_form(1,3) assms(1)])
qed

lemma loop_marked_cut:
  assumes "find_sub marker gap = None" and "nul \<notin> set t"
  shows "marks_ok marker ps [] \<Longrightarrow> steps step acc (map snd ps) = Inr acc' \<Longrightarrow>
    loop (marked marker ps (gap @ marker @ t)) acc = Inl unended
    \<and> loop (nul # marked marker ps (gap @ marker @ t)) acc = Inl unended"
proof (induction ps arbitrary: acc)
  case Nil
  then show ?case
    using loop_cut [OF assms] loop_cut [of "nul # gap" t] assms by (simp add: marked_def)
next
  case (Cons p ps)
  obtain g u where p: "p = (g, u)" by fastforce
  with Cons.prems(1) have g: "find_sub marker g = None" "nul \<notin> set u"
    and ps: "marks_ok marker ps []" by (simp_all add: marks_ok_def)
  from Cons.prems(2) p obtain a where a: "step acc u = Inr a" "steps step a (map snd ps) = Inr acc'"
    by (auto split: sum.splits)
  have m: "marked marker ((g, u) # ps) (gap @ marker @ t)
      = g @ marker @ u @ nul # marked marker ps (gap @ marker @ t)"
    by (simp add: marked_def)
  from loop_text [OF g] loop_text [of "nul # g" u] g Cons.IH [OF ps a(2)] a(1) show ?case
    by (simp add: m p)
qed

end

end
