(* ===== verification/Class_Records.thy ===== *)
theory Class_Records
  imports Marker_Scan
begin

text \<open>
  \<open>crates/cargo-pwrs/src/records.rs\<close>: the class records a native library holds, read out of the
  file's bytes by \<open>read\<close>, and checked by \<open>check\<close> against the classes \<open>export_module!\<close> lists.
  The reading loop is an instance of \<open>marked_loop\<close>.
\<close>

section \<open>Reading\<close>

definition CLASS_MARKER :: string where
  "CLASS_MARKER = ''PWRS-CLASS/1'' @ [CHR 0x09]"

datatype record_error =
    NoTerminator
  | NotUtf8
  | NoPath string

record class_record =
  r_name :: string
  r_path :: string

text \<open>What the loop of \<open>read\<close> does with the text of one record.\<close>

definition take_record :: "class_record list \<Rightarrow> string \<Rightarrow> record_error + class_record list" where
  "take_record out t =
     (if \<not> utf8_ok t then Inl NotUtf8
      else
        (case split_once (CHR 0x09) t of
           None \<Rightarrow> Inl (NoPath t)
         | Some (name, path) \<Rightarrow>
             (let r = \<lparr>r_name = name, r_path = path\<rparr>
              in Inr (if r \<in> set out then out else out @ [r]))))"

function read_loop :: "string \<Rightarrow> class_record list \<Rightarrow> record_error + class_record list" where
  "read_loop bytes out =
     (case find_sub CLASS_MARKER bytes of
        None \<Rightarrow> Inr out
      | Some offset \<Rightarrow>
          (let rest = drop (offset + length CLASS_MARKER) bytes in
           case position (\<lambda>b. b = nul) rest of
             None \<Rightarrow> Inl NoTerminator
           | Some end \<Rightarrow>
               (case take_record out (take end rest) of
                  Inl e \<Rightarrow> Inl e
                | Inr out' \<Rightarrow> read_loop (drop end rest) out')))"
  by pat_completeness auto
termination
  by (relation "measure (length \<circ> fst)") (auto dest: find_sub_less simp: CLASS_MARKER_def)

declare read_loop.simps [simp del]

definition read_records :: "string \<Rightarrow> record_error + class_record list" where
  "read_records bytes = read_loop bytes []"

interpretation class_records: marked_loop CLASS_MARKER take_record NoTerminator read_loop
proof
  show "CLASS_MARKER \<noteq> []" "nul \<notin> set CLASS_MARKER" "unbordered CLASS_MARKER"
    by (code_simp | simp)+
next
  fix bytes out
  show "read_loop bytes out =
      (case find_sub CLASS_MARKER bytes of
         None \<Rightarrow> Inr out
       | Some offset \<Rightarrow>
           (let rest = drop (offset + length CLASS_MARKER) bytes in
            case position (\<lambda>b. b = nul) rest of
              None \<Rightarrow> Inl NoTerminator
            | Some end \<Rightarrow>
                (case take_record out (take end rest) of
                   Inl e \<Rightarrow> Inl e
                 | Inr acc' \<Rightarrow> read_loop (drop end rest) acc')))"
    by (rule read_loop.simps)
qed

text \<open>The record of a class as \<open>#[psclass]\<close> leaves it, less its marker and NUL.\<close>

definition record_text :: "class_record \<Rightarrow> string" where
  "record_text r = r_name r @ [CHR 0x09] @ r_path r"

definition record_ok :: "class_record \<Rightarrow> bool" where
  "record_ok r \<longleftrightarrow> CHR 0x09 \<notin> set (r_name r) \<and> nul \<notin> set (r_name r) \<and> nul \<notin> set (r_path r)
     \<and> utf8_ok (record_text r)"

text \<open>Each record the first time it comes, in order.\<close>

definition first_of_each :: "'a list \<Rightarrow> 'a list" where
  "first_of_each rs = rev (remdups (rev rs))"

lemma take_record_text:
  assumes "record_ok r"
  shows "take_record out (record_text r) = Inr (if r \<in> set out then out else out @ [r])"
proof -
  from assms have "split_once (CHR 0x09) (record_text r) = Some (r_name r, r_path r)"
    by (simp add: split_once_Some record_text_def record_ok_def)
  with assms show ?thesis
    by (cases r) (simp add: take_record_def record_ok_def Let_def)
qed

lemma steps_records:
  "list_all record_ok rs \<Longrightarrow> steps take_record (first_of_each done) (map record_text rs)
     = Inr (first_of_each (done @ rs))"
proof (induction rs arbitrary: "done")
  case (Cons r rs)
  have "(if r \<in> set (first_of_each done) then first_of_each done else first_of_each done @ [r])
      = first_of_each (done @ [r])"
    by (simp add: first_of_each_def)
  with Cons take_record_text [of r "first_of_each done"] show ?case
    by simp
qed simp

text \<open>
  C6: Every class record is read out of a library, wherever its bytes are among others, once
  however often it appears, and in the order of its first appearance.
\<close>

theorem read_records_finds:
  assumes "marks_ok CLASS_MARKER ps tail" and "map snd ps = map record_text rs"
    and "list_all record_ok rs"
  shows "read_records (marked CLASS_MARKER ps tail) = Inr (first_of_each rs)"
  using class_records.loop_marked [OF assms(1), of "[]"] steps_records [OF assms(3), of "[]"]
  by (simp add: read_records_def assms(2) first_of_each_def)

lemma read_records_finds_witness:
  "let a = \<lparr>r_name = ''A'', r_path = ''x::A''\<rparr>; b = \<lparr>r_name = ''B'', r_path = ''x::B''\<rparr>;
       ps = [(''ELF'', record_text a), (''PWRS-CLASS/1 '', record_text b), ([], record_text a)]
   in read_records (marked CLASS_MARKER ps ''end'') = Inr [a, b]"
proof -
  let ?a = "\<lparr>r_name = ''A'', r_path = ''x::A''\<rparr>" and ?b = "\<lparr>r_name = ''B'', r_path = ''x::B''\<rparr>"
  let ?ps = "[(''ELF'', record_text ?a), (''PWRS-CLASS/1 '', record_text ?b), ([], record_text ?a)]"
  have "marks_ok CLASS_MARKER ?ps ''end''" "list_all record_ok [?a, ?b, ?a]" by code_simp+
  from read_records_finds [OF this(1) _ this(2)] show ?thesis
    by (simp add: first_of_each_def)
qed

text \<open>
  A record whose NUL is missing is refused: the records before it are read, and the result
  is the error that names it.
\<close>

lemma read_records_cut:
  assumes "marks_ok CLASS_MARKER ps []" and "map snd ps = map record_text rs"
    and "list_all record_ok rs" and "find_sub CLASS_MARKER gap = None" and "nul \<notin> set t"
  shows "read_records (marked CLASS_MARKER ps (gap @ CLASS_MARKER @ t)) = Inl NoTerminator"
  using class_records.loop_marked_cut [OF assms(4,5,1), of "[]"] steps_records [OF assms(3), of "[]"]
  by (simp add: read_records_def assms(2) first_of_each_def)

lemma read_records_cut_witness:
  "read_records (marked CLASS_MARKER [(''ELF'', record_text \<lparr>r_name = ''A'', r_path = ''A''\<rparr>)]
      (''..'' @ CLASS_MARKER @ ''Trex.Segment'')) = Inl NoTerminator"
proof -
  let ?a = "\<lparr>r_name = ''A'', r_path = ''A''\<rparr>"
  have "marks_ok CLASS_MARKER [(''ELF'', record_text ?a)] []" "list_all record_ok [?a]"
    "find_sub CLASS_MARKER ''..'' = None" "nul \<notin> set ''Trex.Segment''" by code_simp+
  from read_records_cut [OF this(1) _ this(2-4)] show ?thesis by simp
qed

section \<open>Checking\<close>

record listed_class =
  c_name :: string
  c_path :: string

datatype check_error =
    ListedName class_record listed_class
  | UnlistedName class_record class_record

definition warning :: "class_record \<Rightarrow> string" where
  "warning r = ''pwrs: '' @ r_path r @ '' is declared as '' @ r_name r
     @ '' and export_module! does not list it, so writing one fails with PwrsUnknownClass''"

text \<open>The loop of \<open>check\<close>: \<open>before\<close> is \<open>unlisted[..i]\<close>.\<close>

fun check_loop ::
  "listed_class list \<Rightarrow> class_record list \<Rightarrow> class_record list \<Rightarrow> string list
     \<Rightarrow> check_error + string list"
where
  "check_loop listed before [] warnings = Inr warnings"
| "check_loop listed before (r # rs) warnings =
     (case find (\<lambda>c. eq_ignore_ascii_case (c_name c) (r_name r)) listed of
        Some c \<Rightarrow> Inl (ListedName r c)
      | None \<Rightarrow>
          (case find (\<lambda>o'. eq_ignore_ascii_case (r_name o') (r_name r)) before of
             Some other \<Rightarrow> Inl (UnlistedName other r)
           | None \<Rightarrow> check_loop listed (before @ [r]) rs (warnings @ [warning r])))"

definition unlisted :: "class_record list \<Rightarrow> listed_class list \<Rightarrow> class_record list" where
  "unlisted rs listed = filter (\<lambda>r. \<not> list_ex (\<lambda>c. c_path c = r_path r) listed) rs"

definition check :: "class_record list \<Rightarrow> listed_class list \<Rightarrow> check_error + string list" where
  "check rs listed = check_loop listed [] (unlisted rs listed) []"

text \<open>The name a type has in PowerShell, which compares names without regard to case.\<close>

abbreviation folded :: "string \<Rightarrow> string" where
  "folded \<equiv> map ascii_lower"

lemma check_loop_Inr:
  "check_loop listed before rs warnings = Inr ws \<longleftrightarrow>
     ws = warnings @ map warning rs
     \<and> distinct (map (folded \<circ> r_name) rs)
     \<and> (\<forall>r \<in> set rs. (\<forall>c \<in> set listed. folded (c_name c) \<noteq> folded (r_name r))
          \<and> (\<forall>b \<in> set before. folded (r_name b) \<noteq> folded (r_name r)))"
proof (induction rs arbitrary: before warnings)
  case (Cons r rs)
  show ?case
    by (auto simp: Cons.IH find_None_iff find_Some_iff eq_ignore_ascii_case_def
        split: option.splits)
qed auto

text \<open>
  \<open>check\<close> passes a library exactly when no unlisted record has the name of a listed class or
  of another unlisted record, compared without regard to case; then every unlisted record is
  warned about, in order, and nothing else is.
\<close>

lemma check_passes:
  "check rs listed = Inr ws \<longleftrightarrow>
     ws = map warning (unlisted rs listed)
     \<and> distinct (map (folded \<circ> r_name) (unlisted rs listed))
     \<and> folded ` r_name ` set (unlisted rs listed) \<inter> folded ` c_name ` set listed = {}"
proof -
  have "folded ` r_name ` set us \<inter> folded ` c_name ` set listed = {} \<longleftrightarrow>
      (\<forall>r \<in> set us. \<forall>c \<in> set listed. folded (c_name c) \<noteq> folded (r_name r))" for us
  proof (intro iffI ballI notI)
    fix r c
    assume "folded ` r_name ` set us \<inter> folded ` c_name ` set listed = {}"
      and "r \<in> set us" "c \<in> set listed" "folded (c_name c) = folded (r_name r)"
    then show False by (metis disjoint_iff imageI)
  next
    assume apart: "\<forall>r \<in> set us. \<forall>c \<in> set listed. folded (c_name c) \<noteq> folded (r_name r)"
    show "folded ` r_name ` set us \<inter> folded ` c_name ` set listed = {}"
      using apart by (auto, metis)
  qed
  note apart = this
  show ?thesis
    unfolding check_def check_loop_Inr apart by simp
qed

end
