(* ===== verification/Cpu_Features.thy ===== *)
theory Cpu_Features
  imports Prelude
begin

unbundle bit_operations_syntax

text \<open>
  \<open>crates/pwrs/src/cpu.rs\<close>: the x86-64 extensions and the AArch64 features a module can check
  the CPU for, how they are detected, the cap \<open>PWRS_CPU_MAX\<close> sets, and the level or tier a
  kernel ladder dispatches on.  What \<open>cfg!\<close> asks of the compiler is the record \<open>target\<close>; what
  CPUID and XGETBV return, and what Rust's own detection reports on AArch64, is the record
  \<open>machine\<close>; the environment variable is an argument.  A \<open>OnceLock\<close> keeps the value of the
  first call, which each function here returns on every call.  The two loops that climb levels
  and tiers are instances of the locale \<open>ladder\<close>.
\<close>

section \<open>Targets and machines\<close>

datatype arch = Arch_x86_64 | Arch_aarch64 | Arch_other

datatype os = Linux | Windows | Macos | Other_os

record target =
  t_arch :: arch
  t_os :: os
  t_enabled :: "string \<Rightarrow> bool"

record cpuid_result =
  r_eax :: u32
  r_ebx :: u32
  r_ecx :: u32
  r_edx :: u32

record machine =
  m_cpuid :: "u32 \<Rightarrow> u32 \<Rightarrow> cpuid_result"
  m_xgetbv :: u64
  m_arm :: "string \<Rightarrow> bool"

section \<open>Levels and extensions\<close>

datatype cpu_register = Eax | Ebx | Ecx | Edx

primrec register_number :: "cpu_register \<Rightarrow> nat" where
  "register_number Eax = 0"
| "register_number Ebx = 1"
| "register_number Ecx = 2"
| "register_number Edx = 3"

datatype level = L_X86_64 | V2 | V3 | V4 | Beyond

primrec level_number :: "level \<Rightarrow> nat" where
  "level_number L_X86_64 = 1"
| "level_number V2 = 2"
| "level_number V3 = 3"
| "level_number V4 = 4"
| "level_number Beyond = 5"

lemma level_number_inj [simp]: "level_number a = level_number b \<longleftrightarrow> a = b"
  by (cases a; cases b) simp_all

text \<open>The derived order of \<open>Level\<close> is that of its numbers.\<close>

instantiation level :: linorder
begin

definition less_eq_level :: "level \<Rightarrow> level \<Rightarrow> bool" where
  "less_eq_level a b \<longleftrightarrow> level_number a \<le> level_number b"

definition less_level :: "level \<Rightarrow> level \<Rightarrow> bool" where
  "less_level a b \<longleftrightarrow> level_number a < level_number b"

instance
  by standard (auto simp: less_eq_level_def less_level_def)

end

definition level_from_name :: "string \<Rightarrow> level option" where
  "level_from_name name =
     (let n = trim name in
      if n = ''x86-64'' then Some L_X86_64
      else if n = ''x86-64-v2'' then Some V2
      else if n = ''x86-64-v3'' then Some V3
      else if n = ''x86-64-v4'' then Some V4
      else if n = ''native'' \<or> n = [] then Some Beyond
      else None)"

primrec level_name :: "level \<Rightarrow> string" where
  "level_name L_X86_64 = ''x86-64''"
| "level_name V2 = ''x86-64-v2''"
| "level_name V3 = ''x86-64-v3''"
| "level_name V4 = ''x86-64-v4''"
| "level_name Beyond = ''native''"

definition AVX_STATE :: u64 where
  "AVX_STATE = 0x6"

definition AVX512_STATE :: u64 where
  "AVX512_STATE = 0xe6"

datatype isa =
    Sse3 | Ssse3 | Sse41 | Sse42 | Popcnt | Cmpxchg16b | Avx | Avx2
  | Bmi1 | Bmi2 | F16c | Fma | Lzcnt | Movbe | Xsave | Avx512f
  | Avx512bw | Avx512cd | Avx512dq | Avx512vl | Avx512ifma | Avx512vbmi | Avx512vbmi2 | Avx512vnni
  | Avx512bitalg | Avx512vpopcntdq | Avx512vp2intersect | Avx512fp16 | Avx512bf16 | Avxvnni | Avxifma | Avxvnniint8
  | Avxvnniint16 | Avxneconvert | Sha512 | Sm3 | Sm4 | Gfni | Vaes | Vpclmulqdq
  | Aes | Pclmulqdq | Sha | Adx | Rdrand | Rdseed | Sse4a | Tbm
  | Xsaveopt | Xsavec | Xsaves

record x86_feature =
  f_isa :: isa
  f_name :: string
  f_level :: level
  f_leaf :: u32
  f_subleaf :: u32
  f_register :: cpu_register
  f_bit :: nat
  f_xcr0 :: u64
  f_compiled :: bool

definition TARGET_FLOOR :: "target \<Rightarrow> string list" where
  "TARGET_FLOOR t =
     (if t_arch t = Arch_x86_64 \<and> t_os t = Windows then [''sse3'', ''cmpxchg16b'']
      else if t_arch t = Arch_x86_64 \<and> t_os t = Macos then
        [''sse3'', ''ssse3'', ''sse4.1'', ''cmpxchg16b'']
      else [])"

fun same_bytes :: "string \<Rightarrow> string \<Rightarrow> bool" where
  "same_bytes (a # as) (b # bs) = (if a \<noteq> b then False else same_bytes as bs)"
| "same_bytes as bs = True"

definition same :: "string \<Rightarrow> string \<Rightarrow> bool" where
  "same a b = (if length a \<noteq> length b then False else same_bytes a b)"

lemma same_iff [simp]: "same a b \<longleftrightarrow> a = b"
proof -
  have "length a = length b \<Longrightarrow> same_bytes a b \<longleftrightarrow> a = b"
    by (induction a b rule: list_induct2) auto
  then show ?thesis by (auto simp: same_def)
qed

definition floor_level :: "target \<Rightarrow> string \<Rightarrow> level \<Rightarrow> level" where
  "floor_level t name l = (if list_ex (\<lambda>f. same f name) (TARGET_FLOOR t) then L_X86_64 else l)"

text \<open>One row of the \<open>extensions!\<close> table.\<close>

definition row ::
  "target \<Rightarrow> isa \<Rightarrow> string \<Rightarrow> level \<Rightarrow> u32 \<Rightarrow> u32 \<Rightarrow> cpu_register \<Rightarrow> nat \<Rightarrow> u64 \<Rightarrow> x86_feature"
where
  "row t i name l leaf sub reg b xcr0 =
     \<lparr>f_isa = i, f_name = name, f_level = floor_level t name l, f_leaf = leaf, f_subleaf = sub,
      f_register = reg, f_bit = b, f_xcr0 = xcr0,
      f_compiled = (t_arch t = Arch_x86_64 \<and> t_enabled t name)\<rparr>"

definition FEATURES :: "target \<Rightarrow> x86_feature list" where
  "FEATURES t =
    [row t Sse3 ''sse3'' V2 1 0 Ecx 0 0,
     row t Ssse3 ''ssse3'' V2 1 0 Ecx 9 0,
     row t Sse41 ''sse4.1'' V2 1 0 Ecx 19 0,
     row t Sse42 ''sse4.2'' V2 1 0 Ecx 20 0,
     row t Popcnt ''popcnt'' V2 1 0 Ecx 23 0,
     row t Cmpxchg16b ''cmpxchg16b'' V2 1 0 Ecx 13 0,
     row t Avx ''avx'' V3 1 0 Ecx 28 AVX_STATE,
     row t Avx2 ''avx2'' V3 7 0 Ebx 5 AVX_STATE,
     row t Bmi1 ''bmi1'' V3 7 0 Ebx 3 0,
     row t Bmi2 ''bmi2'' V3 7 0 Ebx 8 0,
     row t F16c ''f16c'' V3 1 0 Ecx 29 AVX_STATE,
     row t Fma ''fma'' V3 1 0 Ecx 12 AVX_STATE,
     row t Lzcnt ''lzcnt'' V3 0x80000001 0 Ecx 5 0,
     row t Movbe ''movbe'' V3 1 0 Ecx 22 0,
     row t Xsave ''xsave'' V3 1 0 Ecx 26 0,
     row t Avx512f ''avx512f'' V4 7 0 Ebx 16 AVX512_STATE,
     row t Avx512bw ''avx512bw'' V4 7 0 Ebx 30 AVX512_STATE,
     row t Avx512cd ''avx512cd'' V4 7 0 Ebx 28 AVX512_STATE,
     row t Avx512dq ''avx512dq'' V4 7 0 Ebx 17 AVX512_STATE,
     row t Avx512vl ''avx512vl'' V4 7 0 Ebx 31 AVX512_STATE,
     row t Avx512ifma ''avx512ifma'' Beyond 7 0 Ebx 21 AVX512_STATE,
     row t Avx512vbmi ''avx512vbmi'' Beyond 7 0 Ecx 1 AVX512_STATE,
     row t Avx512vbmi2 ''avx512vbmi2'' Beyond 7 0 Ecx 6 AVX512_STATE,
     row t Avx512vnni ''avx512vnni'' Beyond 7 0 Ecx 11 AVX512_STATE,
     row t Avx512bitalg ''avx512bitalg'' Beyond 7 0 Ecx 12 AVX512_STATE,
     row t Avx512vpopcntdq ''avx512vpopcntdq'' Beyond 7 0 Ecx 14 AVX512_STATE,
     row t Avx512vp2intersect ''avx512vp2intersect'' Beyond 7 0 Edx 8 AVX512_STATE,
     row t Avx512fp16 ''avx512fp16'' Beyond 7 0 Edx 23 AVX512_STATE,
     row t Avx512bf16 ''avx512bf16'' Beyond 7 1 Eax 5 AVX512_STATE,
     row t Avxvnni ''avxvnni'' Beyond 7 1 Eax 4 AVX_STATE,
     row t Avxifma ''avxifma'' Beyond 7 1 Eax 23 AVX_STATE,
     row t Avxvnniint8 ''avxvnniint8'' Beyond 7 1 Edx 4 AVX_STATE,
     row t Avxvnniint16 ''avxvnniint16'' Beyond 7 1 Edx 10 AVX_STATE,
     row t Avxneconvert ''avxneconvert'' Beyond 7 1 Edx 5 AVX_STATE,
     row t Sha512 ''sha512'' Beyond 7 1 Eax 0 AVX_STATE,
     row t Sm3 ''sm3'' Beyond 7 1 Eax 1 AVX_STATE,
     row t Sm4 ''sm4'' Beyond 7 1 Eax 2 AVX_STATE,
     row t Gfni ''gfni'' Beyond 7 0 Ecx 8 0,
     row t Vaes ''vaes'' Beyond 7 0 Ecx 9 AVX_STATE,
     row t Vpclmulqdq ''vpclmulqdq'' Beyond 7 0 Ecx 10 AVX_STATE,
     row t Aes ''aes'' Beyond 1 0 Ecx 25 0,
     row t Pclmulqdq ''pclmulqdq'' Beyond 1 0 Ecx 1 0,
     row t Sha ''sha'' Beyond 7 0 Ebx 29 0,
     row t Adx ''adx'' Beyond 7 0 Ebx 19 0,
     row t Rdrand ''rdrand'' Beyond 1 0 Ecx 30 0,
     row t Rdseed ''rdseed'' Beyond 7 0 Ebx 18 0,
     row t Sse4a ''sse4a'' Beyond 0x80000001 0 Ecx 6 0,
     row t Tbm ''tbm'' Beyond 0x80000001 0 Ecx 21 0,
     row t Xsaveopt ''xsaveopt'' Beyond 0xd 1 Eax 0 0,
     row t Xsavec ''xsavec'' Beyond 0xd 1 Eax 1 0,
     row t Xsaves ''xsaves'' Beyond 0xd 1 Eax 3 0]"

definition all_isas :: "isa list" where
  "all_isas =
    [Sse3, Ssse3, Sse41, Sse42, Popcnt, Cmpxchg16b, Avx, Avx2,
     Bmi1, Bmi2, F16c, Fma, Lzcnt, Movbe, Xsave, Avx512f,
     Avx512bw, Avx512cd, Avx512dq, Avx512vl, Avx512ifma, Avx512vbmi, Avx512vbmi2, Avx512vnni,
     Avx512bitalg, Avx512vpopcntdq, Avx512vp2intersect, Avx512fp16, Avx512bf16, Avxvnni, Avxifma, Avxvnniint8,
     Avxvnniint16, Avxneconvert, Sha512, Sm3, Sm4, Gfni, Vaes, Vpclmulqdq,
     Aes, Pclmulqdq, Sha, Adx, Rdrand, Rdseed, Sse4a, Tbm,
     Xsaveopt, Xsavec, Xsaves]"

text \<open>\<open>isa as usize\<close>, and \<open>Isa::feature\<close>.\<close>

definition isa_index :: "isa \<Rightarrow> nat" where
  "isa_index i = (case position (\<lambda>j. j = i) all_isas of Some n \<Rightarrow> n | None \<Rightarrow> 0)"

definition feature_of :: "target \<Rightarrow> isa \<Rightarrow> x86_feature" where
  "feature_of t i = FEATURES t ! isa_index i"

definition isa_name :: "target \<Rightarrow> isa \<Rightarrow> string" where
  "isa_name t i = f_name (feature_of t i)"

definition isa_from_name :: "target \<Rightarrow> string \<Rightarrow> isa option" where
  "isa_from_name t name = map_option f_isa (find (\<lambda>f. f_name f = name) (FEATURES t))"

definition compiled :: "target \<Rightarrow> isa list" where
  "compiled t = map f_isa (filter f_compiled (FEATURES t))"

section \<open>Detection\<close>

definition word_of :: "cpu_register \<Rightarrow> cpuid_result \<Rightarrow> u32" where
  "word_of reg r = (case reg of Eax \<Rightarrow> r_eax r | Ebx \<Rightarrow> r_ebx r | Ecx \<Rightarrow> r_ecx r | Edx \<Rightarrow> r_edx r)"

text \<open>Whether the CPU and the operating system offer one extension: the body of the loop.\<close>

definition offered :: "machine \<Rightarrow> u32 \<Rightarrow> u32 \<Rightarrow> u64 \<Rightarrow> x86_feature \<Rightarrow> bool" where
  "offered m max_basic max_extended xcr0 f =
     (let reported = (if f_leaf f \<ge> 0x80000000 then f_leaf f \<le> max_extended
                      else f_leaf f \<le> max_basic)
      in if \<not> reported then False
         else (drop_bit (f_bit f) (word_of (f_register f) (m_cpuid m (f_leaf f) (f_subleaf f))) AND 1) = 1
              \<and> xcr0 AND f_xcr0 f = f_xcr0 f)"

fun detect_loop :: "(x86_feature \<Rightarrow> bool) \<Rightarrow> nat \<Rightarrow> x86_feature list \<Rightarrow> u64 \<Rightarrow> u64" where
  "detect_loop offers i [] seen = seen"
| "detect_loop offers i (f # fs) seen =
     detect_loop offers (i + 1) fs (if offers f then seen OR push_bit i 1 else seen)"

definition detect_all :: "target \<Rightarrow> machine \<Rightarrow> u64" where
  "detect_all t m =
     (if t_arch t \<noteq> Arch_x86_64 then 0
      else
        (let max_basic = r_eax (m_cpuid m 0 0);
             max_extended = r_eax (m_cpuid m 0x80000000 0);
             osxsave = (max_basic \<ge> 1 \<and> (drop_bit 27 (r_ecx (m_cpuid m 1 0)) AND 1) = 1);
             xcr0 = (if osxsave then m_xgetbv m else 0)
         in detect_loop (offered m max_basic max_extended xcr0) 0 (FEATURES t) 0))"

definition detected :: "target \<Rightarrow> machine \<Rightarrow> isa \<Rightarrow> bool" where
  "detected t m i = ((drop_bit (isa_index i) (detect_all t m) AND 1) = 1)"

text \<open>\<open>env\<close> is \<open>PWRS_CPU_MAX\<close>, \<open>None\<close> when it is unset or is not Unicode.\<close>

definition cap :: "string option \<Rightarrow> level" where
  "cap env =
     (case env of
        Some v \<Rightarrow> (case level_from_name v of Some l \<Rightarrow> l | None \<Rightarrow> Beyond)
      | None \<Rightarrow> Beyond)"

definition has :: "target \<Rightarrow> machine \<Rightarrow> string option \<Rightarrow> isa \<Rightarrow> bool" where
  "has t m env i = (f_level (feature_of t i) \<le> cap env \<and> detected t m i)"

text \<open>The loop of \<open>level\<close> and of \<open>arm::tier\<close>: up the rungs until one is not offered whole.\<close>

fun climb :: "('r \<Rightarrow> bool) \<Rightarrow> 'r \<Rightarrow> 'r list \<Rightarrow> 'r" where
  "climb whole reached [] = reached"
| "climb whole reached (rung # rungs) =
     (if \<not> whole rung then reached else climb whole rung rungs)"

definition cpu_level :: "target \<Rightarrow> machine \<Rightarrow> string option \<Rightarrow> level" where
  "cpu_level t m env =
     climb (\<lambda>l. list_all (\<lambda>f. has t m env (f_isa f)) (filter (\<lambda>f. f_level f = l) (FEATURES t)))
       L_X86_64 [V2, V3, V4]"

section \<open>AArch64\<close>

datatype tier = T_Neon | T_Dotprod | T_I8mm | T_Sve | T_Sve2 | T_Beyond

primrec tier_number :: "tier \<Rightarrow> nat" where
  "tier_number T_Neon = 1"
| "tier_number T_Dotprod = 2"
| "tier_number T_I8mm = 3"
| "tier_number T_Sve = 4"
| "tier_number T_Sve2 = 5"
| "tier_number T_Beyond = 6"

lemma tier_number_inj [simp]: "tier_number a = tier_number b \<longleftrightarrow> a = b"
  by (cases a; cases b) simp_all

instantiation tier :: linorder
begin

definition less_eq_tier :: "tier \<Rightarrow> tier \<Rightarrow> bool" where
  "less_eq_tier a b \<longleftrightarrow> tier_number a \<le> tier_number b"

definition less_tier :: "tier \<Rightarrow> tier \<Rightarrow> bool" where
  "less_tier a b \<longleftrightarrow> tier_number a < tier_number b"

instance
  by standard (auto simp: less_eq_tier_def less_tier_def)

end

definition tier_from_name :: "string \<Rightarrow> tier option" where
  "tier_from_name name =
     (let n = trim name in
      if n = ''neon'' then Some T_Neon
      else if n = ''dotprod'' then Some T_Dotprod
      else if n = ''i8mm'' then Some T_I8mm
      else if n = ''sve'' then Some T_Sve
      else if n = ''sve2'' then Some T_Sve2
      else if n = ''native'' \<or> n = [] then Some T_Beyond
      else None)"

primrec tier_name :: "tier \<Rightarrow> string" where
  "tier_name T_Neon = ''neon''"
| "tier_name T_Dotprod = ''dotprod''"
| "tier_name T_I8mm = ''i8mm''"
| "tier_name T_Sve = ''sve''"
| "tier_name T_Sve2 = ''sve2''"
| "tier_name T_Beyond = ''native''"

datatype arm_feature =
    A_Neon | A_Dotprod | A_I8mm | A_Sve | A_Sve2 | A_Aes | A_Sha2 | A_Sha3
  | A_Sm4 | A_Crc | A_Rdm | A_Fp16 | A_Fhm | A_Bf16 | A_F32mm | A_F64mm
  | A_Sve2Aes | A_Sve2Bitperm | A_Sve2Sha3 | A_Sve2Sm4 | A_Lse | A_Rcpc | A_Fcma | A_Jsconv
  | A_Frintts | A_Dit | A_Rand

record arm_info =
  a_feature :: arm_feature
  a_name :: string
  a_tier :: tier
  a_compiled :: bool
  a_baseline :: bool

record arm_report =
  hwcap :: u64
  hwcap2 :: u64
  half :: bool
  on_windows :: "nat list"
  on_macos :: "string list list"

definition MACOS_BASELINE :: "string list" where
  "MACOS_BASELINE =
     [''aes'', ''crc'', ''dit'', ''dotprod'', ''fcma'', ''fhm'', ''fp16'', ''frintts'', ''jsconv'',
      ''lse'', ''neon'', ''rcpc'', ''rdm'', ''sha2'', ''sha3'']"

definition in_baseline :: "os \<Rightarrow> string \<Rightarrow> bool" where
  "in_baseline s name =
     (if same name ''neon'' then True
      else if s \<noteq> Macos then False
      else list_ex (\<lambda>b. same b name) MACOS_BASELINE)"

definition arm_row :: "target \<Rightarrow> arm_feature \<Rightarrow> string \<Rightarrow> tier \<Rightarrow> arm_info" where
  "arm_row t f name tr =
     \<lparr>a_feature = f, a_name = name, a_tier = tr,
      a_compiled = (t_arch t = Arch_aarch64 \<and> t_enabled t name),
      a_baseline = (t_arch t = Arch_aarch64 \<and> in_baseline (t_os t) name)\<rparr>"

definition ARM_FEATURES :: "target \<Rightarrow> arm_info list" where
  "ARM_FEATURES t =
    [arm_row t A_Neon ''neon'' T_Neon,
     arm_row t A_Dotprod ''dotprod'' T_Dotprod,
     arm_row t A_I8mm ''i8mm'' T_I8mm,
     arm_row t A_Sve ''sve'' T_Sve,
     arm_row t A_Sve2 ''sve2'' T_Sve2,
     arm_row t A_Aes ''aes'' T_Beyond,
     arm_row t A_Sha2 ''sha2'' T_Beyond,
     arm_row t A_Sha3 ''sha3'' T_Beyond,
     arm_row t A_Sm4 ''sm4'' T_Beyond,
     arm_row t A_Crc ''crc'' T_Beyond,
     arm_row t A_Rdm ''rdm'' T_Beyond,
     arm_row t A_Fp16 ''fp16'' T_Beyond,
     arm_row t A_Fhm ''fhm'' T_Beyond,
     arm_row t A_Bf16 ''bf16'' T_Beyond,
     arm_row t A_F32mm ''f32mm'' T_Beyond,
     arm_row t A_F64mm ''f64mm'' T_Beyond,
     arm_row t A_Sve2Aes ''sve2-aes'' T_Beyond,
     arm_row t A_Sve2Bitperm ''sve2-bitperm'' T_Beyond,
     arm_row t A_Sve2Sha3 ''sve2-sha3'' T_Beyond,
     arm_row t A_Sve2Sm4 ''sve2-sm4'' T_Beyond,
     arm_row t A_Lse ''lse'' T_Beyond,
     arm_row t A_Rcpc ''rcpc'' T_Beyond,
     arm_row t A_Fcma ''fcma'' T_Beyond,
     arm_row t A_Jsconv ''jsconv'' T_Beyond,
     arm_row t A_Frintts ''frintts'' T_Beyond,
     arm_row t A_Dit ''dit'' T_Beyond,
     arm_row t A_Rand ''rand'' T_Beyond]"

definition report :: "nat list \<Rightarrow> nat list \<Rightarrow> bool \<Rightarrow> nat list \<Rightarrow> string list list \<Rightarrow> arm_report" where
  "report hw hw2 hf win mac =
     \<lparr>hwcap = fold (\<lambda>b w. w OR push_bit b 1) hw 0, hwcap2 = fold (\<lambda>b w. w OR push_bit b 1) hw2 0,
      half = hf, on_windows = win, on_macos = mac\<rparr>"

definition REPORTS :: "arm_report list" where
  "REPORTS =
    [report [0, 1] [] True [19]
       [[''hw.optional.AdvSIMD'']],
     report [20] [] False [43]
       [[''hw.optional.arm.FEAT_DotProd'']],
     report [] [13] False [66]
       [[''hw.optional.arm.FEAT_I8MM'']],
     report [22, 0, 1] [] True [46]
       [],
     report [22, 0, 1] [1] True [47]
       [],
     report [3, 0, 1] [] True [30]
       [[''hw.optional.arm.FEAT_AES''], [''hw.optional.arm.FEAT_PMULL'']],
     report [5, 6, 0, 1] [] True [30]
       [[''hw.optional.arm.FEAT_SHA1''], [''hw.optional.arm.FEAT_SHA256''], [''hw.optional.AdvSIMD'']],
     report [21, 17, 5, 6, 0, 1] [] True [64, 65]
       [[''hw.optional.arm.FEAT_SHA512''], [''hw.optional.arm.FEAT_SHA3''], [''hw.optional.AdvSIMD'']],
     report [18, 19, 0, 1] [] True []
       [],
     report [7] [] False [31]
       [[''hw.optional.armv8_crc32'', ''hw.optional.arm.FEAT_CRC32'']],
     report [12] [] False [43]
       [[''hw.optional.arm.FEAT_RDM'']],
     report [0, 9] [] False [67]
       [[''hw.optional.arm.FEAT_FP16'']],
     report [9, 23] [] False []
       [[''hw.optional.arm.FEAT_FHM'']],
     report [] [14] False [68]
       [[''hw.optional.arm.FEAT_BF16'']],
     report [22, 0, 1] [10] True [58]
       [],
     report [22, 0, 1] [11] True [59]
       [],
     report [22, 0, 1, 3] [1, 2, 3] True [49, 50]
       [],
     report [] [4, 1] False [51]
       [],
     report [22, 0, 1, 21, 17, 5, 6] [1, 5] True [55]
       [],
     report [22, 0, 1, 18, 19] [1, 6] True [56]
       [],
     report [8] [] False [34]
       [[''hw.optional.arm.FEAT_LSE'']],
     report [15] [] False [45]
       [[''hw.optional.arm.FEAT_LRCPC'']],
     report [14, 0, 1] [] True []
       [[''hw.optional.arm.FEAT_FCMA'']],
     report [13, 0] [] False [44]
       [[''hw.optional.arm.FEAT_JSCVT'']],
     report [] [8] False []
       [[''hw.optional.arm.FEAT_FRINTTS'']],
     report [24] [] False []
       [[''hw.optional.arm.FEAT_DIT'']],
     report [] [16] False []
       []]"

definition all_arm :: "arm_feature list" where
  "all_arm =
    [A_Neon, A_Dotprod, A_I8mm, A_Sve, A_Sve2, A_Aes, A_Sha2, A_Sha3,
     A_Sm4, A_Crc, A_Rdm, A_Fp16, A_Fhm, A_Bf16, A_F32mm, A_F64mm,
     A_Sve2Aes, A_Sve2Bitperm, A_Sve2Sha3, A_Sve2Sm4, A_Lse, A_Rcpc, A_Fcma, A_Jsconv,
     A_Frintts, A_Dit, A_Rand]"

definition arm_index :: "arm_feature \<Rightarrow> nat" where
  "arm_index f = (case position (\<lambda>g. g = f) all_arm of Some n \<Rightarrow> n | None \<Rightarrow> 0)"

definition arm_info_of :: "target \<Rightarrow> arm_feature \<Rightarrow> arm_info" where
  "arm_info_of t f = ARM_FEATURES t ! arm_index f"

definition arm_name :: "target \<Rightarrow> arm_feature \<Rightarrow> string" where
  "arm_name t f = a_name (arm_info_of t f)"

definition arm_from_name :: "target \<Rightarrow> string \<Rightarrow> arm_feature option" where
  "arm_from_name t name = map_option a_feature (find (\<lambda>f. a_name f = name) (ARM_FEATURES t))"

definition arm_compiled :: "target \<Rightarrow> arm_feature list" where
  "arm_compiled t = map a_feature (filter a_compiled (ARM_FEATURES t))"

text \<open>\<open>arm::detect_all\<close>, whose macro tests one feature after another.\<close>

fun arm_detect_loop :: "(string \<Rightarrow> bool) \<Rightarrow> nat \<Rightarrow> arm_info list \<Rightarrow> u64 \<Rightarrow> u64" where
  "arm_detect_loop reported i [] seen = seen"
| "arm_detect_loop reported i (f # fs) seen =
     arm_detect_loop reported (i + 1) fs
       (if reported (a_name f) then seen OR push_bit i 1 else seen)"

definition arm_detect_all :: "target \<Rightarrow> machine \<Rightarrow> u64" where
  "arm_detect_all t m =
     (if t_arch t \<noteq> Arch_aarch64 then 0 else arm_detect_loop (m_arm m) 0 (ARM_FEATURES t) 0)"

definition arm_detected :: "target \<Rightarrow> machine \<Rightarrow> arm_feature \<Rightarrow> bool" where
  "arm_detected t m f = ((drop_bit (arm_index f) (arm_detect_all t m) AND 1) = 1)"

definition arm_cap :: "string option \<Rightarrow> tier" where
  "arm_cap env =
     (case env of
        Some v \<Rightarrow> (case tier_from_name v of Some l \<Rightarrow> l | None \<Rightarrow> T_Beyond)
      | None \<Rightarrow> T_Beyond)"

definition arm_has :: "target \<Rightarrow> machine \<Rightarrow> string option \<Rightarrow> arm_feature \<Rightarrow> bool" where
  "arm_has t m env f = (a_tier (arm_info_of t f) \<le> arm_cap env \<and> arm_detected t m f)"

definition arm_tier :: "target \<Rightarrow> machine \<Rightarrow> string option \<Rightarrow> tier" where
  "arm_tier t m env =
     climb (\<lambda>l. list_all (\<lambda>f. arm_has t m env (a_feature f)) (filter (\<lambda>f. a_tier f = l) (ARM_FEATURES t)))
       T_Neon [T_Dotprod, T_I8mm, T_Sve, T_Sve2]"

section \<open>Queries\<close>

text \<open>The numbers of \<open>cpu_query\<close> in \<open>crates/pwrs-sys/src/lib.rs\<close>.\<close>

definition Q_LEVEL :: u32 where "Q_LEVEL = 0"
definition Q_ARM_TIER :: u32 where "Q_ARM_TIER = 1"
definition Q_CAP :: u32 where "Q_CAP = 2"
definition Q_HAS :: u32 where "Q_HAS = 3"
definition Q_DETECTED :: u32 where "Q_DETECTED = 4"
definition Q_NONE :: int where "Q_NONE = -1"
definition Q_UNKNOWN_QUESTION :: int where "Q_UNKNOWN_QUESTION = -2"
definition Q_TOO_LONG :: int where "Q_TOO_LONG = -3"

lemmas questions = Q_LEVEL_def Q_ARM_TIER_def Q_CAP_def Q_HAS_def Q_DETECTED_def
lemmas statuses = Q_NONE_def Q_UNKNOWN_QUESTION_def Q_TOO_LONG_def

text \<open>The closure \<open>write\<close> of \<open>query\<close>: what it returns and what it leaves in \<open>out\<close>.\<close>

definition write_name :: "string \<Rightarrow> string \<Rightarrow> int \<times> string" where
  "write_name txt out =
     (if length txt \<le> length out then (int (length txt), txt @ drop (length txt) out)
      else (Q_TOO_LONG, out))"

definition query :: "target \<Rightarrow> machine \<Rightarrow> string option \<Rightarrow> u32 \<Rightarrow> string \<Rightarrow> string \<Rightarrow> int \<times> string" where
  "query t m env question name out =
     (let x86 = (t_arch t = Arch_x86_64); aarch64 = (t_arch t = Arch_aarch64) in
      if question = Q_LEVEL \<and> x86 then write_name (level_name (cpu_level t m env)) out
      else if question = Q_ARM_TIER \<and> aarch64 then write_name (tier_name (arm_tier t m env)) out
      else if question = Q_CAP \<and> x86 then write_name (level_name (cap env)) out
      else if question = Q_CAP \<and> aarch64 then write_name (tier_name (arm_cap env)) out
      else if question \<in> {Q_LEVEL, Q_ARM_TIER, Q_CAP} then (Q_NONE, out)
      else if question \<in> {Q_HAS, Q_DETECTED} then
        (let capped = (question = Q_HAS) in
         if x86 then
           (case isa_from_name t name of
              Some i \<Rightarrow> (of_bool (if capped then has t m env i else detected t m i), out)
            | None \<Rightarrow> (Q_NONE, out))
         else if aarch64 then
           (case arm_from_name t name of
              Some f \<Rightarrow> (of_bool (if capped then arm_has t m env f else arm_detected t m f), out)
            | None \<Rightarrow> (Q_NONE, out))
         else (Q_NONE, out))
      else (Q_UNKNOWN_QUESTION, out))"

text \<open>
  \<open>query_raw\<close>: a null pointer is \<open>None\<close>, and the bytes it points to are \<open>Some\<close>.
\<close>

definition query_raw ::
  "target \<Rightarrow> machine \<Rightarrow> string option \<Rightarrow> u32 \<Rightarrow> string option \<Rightarrow> string option \<Rightarrow> int \<times> string"
where
  "query_raw t m env question name out =
     (let n = (case name of None \<Rightarrow> [] | Some s \<Rightarrow> s);
          b = (case out of None \<Rightarrow> [] | Some s \<Rightarrow> s)
      in if utf8_ok n then query t m env question n b else (Q_NONE, b))"

end
