(* ===== verification/Cpu_Laws.thy ===== *)
theory Cpu_Laws
  imports Cpu_Features
begin

unbundle bit_operations_syntax

text \<open>
  What \<open>crates/pwrs/src/cpu.rs\<close> promises of detection: an extension is detected exactly when
  CPUID reports it and the operating system enables its state, the cap withholds exactly what is
  above it, and the level or tier reached is the highest whose every feature, and every lower
  one's, a module may use.
\<close>

section \<open>Ladders\<close>

text \<open>
  What the level ladder of x86-64 and the tier ladder of AArch64 share: rungs in ascending order
  above the lowest, features on the rungs, every rung above the lowest having one, and a cap
  that withholds the features above it.
\<close>

lemma climb_in: "climb whole r rungs = r \<or> climb whole r rungs \<in> set rungs"
  by (induction whole r rungs rule: climb.induct) auto

lemma climb_reaches:
  fixes l :: "'r :: linorder"
  assumes "sorted_wrt (<) (r # rungs)" and "l \<in> set (r # rungs)"
  shows "l \<le> climb whole r rungs \<longleftrightarrow> (\<forall>k \<in> set rungs. k \<le> l \<longrightarrow> whole k)"
  using assms
proof (induction whole r rungs rule: climb.induct)
  case (2 whole r n rungs)
  show ?case
  proof (cases "l = r")
    case True
    with "2.prems" climb_in [of whole n rungs] show ?thesis by fastforce
  next
    case False
    with "2.prems" have l: "l \<in> set (n # rungs)" "n \<le> l" "r < l" by auto
    show ?thesis
    proof (cases "whole n")
      case True
      with "2.IH" "2.prems"(1) l(1) show ?thesis by auto
    next
      case False
      with l show ?thesis by auto
    qed
  qed
qed auto

locale ladder =
  fixes features :: "'f list"
    and rung :: "'f \<Rightarrow> 'r :: linorder"
    and usable :: "'f \<Rightarrow> bool"
    and lowest :: 'r
    and rungs :: "'r list"
    and cap_of :: 'r
  assumes ascending: "sorted_wrt (<) (lowest # rungs)"
    and inhabited: "r \<in> set rungs \<Longrightarrow> \<exists>f \<in> set features. rung f = r"
    and capped: "f \<in> set features \<Longrightarrow> usable f \<Longrightarrow> rung f \<le> cap_of"
    and cap_lowest: "lowest \<le> cap_of"
begin

definition reached :: 'r where
  "reached = climb (\<lambda>r. list_all usable (filter (\<lambda>f. rung f = r) features)) lowest rungs"

lemma reached_rung: "reached = lowest \<or> reached \<in> set rungs"
  using climb_in by (simp add: reached_def)

lemma reaches:
  assumes "l \<in> set (lowest # rungs)"
  shows "l \<le> reached \<longleftrightarrow>
    (\<forall>f \<in> set features. rung f \<in> set rungs \<longrightarrow> rung f \<le> l \<longrightarrow> usable f)"
  unfolding reached_def climb_reaches [OF ascending assms]
  by (auto simp: list_all_iff)

lemma reached_capped: "reached \<le> cap_of"
proof (cases "reached = lowest")
  case True
  with cap_lowest show ?thesis by simp
next
  case False
  with reached_rung obtain f where f: "f \<in> set features" "rung f = reached"
    using inhabited by blast
  with reaches [of reached] False reached_rung have "usable f" by auto
  with capped f show ?thesis by metis
qed

end

section \<open>The tables\<close>

lemma isas_of_features: "map f_isa (FEATURES t) = all_isas"
  by (simp add: FEATURES_def all_isas_def row_def)

lemma isas_distinct: "distinct all_isas"
  by (simp add: all_isas_def)

lemma isas_all: "i \<in> set all_isas"
  by (cases i) (simp_all add: all_isas_def)

lemma index_in_list:
  assumes "x \<in> set xs"
  shows "\<exists>n. position (\<lambda>y. y = x) xs = Some n \<and> n < length xs \<and> xs ! n = x"
proof (cases "position (\<lambda>y. y = x) xs")
  case None
  with assms show ?thesis by (auto simp: position_None)
next
  case (Some n)
  with position_less [OF Some] position_holds [OF Some] show ?thesis by auto
qed

lemma isa_index_less: "isa_index i < length (FEATURES t)"
  and isa_of_feature [simp]: "f_isa (feature_of t i) = i"
proof -
  from index_in_list [OF isas_all] obtain n where
    n: "position (\<lambda>j. j = i) all_isas = Some n" "n < length all_isas" "all_isas ! n = i" by blast
  have l: "length all_isas = length (FEATURES t)"
    using arg_cong [OF isas_of_features, of length] by simp
  show "isa_index i < length (FEATURES t)" using n l by (simp add: isa_index_def)
  show "f_isa (feature_of t i) = i"
    using n l isas_of_features [of t] by (metis feature_of_def isa_index_def nth_map option.simps(5))
qed

lemma feature_in: "feature_of t i \<in> set (FEATURES t)"
  using isa_index_less by (simp add: feature_of_def)

lemma index_of_nth:
  assumes "distinct xs" and "k < length xs"
  shows "position (\<lambda>y. y = xs ! k) xs = Some k"
  using assms by (auto simp: position_Some nth_eq_iff_index_eq)

lemma feature_of_isa:
  assumes "f \<in> set (FEATURES t)"
  shows "feature_of t (f_isa f) = f"
proof -
  from assms obtain k where k: "k < length (FEATURES t)" "FEATURES t ! k = f"
    by (auto simp: in_set_conv_nth)
  with isas_of_features [of t] have "k < length all_isas" "all_isas ! k = f_isa f"
    by (metis length_map, metis nth_map)
  with index_of_nth [OF isas_distinct] k show ?thesis
    by (fastforce simp: feature_of_def isa_index_def)
qed

lemma names_distinct: "distinct (map f_name (FEATURES t))"
  by (simp add: FEATURES_def row_def)

text \<open>Detection sets a bit for each extension offered.\<close>

lemma bit_detect_loop:
  "n < 64 \<Longrightarrow> bit (detect_loop offers i fs seen) n \<longleftrightarrow>
     bit seen n \<or> (\<exists>k < length fs. n = i + k \<and> offers (fs ! k))"
proof (induction offers i fs seen rule: detect_loop.induct)
  case (2 offers i f fs seen)
  have "bit (push_bit i 1 :: u64) n \<longleftrightarrow> n = i"
    using 2(2) by (auto simp: bit_simps)
  then have "bit (if offers f then seen OR push_bit i 1 else seen) n \<longleftrightarrow> bit seen n \<or> n = i \<and> offers f"
    by (simp add: bit_or_iff)
  with 2 show ?case by (auto simp: less_Suc_eq_0_disj)
qed simp

lemma tested_bit: "(drop_bit n w AND 1) = 1 \<longleftrightarrow> bit w n"
  for w :: "'a :: len word"
  by (simp add: and_one_eq bit_iff_odd_drop_bit odd_iff_mod_2_eq_one)

definition os_state :: "machine \<Rightarrow> u64" where
  "os_state m =
     (if 1 \<le> r_eax (m_cpuid m 0 0) \<and> bit (r_ecx (m_cpuid m 1 0)) 27 then m_xgetbv m else 0)"

text \<open>
  An x86-64 extension is detected exactly when its CPUID leaf is one the CPU has, the bit of
  its row is set in the register its row names, and the operating system has enabled every
  state component the row needs, which counts as none when CPUID does not report OSXSAVE.
\<close>

lemma detected_iff:
  "detected t m i \<longleftrightarrow>
     t_arch t = Arch_x86_64
     \<and> (let f = feature_of t i in
         f_leaf f \<le> r_eax (m_cpuid m (if 0x80000000 \<le> f_leaf f then 0x80000000 else 0) 0)
         \<and> bit (word_of (f_register f) (m_cpuid m (f_leaf f) (f_subleaf f))) (f_bit f)
         \<and> os_state m AND f_xcr0 f = f_xcr0 f)"
proof -
  have i: "isa_index i < length (FEATURES t)" by (rule isa_index_less)
  moreover have "length (FEATURES t) \<le> 64" by (simp add: FEATURES_def)
  ultimately have "isa_index i < 64" by simp
  with i show ?thesis
    unfolding detected_def detect_all_def tested_bit
    by (auto simp: bit_detect_loop Let_def offered_def tested_bit os_state_def feature_of_def
        split: if_splits)
qed

lemma level_order [simp]:
  "a \<le> b \<longleftrightarrow> level_number a \<le> level_number b" "a < b \<longleftrightarrow> level_number a < level_number b"
  for a b :: level
  by (simp_all add: less_eq_level_def less_level_def)

lemma tier_order [simp]:
  "a \<le> b \<longleftrightarrow> tier_number a \<le> tier_number b" "a < b \<longleftrightarrow> tier_number a < tier_number b"
  for a b :: tier
  by (simp_all add: less_eq_tier_def less_tier_def)

lemma levels_inhabited:
  "r \<in> {V2, V3, V4} \<Longrightarrow> \<exists>f \<in> set (FEATURES t). f_level f = r"
  by (auto simp: FEATURES_def row_def floor_level_def TARGET_FLOOR_def)

interpretation levels: ladder "FEATURES t" f_level "\<lambda>f. has t m env (f_isa f)" L_X86_64
  "[V2, V3, V4]" "cap env" for t m env
proof
  fix r assume "r \<in> set [V2, V3, V4]"
  then show "\<exists>f \<in> set (FEATURES t). f_level f = r" using levels_inhabited by simp
next
  fix f assume "f \<in> set (FEATURES t)" and "has t m env (f_isa f)"
  then show "f_level f \<le> cap env" by (simp only: has_def feature_of_isa)
next
  show "L_X86_64 \<le> cap env" by (cases "cap env") simp_all
qed simp

lemma cpu_level_reached: "cpu_level t m env = levels.reached t m env"
  by (simp add: cpu_level_def levels.reached_def)

text \<open>
  C8: \<open>level\<close> is the highest level all of whose extensions, and every lower level's above the
  first, a module may use, and it never exceeds the cap.
\<close>

theorem level_is_highest:
  "cpu_level t m env \<le> cap env \<and> cpu_level t m env \<noteq> Beyond
   \<and> {l. l \<le> cpu_level t m env} =
      {l. l \<noteq> Beyond \<and> (\<forall>f \<in> set (FEATURES t). f_level f \<in> {L_X86_64<..l} \<longrightarrow> has t m env (f_isa f))}"
proof -
  have top: "cpu_level t m env \<noteq> Beyond"
    using levels.reached_rung [of t m env] by (auto simp: cpu_level_reached)
  have "l \<le> cpu_level t m env \<longleftrightarrow>
      (\<forall>f \<in> set (FEATURES t). f_level f \<in> {L_X86_64<..l} \<longrightarrow> has t m env (f_isa f))"
    if "l \<noteq> Beyond" for l
  proof -
    have "l \<in> set (L_X86_64 # [V2, V3, V4])" using that by (cases l) simp_all
    moreover have "k \<in> set [V2, V3, V4] \<and> k \<le> l \<longleftrightarrow> k \<in> {L_X86_64<..l}" for k
      using that by (cases k; cases l) simp_all
    ultimately show ?thesis
      using levels.reaches [of l t m env] unfolding cpu_level_reached by blast
  qed
  moreover have "\<not> Beyond \<le> cpu_level t m env" using top by (cases "cpu_level t m env") simp_all
  ultimately have "{l. l \<le> cpu_level t m env} =
      {l. l \<noteq> Beyond \<and> (\<forall>f \<in> set (FEATURES t). f_level f \<in> {L_X86_64<..l} \<longrightarrow> has t m env (f_isa f))}"
    by (intro Collect_cong) metis
  moreover have "cpu_level t m env \<le> cap env"
    using levels.reached_capped [of t m env] by (simp only: cpu_level_reached)
  ultimately show ?thesis using top by (intro conjI)
qed

lemma bits_fit: "f \<in> set (FEATURES t) \<Longrightarrow> f_bit f < 32"
  by (auto simp: FEATURES_def row_def)

text \<open>A machine with every extension, under the cap \<open>x86-64-v3\<close>, reaches that level.\<close>

lemma level_is_highest_witness:
  "let t = \<lparr>t_arch = Arch_x86_64, t_os = Linux, t_enabled = \<lambda>_. False\<rparr>;
       m = \<lparr>m_cpuid = \<lambda>_ _. \<lparr>r_eax = -1, r_ebx = -1, r_ecx = -1, r_edx = -1\<rparr>, m_xgetbv = -1,
            m_arm = \<lambda>_. False\<rparr>
   in cpu_level t m (Some ''x86-64-v3'') = V3 \<and> V3 \<le> cap (Some ''x86-64-v3'')"
proof -
  let ?t = "\<lparr>t_arch = Arch_x86_64, t_os = Linux, t_enabled = \<lambda>_. False\<rparr>"
  let ?m = "\<lparr>m_cpuid = \<lambda>_ _. \<lparr>r_eax = -1, r_ebx = -1, r_ecx = -1, r_edx = -1\<rparr>, m_xgetbv = -1,
            m_arm = \<lambda>_. False\<rparr>"
  let ?e = "Some ''x86-64-v3''"
  have cap: "cap ?e = V3" by code_simp
  have "has ?t ?m ?e (f_isa f)" if "f \<in> set (FEATURES ?t)" "f_level f \<in> {L_X86_64<..V3}" for f
    using that feature_of_isa [OF that(1)] bits_fit [OF that(1)]
    by (auto simp: has_def cap detected_iff Let_def os_state_def word_of_def split: cpu_register.split)
  with level_is_highest [of ?t ?m ?e] have "V3 \<le> cpu_level ?t ?m ?e" "cpu_level ?t ?m ?e \<le> V3"
    unfolding cap by blast+
  then have "cpu_level ?t ?m ?e = V3" by (cases "cpu_level ?t ?m ?e") simp_all
  then show ?thesis by (simp add: cap)
qed

section \<open>AArch64\<close>

lemma arm_of_features: "map a_feature (ARM_FEATURES t) = all_arm"
  by (simp add: ARM_FEATURES_def all_arm_def arm_row_def)

lemma arm_distinct: "distinct all_arm"
  by (simp add: all_arm_def)

lemma arm_all: "f \<in> set all_arm"
  by (cases f) (simp_all add: all_arm_def)

lemma arm_index_less: "arm_index f < length (ARM_FEATURES t)"
  and arm_info_feature [simp]: "a_feature (arm_info_of t f) = f"
proof -
  from index_in_list [OF arm_all] obtain n where
    n: "position (\<lambda>j. j = f) all_arm = Some n" "n < length all_arm" "all_arm ! n = f" by blast
  have l: "length all_arm = length (ARM_FEATURES t)"
    using arg_cong [OF arm_of_features, of length] by simp
  show "arm_index f < length (ARM_FEATURES t)" using n l by (simp add: arm_index_def)
  show "a_feature (arm_info_of t f) = f"
    using n l arm_of_features [of t] by (metis arm_info_of_def arm_index_def nth_map option.simps(5))
qed

lemma arm_info_of_feature:
  assumes "f \<in> set (ARM_FEATURES t)"
  shows "arm_info_of t (a_feature f) = f"
proof -
  from assms obtain k where k: "k < length (ARM_FEATURES t)" "ARM_FEATURES t ! k = f"
    by (auto simp: in_set_conv_nth)
  with arm_of_features [of t] have "k < length all_arm" "all_arm ! k = a_feature f"
    by (metis length_map, metis nth_map)
  with index_of_nth [OF arm_distinct] k show ?thesis
    by (fastforce simp: arm_info_of_def arm_index_def)
qed

lemma bit_arm_detect_loop:
  "n < 64 \<Longrightarrow> bit (arm_detect_loop reported i fs seen) n \<longleftrightarrow>
     bit seen n \<or> (\<exists>k < length fs. n = i + k \<and> reported (a_name (fs ! k)))"
proof (induction reported i fs seen rule: arm_detect_loop.induct)
  case (2 reported i f fs seen)
  have "bit (push_bit i 1 :: u64) n \<longleftrightarrow> n = i"
    using 2(2) by (auto simp: bit_simps)
  then have "bit (if reported (a_name f) then seen OR push_bit i 1 else seen) n
      \<longleftrightarrow> bit seen n \<or> n = i \<and> reported (a_name f)"
    by (simp add: bit_or_iff)
  with 2 show ?case by (auto simp: less_Suc_eq_0_disj)
qed simp

lemma arm_detected_iff:
  "arm_detected t m f \<longleftrightarrow> t_arch t = Arch_aarch64 \<and> m_arm m (arm_name t f)"
proof -
  have i: "arm_index f < length (ARM_FEATURES t)" by (rule arm_index_less)
  moreover have "length (ARM_FEATURES t) \<le> 64" by (simp add: ARM_FEATURES_def)
  ultimately have "arm_index f < 64" by simp
  with i show ?thesis
    unfolding arm_detected_def arm_detect_all_def tested_bit
    by (auto simp: bit_arm_detect_loop arm_name_def arm_info_of_def)
qed

lemma tiers_inhabited:
  "r \<in> {T_Dotprod, T_I8mm, T_Sve, T_Sve2} \<Longrightarrow> \<exists>f \<in> set (ARM_FEATURES t). a_tier f = r"
  by (auto simp: ARM_FEATURES_def arm_row_def)

interpretation tiers: ladder "ARM_FEATURES t" a_tier "\<lambda>f. arm_has t m env (a_feature f)" T_Neon
  "[T_Dotprod, T_I8mm, T_Sve, T_Sve2]" "arm_cap env" for t m env
proof
  fix r assume "r \<in> set [T_Dotprod, T_I8mm, T_Sve, T_Sve2]"
  then show "\<exists>f \<in> set (ARM_FEATURES t). a_tier f = r" using tiers_inhabited by simp
next
  fix f assume "f \<in> set (ARM_FEATURES t)" and "arm_has t m env (a_feature f)"
  then show "a_tier f \<le> arm_cap env" by (simp only: arm_has_def arm_info_of_feature)
next
  show "T_Neon \<le> arm_cap env" by (cases "arm_cap env") simp_all
qed simp

lemma arm_tier_reached: "arm_tier t m env = tiers.reached t m env"
  by (simp add: arm_tier_def tiers.reached_def)

text \<open>
  On AArch64 \<open>tier\<close> is the highest tier all of whose features, and every lower tier's above
  \<open>neon\<close>, the operating system reports, and it never exceeds the cap.
\<close>

lemma tier_is_highest:
  "arm_tier t m env \<le> arm_cap env \<and> arm_tier t m env \<noteq> T_Beyond
   \<and> {l. l \<le> arm_tier t m env} =
      {l. l \<noteq> T_Beyond
        \<and> (\<forall>f \<in> set (ARM_FEATURES t). a_tier f \<in> {T_Neon<..l} \<longrightarrow> arm_has t m env (a_feature f))}"
proof -
  have top: "arm_tier t m env \<noteq> T_Beyond"
    using tiers.reached_rung [of t m env] by (auto simp: arm_tier_reached)
  have "l \<le> arm_tier t m env \<longleftrightarrow>
      (\<forall>f \<in> set (ARM_FEATURES t). a_tier f \<in> {T_Neon<..l} \<longrightarrow> arm_has t m env (a_feature f))"
    if "l \<noteq> T_Beyond" for l
  proof -
    have "l \<in> set (T_Neon # [T_Dotprod, T_I8mm, T_Sve, T_Sve2])" using that by (cases l) simp_all
    moreover have "k \<in> set [T_Dotprod, T_I8mm, T_Sve, T_Sve2] \<and> k \<le> l \<longleftrightarrow> k \<in> {T_Neon<..l}" for k
      using that by (cases k; cases l) simp_all
    ultimately show ?thesis
      using tiers.reaches [of l t m env] unfolding arm_tier_reached by blast
  qed
  moreover have "\<not> T_Beyond \<le> arm_tier t m env" using top by (cases "arm_tier t m env") simp_all
  ultimately have "{l. l \<le> arm_tier t m env} =
      {l. l \<noteq> T_Beyond
        \<and> (\<forall>f \<in> set (ARM_FEATURES t). a_tier f \<in> {T_Neon<..l} \<longrightarrow> arm_has t m env (a_feature f))}"
    by (intro Collect_cong) metis
  moreover have "arm_tier t m env \<le> arm_cap env"
    using tiers.reached_capped [of t m env] by (simp only: arm_tier_reached)
  ultimately show ?thesis using top by (intro conjI)
qed

text \<open>A machine that reports \<open>dotprod\<close> and \<open>i8mm\<close>, but not \<open>sve\<close>, reaches \<open>i8mm\<close>.\<close>

lemma tier_is_highest_witness:
  "let t = \<lparr>t_arch = Arch_aarch64, t_os = Linux, t_enabled = \<lambda>_. False\<rparr>;
       m = \<lparr>m_cpuid = \<lambda>_ _. \<lparr>r_eax = 0, r_ebx = 0, r_ecx = 0, r_edx = 0\<rparr>, m_xgetbv = 0,
            m_arm = \<lambda>n. n \<in> {''neon'', ''dotprod'', ''i8mm''}\<rparr>
   in T_I8mm \<le> arm_tier t m None \<and> \<not> T_Sve \<le> arm_tier t m None"
proof -
  let ?t = "\<lparr>t_arch = Arch_aarch64, t_os = Linux, t_enabled = \<lambda>_. False\<rparr>"
  let ?m = "\<lparr>m_cpuid = \<lambda>_ _. \<lparr>r_eax = 0, r_ebx = 0, r_ecx = 0, r_edx = 0\<rparr>, m_xgetbv = 0,
            m_arm = \<lambda>n. n \<in> {''neon'', ''dotprod'', ''i8mm''}\<rparr>"
  have has: "arm_has ?t ?m None (a_feature f) \<longleftrightarrow> a_name f \<in> {''neon'', ''dotprod'', ''i8mm''}"
    if "f \<in> set (ARM_FEATURES ?t)" for f
    using arm_info_of_feature [OF that]
    by (cases "a_tier f") (simp_all add: arm_has_def arm_detected_iff arm_name_def arm_cap_def)
  have "T_I8mm \<in> {l. l \<noteq> T_Beyond \<and> (\<forall>f \<in> set (ARM_FEATURES ?t). a_tier f \<in> {T_Neon<..l}
      \<longrightarrow> arm_has ?t ?m None (a_feature f))}"
    using has by (auto simp: ARM_FEATURES_def arm_row_def)
  moreover have "T_Sve \<notin> {l. l \<noteq> T_Beyond \<and> (\<forall>f \<in> set (ARM_FEATURES ?t). a_tier f \<in> {T_Neon<..l}
      \<longrightarrow> arm_has ?t ?m None (a_feature f))}"
    using has by (auto simp: ARM_FEATURES_def arm_row_def)
  ultimately show ?thesis
    using tier_is_highest [of ?t ?m None] unfolding Let_def by blast
qed

section \<open>Queries\<close>

lemma find_named:
  "x \<in> set xs \<Longrightarrow> distinct (map g xs) \<Longrightarrow> find (\<lambda>y. g y = g x) xs = Some x"
  by (induction xs) (auto simp: image_iff)

lemma isa_from_its_name: "isa_from_name t (isa_name t i) = Some i"
  using find_named [OF feature_in names_distinct, of t i]
  by (simp add: isa_from_name_def isa_name_def)

lemma level_name_read: "level_from_name (level_name l) = Some l"
proof -
  have "level_from_name ''x86-64'' = Some L_X86_64" "level_from_name ''x86-64-v2'' = Some V2"
    "level_from_name ''x86-64-v3'' = Some V3" "level_from_name ''x86-64-v4'' = Some V4"
    "level_from_name ''native'' = Some Beyond" by code_simp+
  then show ?thesis by (cases l) simp_all
qed

lemma level_name_length: "length (level_name l) \<le> 9"
  by (cases l) simp_all

lemma write_name_fits:
  "length txt \<le> length out \<Longrightarrow> write_name txt out = (n, out') \<Longrightarrow>
     take (nat n) out' = txt \<and> length out' = length out"
  by (auto simp: write_name_def)

text \<open>
  What hand-written C# reads through \<open>pwrs_cpu_query\<close> on x86-64 is the module's own value:
  the name written for the level and for the cap, in a buffer with room for the longest, is one
  \<open>Level::from_name\<close> reads back as that level, and the answer for an extension's name is
  whether a module may use it.
\<close>

lemma query_answers:
  assumes "t_arch t = Arch_x86_64" and "9 \<le> length out"
    and "query t m env Q_LEVEL name out = (n, out1)" and "query t m env Q_CAP name out = (k, out2)"
  shows "level_from_name (take (nat n) out1) = Some (cpu_level t m env)
    \<and> level_from_name (take (nat k) out2) = Some (cap env)
    \<and> query t m env Q_HAS (isa_name t i) out = (of_bool (has t m env i), out)
    \<and> query t m env Q_DETECTED (isa_name t i) out = (of_bool (detected t m i), out)"
proof -
  have room: "length (level_name l) \<le> length out" for l
    using level_name_length [of l] assms(2) by linarith
  have "write_name (level_name (cpu_level t m env)) out = (n, out1)"
    and "write_name (level_name (cap env)) out = (k, out2)"
    using assms(1,3,4) by (simp_all add: query_def questions)
  with write_name_fits [OF room] have "take (nat n) out1 = level_name (cpu_level t m env)"
    "take (nat k) out2 = level_name (cap env)" by blast+
  with assms(1) show ?thesis
    by (simp add: level_name_read query_def questions isa_from_its_name)
qed

lemma query_answers_witness:
  "let t = \<lparr>t_arch = Arch_x86_64, t_os = Windows, t_enabled = \<lambda>_. False\<rparr>;
       m = \<lparr>m_cpuid = \<lambda>_ _. \<lparr>r_eax = 0, r_ebx = 0, r_ecx = 0, r_edx = 0\<rparr>, m_xgetbv = 0,
            m_arm = \<lambda>_. False\<rparr>;
       out = replicate 16 (CHR 0x00)
   in query t m None Q_HAS ''avx2'' out = (0, out)
      \<and> (case query t m None Q_LEVEL [] out of (n, out1) \<Rightarrow>
            level_from_name (take (nat n) out1) = Some (cpu_level t m None))"
proof -
  let ?t = "\<lparr>t_arch = Arch_x86_64, t_os = Windows, t_enabled = \<lambda>_. False\<rparr>"
  let ?m = "\<lparr>m_cpuid = \<lambda>_ _. \<lparr>r_eax = 0, r_ebx = 0, r_ecx = 0, r_edx = 0\<rparr>, m_xgetbv = 0,
            m_arm = \<lambda>_. False\<rparr>"
  let ?o = "replicate 16 (CHR 0x00)"
  obtain n o1 k o2 where q: "query ?t ?m None Q_LEVEL [] ?o = (n, o1)"
    "query ?t ?m None Q_CAP [] ?o = (k, o2)" by fastforce
  have "t_arch ?t = Arch_x86_64" "9 \<le> length ?o" by simp_all
  note answers = query_answers [OF this q, of Avx2]
  have row: "f_leaf (feature_of ?t Avx2) = 7" "isa_name ?t Avx2 = ''avx2''"
    by (simp_all add: feature_of_def isa_index_def all_isas_def FEATURES_def row_def isa_name_def)
  then have "\<not> detected ?t ?m Avx2" by (simp add: detected_iff Let_def)
  then have "\<not> has ?t ?m None Avx2" by (simp add: has_def)
  with answers q row(2) show ?thesis by simp
qed

end
