(* ===== verification/Cpu_Lists.thy ===== *)
theory Cpu_Lists
  imports Cpu_Features Marker_Scan "HOL-Library.Monad_Syntax"
begin

text \<open>
  \<open>crates/pwrs/src/cpu.rs\<close>: the requirement list a library publishes, written into an array of
  \<open>REQUIREMENTS_SIZE\<close> bytes by \<open>const fn\<close>s.  An index outside the array, which stops the
  compilation, is \<open>None\<close>.  The lemmas give the text each function writes, and that the longest
  list leaves room for its NUL.
\<close>

section \<open>Writing\<close>

definition REQUIREMENTS_SIZE :: nat where
  "REQUIREMENTS_SIZE = 4096"

text \<open>\<open>put\<close>: the array and the next offset.\<close>

fun put :: "string \<Rightarrow> nat \<Rightarrow> string \<Rightarrow> (string \<times> nat) option" where
  "put out at [] = Some (out, at)"
| "put out at (b # bytes) =
     (if at < length out then put (out[at := b]) (at + 1) bytes else None)"

text \<open>
  \<open>put_decimal\<close>: the loop fills \<open>digits\<close>, an array of 20, with the digits of \<open>v\<close>, the least
  significant first; \<open>n\<close> is how many it has.
\<close>

function decimal_loop :: "nat \<Rightarrow> nat \<Rightarrow> string option" where
  "decimal_loop n v =
     (if 20 \<le> n then None
      else
        (let digit = char_of (48 + v mod 10) in
         if v div 10 = 0 then Some [digit]
         else map_option ((#) digit) (decimal_loop (n + 1) (v div 10))))"
  by pat_completeness auto
termination by (relation "measure (\<lambda>(n, v). 20 - n)") auto

declare decimal_loop.simps [simp del]

definition put_decimal :: "string \<Rightarrow> nat \<Rightarrow> nat \<Rightarrow> (string \<times> nat) option" where
  "put_decimal out at v =
     do {
       digits \<leftarrow> decimal_loop 0 v;
       put out at (rev digits)
     }"

fun x86_entries :: "x86_feature list \<Rightarrow> string \<Rightarrow> nat \<Rightarrow> (string \<times> nat) option" where
  "x86_entries [] out at = Some (out, at)"
| "x86_entries (f # fs) out at =
     (if f_compiled f then
        do {
          (out, at) \<leftarrow> put out at '' '';
          (out, at) \<leftarrow> put out at (f_name f);
          (out, at) \<leftarrow> put out at '','';
          (out, at) \<leftarrow> put_decimal out at (level_number (f_level f));
          (out, at) \<leftarrow> put out at '','';
          (out, at) \<leftarrow> put_decimal out at (unat (f_leaf f));
          (out, at) \<leftarrow> put out at '','';
          (out, at) \<leftarrow> put_decimal out at (unat (f_subleaf f));
          (out, at) \<leftarrow> put out at '','';
          (out, at) \<leftarrow> put_decimal out at (register_number (f_register f));
          (out, at) \<leftarrow> put out at '','';
          (out, at) \<leftarrow> put_decimal out at (f_bit f);
          (out, at) \<leftarrow> put out at '','';
          (out, at) \<leftarrow> put_decimal out at (unat (f_xcr0 f));
          x86_entries fs out at
        }
      else x86_entries fs out at)"

definition x86_requirements :: "target \<Rightarrow> string option" where
  "x86_requirements t =
     do {
       (out, at) \<leftarrow> put (replicate REQUIREMENTS_SIZE nul) 0 ''PWRS-'';
       (out, at) \<leftarrow> put out at ''CPU/1'';
       (out, at) \<leftarrow> x86_entries (FEATURES t) out at;
       if at < REQUIREMENTS_SIZE then Some out else None
     }"

primrec os_name :: "os \<Rightarrow> string" where
  "os_name Linux = ''linux''"
| "os_name Windows = ''windows''"
| "os_name Macos = ''macos''"
| "os_name Other_os = ''other''"

text \<open>
  The loops over the constants and over the terms of a report: \<open>sep\<close> goes before every piece
  but the first.
\<close>

fun put_pieces ::
  "(string \<Rightarrow> nat \<Rightarrow> 'a \<Rightarrow> (string \<times> nat) option) \<Rightarrow> string \<Rightarrow> nat \<Rightarrow> 'a list \<Rightarrow> string \<Rightarrow> nat
     \<Rightarrow> (string \<times> nat) option"
where
  "put_pieces piece sep k [] out at = Some (out, at)"
| "put_pieces piece sep k (x # xs) out at =
     do {
       (out, at) \<leftarrow> (if 0 < k then put out at sep else Some (out, at));
       (out, at) \<leftarrow> piece out at x;
       put_pieces piece sep (k + 1) xs out at
     }"

definition put_report :: "os \<Rightarrow> arm_report \<Rightarrow> string \<Rightarrow> nat \<Rightarrow> (string \<times> nat) option" where
  "put_report s r out at =
     (case s of
        Linux \<Rightarrow>
          do {
            (out, at) \<leftarrow> put_decimal out at (unat (hwcap r));
            (out, at) \<leftarrow> put out at '':'';
            (out, at) \<leftarrow> put_decimal out at (unat (hwcap2 r));
            put out at (if half r then '':1'' else '':0'')
          }
      | Windows \<Rightarrow> put_pieces put_decimal ''+'' 0 (on_windows r) out at
      | Macos \<Rightarrow>
          put_pieces (\<lambda>out at term. put_pieces put ''|'' 0 term out at) ''+'' 0 (on_macos r) out at
      | Other_os \<Rightarrow> Some (out, at))"

fun arm_entries_loop ::
  "os \<Rightarrow> bool \<Rightarrow> (arm_info \<times> arm_report) list \<Rightarrow> string \<Rightarrow> nat \<Rightarrow> (string \<times> nat) option"
where
  "arm_entries_loop s every [] out at = Some (out, at)"
| "arm_entries_loop s every ((f, r) # fs) out at =
     (if every \<or> a_compiled f then
        do {
          (out, at) \<leftarrow> put out at '' '';
          (out, at) \<leftarrow> put out at (a_name f);
          (out, at) \<leftarrow> put out at '','';
          (out, at) \<leftarrow> put_decimal out at
             (tier_number (if in_baseline s (a_name f) then T_Neon else a_tier f));
          (out, at) \<leftarrow> put out at '','';
          (out, at) \<leftarrow> put_report s r out at;
          arm_entries_loop s every fs out at
        }
      else arm_entries_loop s every fs out at)"

definition arm_entries :: "target \<Rightarrow> os \<Rightarrow> bool \<Rightarrow> string \<Rightarrow> nat \<Rightarrow> (string \<times> nat) option" where
  "arm_entries t s every out at =
     (if s = Other_os then Some (out, at)
      else arm_entries_loop s every (zip (ARM_FEATURES t) REPORTS) out at)"

definition arm_requirements :: "target \<Rightarrow> os \<Rightarrow> bool \<Rightarrow> string option" where
  "arm_requirements t s every =
     do {
       (out, at) \<leftarrow> put (replicate REQUIREMENTS_SIZE nul) 0 ''PWRS-'';
       (out, at) \<leftarrow> put out at ''ARM/1 '';
       (out, at) \<leftarrow> put out at (os_name s);
       (out, at) \<leftarrow> arm_entries t s every out at;
       if at < REQUIREMENTS_SIZE then Some out else None
     }"

definition REQUIREMENTS :: "target \<Rightarrow> string option" where
  "REQUIREMENTS t =
     (if t_arch t = Arch_aarch64 then arm_requirements t (t_os t) False else x86_requirements t)"

text \<open>\<open>None\<close> is the compilation that stops, \<open>Some None\<close> a name no list is for.\<close>

definition requirement_entries :: "target \<Rightarrow> string \<Rightarrow> string option option" where
  "requirement_entries t name =
     (let entries = (\<lambda>s.
            do {
              (out, end) \<leftarrow> arm_entries t s True (replicate REQUIREMENTS_SIZE nul) 0;
              Some (Some (drop 1 (take end out)))
            })
      in if name = ''linux'' then entries Linux
         else if name = ''windows'' then entries Windows
         else if name = ''macos'' then entries Macos
         else Some None)"

section \<open>The text written\<close>

text \<open>
  An array with \<open>txt\<close> at its start and zeros after it.  A function writes \<open>s\<close> when it puts \<open>s\<close>
  after any text that leaves room for it.
\<close>

definition padded :: "string \<Rightarrow> string" where
  "padded txt = txt @ replicate (REQUIREMENTS_SIZE - length txt) nul"

definition writes :: "(string \<Rightarrow> nat \<Rightarrow> (string \<times> nat) option) \<Rightarrow> string \<Rightarrow> bool" where
  "writes w s \<longleftrightarrow>
     (\<forall>p. length p + length s \<le> REQUIREMENTS_SIZE \<longrightarrow>
        w (padded p) (length p) = Some (padded (p @ s), length (p @ s)))"

lemma writes_run:
  "writes w s \<Longrightarrow> length p + length s \<le> REQUIREMENTS_SIZE \<Longrightarrow>
     w (padded p) (length p) = Some (padded (p @ s), length (p @ s))"
  by (simp add: writes_def)

lemma writes_nothing: "writes (\<lambda>out at. Some (out, at)) []"
  by (simp add: writes_def)

lemma writes_then:
  assumes "writes v s" and "writes w u"
  shows "writes (\<lambda>out at. v out at \<bind> (\<lambda>(out, at). w out at)) (s @ u)"
  unfolding writes_def
proof (intro allI impI)
  fix p :: string
  assume "length p + length (s @ u) \<le> REQUIREMENTS_SIZE"
  then show "v (padded p) (length p) \<bind> (\<lambda>(out, at). w out at)
      = Some (padded (p @ s @ u), length (p @ s @ u))"
    using writes_run [OF assms(1), of p] writes_run [OF assms(2), of "p @ s"] by simp
qed

lemma writes_put: "writes (\<lambda>out at. put out at s) s"
proof (induction s)
  case Nil
  show ?case by (simp add: writes_def)
next
  case (Cons b s)
  show ?case
    unfolding writes_def
  proof (intro allI impI)
    fix p :: string
    assume fits: "length p + length (b # s) \<le> REQUIREMENTS_SIZE"
    then have "REQUIREMENTS_SIZE - length p = Suc (REQUIREMENTS_SIZE - length (p @ [b]))" by simp
    then have "(padded p)[length p := b] = padded (p @ [b])"
      by (simp add: padded_def list_update_append)
    moreover have "length p < length (padded p)" using fits by (simp add: padded_def)
    ultimately show "put (padded p) (length p) (b # s)
        = Some (padded (p @ b # s), length (p @ b # s))"
      using writes_run [OF Cons.IH, of "p @ [b]"] fits by simp
  qed
qed

lemma decimal_loop_digits:
  "v < 10 ^ (20 - n) \<Longrightarrow> n < 20 \<Longrightarrow> decimal_loop n v = Some (rev (decimal v))"
proof (induction n v rule: decimal_loop.induct)
  case (1 n v)
  show ?case
  proof (cases "v div 10 = 0")
    case True
    with 1 show ?thesis
      by (simp add: decimal_loop.simps [of n v] decimal.simps [of v])
  next
    case False
    have n: "n + 1 < 20"
    proof (rule ccontr)
      assume "\<not> n + 1 < 20"
      with "1.prems" have "n = 19" by simp
      with "1.prems" False show False by simp
    qed
    then have "10 ^ (20 - n) = 10 * (10 :: nat) ^ (20 - (n + 1))"
      by (metis Suc_diff_Suc Suc_eq_plus1 add_lessD1 power_Suc)
    with "1.prems" have "v div 10 < 10 ^ (20 - (n + 1))" by (simp add: less_mult_imp_div_less mult.commute)
    with 1 n False show ?thesis
      by (simp add: decimal_loop.simps [of n v] decimal.simps [of v])
  qed
qed

lemma writes_decimal: "v < 2 ^ 64 \<Longrightarrow> writes (\<lambda>out at. put_decimal out at v) (decimal v)"
proof -
  assume "v < 2 ^ 64"
  then have "v < 10 ^ (20 - 0)" by simp
  from decimal_loop_digits [OF this] show ?thesis
    using writes_put [of "decimal v"] by (simp add: put_decimal_def)
qed

definition x86_entry :: "x86_feature \<Rightarrow> string" where
  "x86_entry f =
     '' '' @ f_name f @ '','' @ decimal (level_number (f_level f)) @ '','' @ decimal (unat (f_leaf f))
     @ '','' @ decimal (unat (f_subleaf f)) @ '','' @ decimal (register_number (f_register f))
     @ '','' @ decimal (f_bit f) @ '','' @ decimal (unat (f_xcr0 f))"

definition x86_text :: "x86_feature list \<Rightarrow> string" where
  "x86_text fs = concat (map x86_entry (filter f_compiled fs))"

lemma small_numbers:
  "level_number l < 2 ^ 64" "register_number reg < 2 ^ 64" "tier_number tr < 2 ^ 64"
  "unat (w :: u32) < 2 ^ 64" "unat (x :: u64) < 2 ^ 64"
proof -
  show "level_number l < 2 ^ 64" by (cases l) simp_all
  show "register_number reg < 2 ^ 64" by (cases reg) simp_all
  show "tier_number tr < 2 ^ 64" by (cases tr) simp_all
  show "unat w < 2 ^ 64" using unsigned_less [of w, where 'a = nat] by simp
  show "unat x < 2 ^ 64" using unsigned_less [of x, where 'a = nat] by simp
qed

lemma writes_x86_entries:
  "list_all (\<lambda>f. f_bit f < 2 ^ 64) fs \<Longrightarrow> writes (x86_entries fs) (x86_text fs)"
proof (induction fs)
  case Nil
  then show ?case by (simp add: x86_text_def writes_def)
next
  case (Cons f fs)
  then have IH: "writes (x86_entries fs) (x86_text fs)" and b: "f_bit f < 2 ^ 64" by simp_all
  show ?case
  proof (cases "f_compiled f")
    case True
    have "writes (x86_entries (f # fs)) ('' '' @ f_name f @ '','' @ decimal (level_number (f_level f))
      @ '','' @ decimal (unat (f_leaf f)) @ '','' @ decimal (unat (f_subleaf f))
      @ '','' @ decimal (register_number (f_register f)) @ '','' @ decimal (f_bit f)
      @ '','' @ decimal (unat (f_xcr0 f)) @ x86_text fs)"
      unfolding x86_entries.simps if_P [OF True]
      by (intro writes_then writes_put writes_decimal small_numbers b IH)
    moreover have "x86_text (f # fs) = '' '' @ f_name f @ '','' @ decimal (level_number (f_level f))
      @ '','' @ decimal (unat (f_leaf f)) @ '','' @ decimal (unat (f_subleaf f))
      @ '','' @ decimal (register_number (f_register f)) @ '','' @ decimal (f_bit f)
      @ '','' @ decimal (unat (f_xcr0 f)) @ x86_text fs"
      by (simp add: x86_text_def x86_entry_def True)
    ultimately show ?thesis by (simp only:)
  next
    case False
    with IH show ?thesis by (simp add: x86_text_def writes_def)
  qed
qed

text \<open>The pieces of a report, a separator between them.\<close>

lemma writes_pieces_more:
  assumes "\<And>x. x \<in> set xs \<Longrightarrow> writes (\<lambda>out at. piece out at x) (show_piece x)"
  shows "0 < k \<Longrightarrow> writes (put_pieces piece sep k xs) (concat (map (\<lambda>x. sep @ show_piece x) xs))"
  using assms
proof (induction xs arbitrary: k)
  case Nil
  then show ?case by (simp add: writes_def)
next
  case (Cons x xs)
  then have IH: "writes (put_pieces piece sep (k + 1) xs) (concat (map (\<lambda>x. sep @ show_piece x) xs))"
    and x: "writes (\<lambda>out at. piece out at x) (show_piece x)" by simp_all
  have "writes (put_pieces piece sep k (x # xs))
      (sep @ show_piece x @ concat (map (\<lambda>x. sep @ show_piece x) xs))"
    unfolding put_pieces.simps if_P [OF Cons.prems(1)]
    by (intro writes_then writes_put x IH)
  then show ?case by (simp only: list.map concat.simps append_assoc)
qed

lemma writes_pieces:
  assumes "\<And>x. x \<in> set xs \<Longrightarrow> writes (\<lambda>out at. piece out at x) (show_piece x)"
  shows "writes (put_pieces piece sep 0 xs) (joined sep (map show_piece xs))"
proof (cases xs)
  case Nil
  then show ?thesis by (simp add: writes_def)
next
  case (Cons x ys)
  have x: "writes (\<lambda>out at. piece out at x) (show_piece x)"
    and ys: "writes (put_pieces piece sep (0 + 1) ys) (concat (map (\<lambda>x. sep @ show_piece x) ys))"
    using assms Cons by (simp, intro writes_pieces_more) simp_all
  have "writes (put_pieces piece sep 0 (x # ys)) ([] @ show_piece x @ concat (map (\<lambda>x. sep @ show_piece x) ys))"
    unfolding put_pieces.simps if_not_P [OF less_irrefl]
    by (intro writes_then writes_nothing x ys)
  then show ?thesis by (simp add: Cons joined_Cons comp_def)
qed

definition report_text :: "os \<Rightarrow> arm_report \<Rightarrow> string" where
  "report_text s r =
     (case s of
        Linux \<Rightarrow> decimal (unat (hwcap r)) @ '':'' @ decimal (unat (hwcap2 r))
          @ (if half r then '':1'' else '':0'')
      | Windows \<Rightarrow> joined ''+'' (map decimal (on_windows r))
      | Macos \<Rightarrow> joined ''+'' (map (joined ''|'') (on_macos r))
      | Other_os \<Rightarrow> [])"

lemma writes_report:
  assumes "list_all (\<lambda>n. n < 2 ^ 64) (on_windows r)"
  shows "writes (put_report s r) (report_text s r)"
proof (cases s)
  case Linux
  have "writes (put_report Linux r) (decimal (unat (hwcap r)) @ '':'' @ decimal (unat (hwcap2 r))
      @ (if half r then '':1'' else '':0''))"
    unfolding put_report_def os.case
    by (intro writes_then writes_put writes_decimal small_numbers)
  then show ?thesis by (simp only: Linux report_text_def os.case)
next
  case Windows
  have "writes (put_pieces put_decimal ''+'' 0 (on_windows r)) (joined ''+'' (map decimal (on_windows r)))"
    using assms by (intro writes_pieces writes_decimal) (simp add: list_all_iff)
  moreover have "put_report Windows r = put_pieces put_decimal ''+'' 0 (on_windows r)"
    by (intro ext) (simp add: put_report_def)
  ultimately show ?thesis by (simp add: Windows report_text_def)
next
  case Macos
  have "writes (put_pieces put ''|'' 0 term) (joined ''|'' (map (\<lambda>x. x) term))" for "term"
    by (intro writes_pieces writes_put)
  then have "writes (put_pieces (\<lambda>out at term. put_pieces put ''|'' 0 term out at) ''+'' 0 (on_macos r))
      (joined ''+'' (map (joined ''|'') (on_macos r)))"
    by (intro writes_pieces) simp
  moreover have "put_report Macos r =
      put_pieces (\<lambda>out at term. put_pieces put ''|'' 0 term out at) ''+'' 0 (on_macos r)"
    by (intro ext) (simp add: put_report_def)
  ultimately show ?thesis by (simp add: Macos report_text_def)
next
  case Other_os
  then show ?thesis by (simp add: report_text_def put_report_def writes_def)
qed

definition arm_entry :: "os \<Rightarrow> arm_info \<times> arm_report \<Rightarrow> string" where
  "arm_entry s p =
     '' '' @ a_name (fst p) @ '',''
     @ decimal (tier_number (if in_baseline s (a_name (fst p)) then T_Neon else a_tier (fst p)))
     @ '','' @ report_text s (snd p)"

definition arm_text :: "os \<Rightarrow> bool \<Rightarrow> (arm_info \<times> arm_report) list \<Rightarrow> string" where
  "arm_text s every fs = concat (map (arm_entry s) (filter (\<lambda>p. every \<or> a_compiled (fst p)) fs))"

lemma writes_arm_entries:
  "list_all (\<lambda>p. list_all (\<lambda>n. n < 2 ^ 64) (on_windows (snd p))) fs \<Longrightarrow>
     writes (arm_entries_loop s every fs) (arm_text s every fs)"
proof (induction fs)
  case Nil
  then show ?case by (simp add: arm_text_def writes_def)
next
  case (Cons p fs)
  obtain f r where p: "p = (f, r)" by fastforce
  with Cons have IH: "writes (arm_entries_loop s every fs) (arm_text s every fs)"
    and r: "list_all (\<lambda>n. n < 2 ^ 64) (on_windows r)" by simp_all
  show ?case
  proof (cases "every \<or> a_compiled f")
    case True
    have "writes (arm_entries_loop s every ((f, r) # fs)) ('' '' @ a_name f @ '',''
      @ decimal (tier_number (if in_baseline s (a_name f) then T_Neon else a_tier f))
      @ '','' @ report_text s r @ arm_text s every fs)"
      unfolding arm_entries_loop.simps if_P [OF True]
      by (intro writes_then writes_put writes_decimal small_numbers writes_report r IH)
    moreover have "arm_text s every (p # fs) = '' '' @ a_name f @ '',''
      @ decimal (tier_number (if in_baseline s (a_name f) then T_Neon else a_tier f))
      @ '','' @ report_text s r @ arm_text s every fs"
      using True by (simp add: arm_text_def arm_entry_def p)
    ultimately show ?thesis by (simp only: p)
  next
    case False
    with IH show ?thesis by (simp add: arm_text_def writes_def p)
  qed
qed

section \<open>Room\<close>

lemma concat_length_le:
  "(\<And>x. x \<in> set xs \<Longrightarrow> length (g x) \<le> k) \<Longrightarrow> length (concat (map g xs)) \<le> k * length xs"
  by (induction xs) fastforce+

lemma x86_rows:
  "f \<in> set (FEATURES t) \<Longrightarrow> length (f_name f) \<le> 18 \<and> f_bit f < 32
     \<and> unat (f_subleaf f) < 10 \<and> unat (f_xcr0 f) < 1000"
  by (auto simp: FEATURES_def row_def AVX_STATE_def AVX512_STATE_def)

lemma x86_entry_length:
  assumes "f \<in> set (FEATURES t)"
  shows "length (x86_entry f) \<le> 43"
proof -
  note r = x86_rows [OF assms]
  have "level_number (f_level f) < 10 ^ 1" by (cases "f_level f") simp_all
  moreover have "unat (f_leaf f) < 10 ^ 10"
    using unsigned_less [of "f_leaf f", where 'a = nat] by simp
  moreover have "register_number (f_register f) < 10 ^ 1" by (cases "f_register f") simp_all
  ultimately have "length (decimal (level_number (f_level f))) \<le> 1"
    "length (decimal (unat (f_leaf f))) \<le> 10" "length (decimal (register_number (f_register f))) \<le> 1"
    by (simp_all add: decimal_length del: power_one_right)
  moreover have "length (decimal (unat (f_subleaf f))) \<le> 1" "length (decimal (f_bit f)) \<le> 2"
    "length (decimal (unat (f_xcr0 f))) \<le> 3"
    using r by (auto intro!: decimal_length)
  ultimately show ?thesis
    using r by (simp add: x86_entry_def)
qed

lemma x86_text_length: "length (x86_text (FEATURES t)) \<le> 2193"
proof -
  have "length (x86_text (FEATURES t)) \<le> 43 * length (filter f_compiled (FEATURES t))"
    unfolding x86_text_def using x86_entry_length by (intro concat_length_le) auto
  also have "\<dots> \<le> 43 * length (FEATURES t)" by simp
  also have "\<dots> = 2193" by (simp add: FEATURES_def)
  finally show ?thesis .
qed

lemma arm_rows:
  "r \<in> set REPORTS \<Longrightarrow> list_all (\<lambda>n. n < 100) (on_windows r) \<and> length (on_windows r) \<le> 2
     \<and> length (joined ''+'' (map (joined ''|'') (on_macos r))) \<le> 90"
  by (auto simp: REPORTS_def report_def)

lemma arm_names: "f \<in> set (ARM_FEATURES t) \<Longrightarrow> length (a_name f) \<le> 12"
  by (auto simp: ARM_FEATURES_def arm_row_def)

lemma report_length:
  assumes "r \<in> set REPORTS"
  shows "length (report_text s r) \<le> 90"
proof (cases s)
  case Linux
  have "length (decimal (unat w)) \<le> 20" for w :: u64
    using unsigned_less [of w, where 'a = nat] by (intro decimal_length) simp_all
  from add_mono [OF this [of "hwcap r"] this [of "hwcap2 r"]] show ?thesis
    by (simp add: report_text_def Linux)
next
  case Windows
  have d: "length (decimal n) \<le> 2" if "n \<in> set (on_windows r)" for n
    using arm_rows [OF assms] that by (intro decimal_length) (auto simp: list_all_iff)
  obtain ns where ns: "ns = on_windows r" by simp
  with arm_rows [OF assms] d have "length ns \<le> 2" "\<forall>n \<in> set ns. length (decimal n) \<le> 2" by simp_all
  then have "length (joined ''+'' (map decimal ns)) \<le> 90"
    by (cases ns; cases "tl ns") auto
  then show ?thesis by (simp add: report_text_def Windows ns)
next
  case Macos
  with arm_rows [OF assms] show ?thesis by (simp add: report_text_def)
next
  case Other_os
  then show ?thesis by (simp add: report_text_def)
qed

lemma arm_entry_length:
  assumes "p \<in> set (zip (ARM_FEATURES t) REPORTS)"
  shows "length (arm_entry s p) \<le> 106"
proof -
  from assms have "(fst p, snd p) \<in> set (zip (ARM_FEATURES t) REPORTS)" by simp
  then have "fst p \<in> set (ARM_FEATURES t)" "snd p \<in> set REPORTS"
    by (rule set_zip_leftD, rule set_zip_rightD)
  moreover have "length (decimal (tier_number tr)) \<le> 1" for tr
    by (cases tr) (simp_all add: decimal_length)
  ultimately have "length (a_name (fst p)) \<le> 12" "length (report_text s (snd p)) \<le> 90"
    "length (decimal (tier_number (if in_baseline s (a_name (fst p)) then T_Neon else a_tier (fst p)))) \<le> 1"
    using arm_names report_length by blast+
  then show ?thesis by (simp add: arm_entry_def)
qed

lemma arm_text_length: "length (arm_text s every (zip (ARM_FEATURES t) REPORTS)) \<le> 2862"
proof -
  let ?z = "zip (ARM_FEATURES t) REPORTS"
  have "length (arm_text s every ?z) \<le> 106 * length (filter (\<lambda>p. every \<or> a_compiled (fst p)) ?z)"
    unfolding arm_text_def using arm_entry_length by (intro concat_length_le) auto
  also have "\<dots> \<le> 106 * length ?z" by (intro mult_le_mono2 length_filter_le)
  also have "\<dots> \<le> 106 * length REPORTS" by simp
  also have "\<dots> = 2862" by (simp add: REPORTS_def)
  finally show ?thesis .
qed

section \<open>The lists\<close>

definition x86_list :: "target \<Rightarrow> string" where
  "x86_list t = ''PWRS-CPU/1'' @ x86_text (FEATURES t)"

definition arm_list :: "target \<Rightarrow> os \<Rightarrow> bool \<Rightarrow> string" where
  "arm_list t s every = ''PWRS-ARM/1 '' @ os_name s
     @ (if s = Other_os then [] else arm_text s every (zip (ARM_FEATURES t) REPORTS))"

definition list_text :: "target \<Rightarrow> string" where
  "list_text t =
     (if t_arch t = Arch_aarch64 then arm_list t (t_os t) False else x86_list t)"

lemma padded_empty: "replicate REQUIREMENTS_SIZE nul = padded []"
  by (simp add: padded_def)

lemma x86_list_length: "length (x86_list t) < REQUIREMENTS_SIZE"
  using x86_text_length [of t] by (simp add: x86_list_def REQUIREMENTS_SIZE_def)

lemma x86_requirements_text: "x86_requirements t = Some (padded (x86_list t))"
proof -
  have "list_all (\<lambda>f. f_bit f < 2 ^ 64) (FEATURES t)"
    using x86_rows by (fastforce simp: list_all_iff)
  then have "writes (\<lambda>out at. put out at ''PWRS-'' \<bind> (\<lambda>(out, at). put out at ''CPU/1'' \<bind>
      (\<lambda>(out, at). x86_entries (FEATURES t) out at))) (''PWRS-'' @ ''CPU/1'' @ x86_text (FEATURES t))"
    by (intro writes_then writes_put writes_x86_entries)
  from writes_run [OF this, of "[]"] x86_list_length [of t] show ?thesis
    by (auto simp: x86_requirements_def padded_empty x86_list_def
        simp del: put.simps split: bind_splits prod.splits)
qed

lemma arm_entries_text:
  "writes (arm_entries t s every)
     (if s = Other_os then [] else arm_text s every (zip (ARM_FEATURES t) REPORTS))"
proof (cases "s = Other_os")
  case True
  then show ?thesis by (simp add: writes_def arm_entries_def)
next
  case False
  have "list_all (\<lambda>n. n < 2 ^ 64) (on_windows r)" if "r \<in> set REPORTS" for r
    using arm_rows [OF that] by (auto simp: list_all_iff)
  then have "list_all (\<lambda>p. list_all (\<lambda>n. n < 2 ^ 64) (on_windows (snd p))) (zip (ARM_FEATURES t) REPORTS)"
    by (auto simp: list_all_iff dest: set_zip_rightD)
  from writes_arm_entries [OF this, of s every] False show ?thesis
    by (simp add: writes_def arm_entries_def)
qed

lemma arm_list_length: "length (arm_list t s every) < REQUIREMENTS_SIZE"
  using arm_text_length [of s every t] by (cases s) (simp_all add: arm_list_def REQUIREMENTS_SIZE_def)

lemma arm_requirements_text: "arm_requirements t s every = Some (padded (arm_list t s every))"
proof -
  have "writes (\<lambda>out at. put out at ''PWRS-'' \<bind> (\<lambda>(out, at). put out at ''ARM/1 '' \<bind>
      (\<lambda>(out, at). put out at (os_name s) \<bind> (\<lambda>(out, at). arm_entries t s every out at))))
      (''PWRS-'' @ ''ARM/1 '' @ os_name s
        @ (if s = Other_os then [] else arm_text s every (zip (ARM_FEATURES t) REPORTS)))"
    by (intro writes_then writes_put arm_entries_text)
  from writes_run [OF this, of "[]"] arm_list_length [of t s every] show ?thesis
    by (auto simp: arm_requirements_def padded_empty arm_list_def
        simp del: put.simps split: bind_splits prod.splits)
qed

text \<open>
  The requirement list always compiles, whatever the target and whichever extensions it is
  compiled with: the array holds the list's marker and entries, and at least one NUL after
  them.
\<close>

lemma requirements_fit:
  "REQUIREMENTS t = Some (list_text t @ replicate (REQUIREMENTS_SIZE - length (list_text t)) nul)
   \<and> length (list_text t) < REQUIREMENTS_SIZE"
  using arm_list_length x86_list_length
  by (simp add: REQUIREMENTS_def list_text_def x86_requirements_text arm_requirements_text padded_def)

text \<open>
  \<open>requirement_entries\<close> gives a system the entries of the list that names every feature,
  less its marker and the system's name.
\<close>

lemma requirement_entries_of_list:
  assumes "s \<noteq> Other_os"
  shows "\<exists>entries. requirement_entries t (os_name s) = Some (Some entries)
    \<and> arm_requirements t s True = Some (padded (''PWRS-ARM/1 '' @ os_name s @ '' '' @ entries))"
proof -
  let ?text = "arm_text s True (zip (ARM_FEATURES t) REPORTS)"
  have "length ?text \<le> REQUIREMENTS_SIZE"
    using arm_text_length [of s True t] by (simp add: REQUIREMENTS_SIZE_def)
  with writes_run [OF arm_entries_text, of "[]" s True t] assms
  have e: "arm_entries t s True (replicate REQUIREMENTS_SIZE nul) 0 = Some (padded ?text, length ?text)"
    by (simp add: padded_empty)
  have "?text = '' '' @ drop 1 ?text"
    by (simp add: arm_text_def ARM_FEATURES_def REPORTS_def arm_entry_def)
  then have l: "arm_list t s True = ''PWRS-ARM/1 '' @ os_name s @ '' '' @ drop 1 ?text"
    using assms by (simp add: arm_list_def)
  have "requirement_entries t (os_name s) = Some (Some (drop 1 ?text))"
    using assms e by (cases s) (simp_all add: requirement_entries_def padded_def)
  with l show ?thesis by (metis arm_requirements_text)
qed

lemma requirement_entries_of_list_witness:
  "let t = \<lparr>t_arch = Arch_x86_64, t_os = Linux, t_enabled = \<lambda>_. False\<rparr>
   in \<exists>entries. requirement_entries t ''macos'' = Some (Some entries)
        \<and> arm_requirements t Macos True = Some (padded (''PWRS-ARM/1 macos '' @ entries))"
  using requirement_entries_of_list [of Macos "\<lparr>t_arch = Arch_x86_64, t_os = Linux, t_enabled = \<lambda>_. False\<rparr>"]
  by (simp add: Let_def)

end
