(* ===== verification/Cpu_Required.thy ===== *)
theory Cpu_Required
  imports Cpu_Lists
begin

text \<open>
  \<open>crates/cargo-pwrs/src/cpu.rs\<close>: the requirement list read out of a built library, and what a
  build warns of.  The reading loop, once for each marker, is an instance of \<open>marked_loop\<close>; the
  theorem at the end joins the two crates: the list \<open>crates/pwrs/src/cpu.rs\<close> writes is read back
  as the extensions the library was compiled with.  What running \<open>rustc\<close> prints is an argument.
\<close>

section \<open>Reading a list\<close>

definition CPU_MARKER :: string where
  "CPU_MARKER = ''PWRS-CPU/1''"

definition ARM_MARKER :: string where
  "ARM_MARKER = ''PWRS-ARM/1''"

datatype required_error =
    ListNoTerminator
  | ListNotAscii
  | UnknownSystem string
  | NoSystem
  | TwoLists

text \<open>The entries after the system's name, which \<open>next()\<close> takes where the list names one.\<close>

definition system_entries :: "bool \<Rightarrow> string list \<Rightarrow> required_error + string list" where
  "system_entries names_a_system entries =
     (if names_a_system then
        (case entries of
           e # es \<Rightarrow>
             if e \<in> {''linux'', ''windows'', ''macos'', ''other''} then Inr es
             else Inl (UnknownSystem e)
         | [] \<Rightarrow> Inl NoSystem)
      else Inr entries)"

definition entry_name :: "string \<Rightarrow> string" where
  "entry_name e = (case split_once (CHR '','') e of Some (name, fs) \<Rightarrow> name | None \<Rightarrow> e)"

definition take_list ::
  "bool \<Rightarrow> string list option \<Rightarrow> string \<Rightarrow> required_error + string list option"
where
  "take_list names_a_system found t =
     (if \<not> utf8_ok t then Inl ListNotAscii
      else
        (case system_entries names_a_system (filter (\<lambda>e. e \<noteq> []) (split_on (CHR '' '') t)) of
           Inl e \<Rightarrow> Inl e
         | Inr entries \<Rightarrow>
             (let names = map entry_name entries in
              case found of
                Some earlier \<Rightarrow> if earlier \<noteq> names then Inl TwoLists else Inr (Some names)
              | None \<Rightarrow> Inr (Some names))))"

definition list_marker :: "bool \<Rightarrow> string" where
  "list_marker names_a_system = (if names_a_system then ARM_MARKER else CPU_MARKER)"

function required_loop ::
  "bool \<Rightarrow> string \<Rightarrow> string list option \<Rightarrow> required_error + string list option"
where
  "required_loop arm bytes found =
     (case find_sub (list_marker arm) bytes of
        None \<Rightarrow> Inr found
      | Some offset \<Rightarrow>
          (let rest = drop (offset + length (list_marker arm)) bytes in
           case position (\<lambda>b. b = nul) rest of
             None \<Rightarrow> Inl ListNoTerminator
           | Some end \<Rightarrow>
               (case take_list arm found (take end rest) of
                  Inl e \<Rightarrow> Inl e
                | Inr found' \<Rightarrow> required_loop arm (drop end rest) found')))"
  by pat_completeness auto
termination
  by (relation "measure (\<lambda>(arm, bytes, found). length bytes)")
    (auto dest: find_sub_less simp: list_marker_def CPU_MARKER_def ARM_MARKER_def)

declare required_loop.simps [simp del]

definition required :: "string \<Rightarrow> required_error + string list option" where
  "required bytes =
     (case required_loop False bytes None of
        Inl e \<Rightarrow> Inl e
      | Inr found \<Rightarrow> required_loop True bytes found)"

interpretation lists: marked_loop "list_marker arm" "take_list arm" ListNoTerminator
  "required_loop arm" for arm
proof
  have "unbordered CPU_MARKER" "unbordered ARM_MARKER" by code_simp+
  then show "list_marker arm \<noteq> []" "nul \<notin> set (list_marker arm)" "unbordered (list_marker arm)"
    by (auto simp: list_marker_def CPU_MARKER_def ARM_MARKER_def nul_def)
next
  fix bytes found
  show "required_loop arm bytes found =
      (case find_sub (list_marker arm) bytes of
         None \<Rightarrow> Inr found
       | Some offset \<Rightarrow>
           (let rest = drop (offset + length (list_marker arm)) bytes in
            case position (\<lambda>b. b = nul) rest of
              None \<Rightarrow> Inl ListNoTerminator
            | Some end \<Rightarrow>
                (case take_list arm found (take end rest) of
                   Inl e \<Rightarrow> Inl e
                 | Inr found' \<Rightarrow> required_loop arm (drop end rest) found')))"
    by (rule required_loop.simps)
qed

section \<open>What a build warns of\<close>

text \<open>\<open>RUSTC\<close>, and what \<open>rustc -vV\<close> and \<open>rustc --print cfg\<close> print.\<close>

datatype env_var = Present string | NotPresent | NotUnicode string

definition rustc :: "env_var \<Rightarrow> string + string" where
  "rustc v =
     (case v of
        Present s \<Rightarrow> if trim s \<noteq> [] then Inr s else Inr ''rustc''
      | NotPresent \<Rightarrow> Inr ''rustc''
      | NotUnicode raw \<Rightarrow> Inl (''RUSTC is not valid Unicode: '' @ raw))"

fun host_line :: "string list \<Rightarrow> string option" where
  "host_line [] = None"
| "host_line (l # ls) =
     (case strip_prefix ''host: '' l of Some h \<Rightarrow> Some (trim h) | None \<Rightarrow> host_line ls)"

definition trim_quotes :: "string \<Rightarrow> string" where
  "trim_quotes s =
     rev (dropWhile (\<lambda>c. c = quote) (rev (dropWhile (\<lambda>c. c = quote) s)))"

definition features_in_cfg :: "string \<Rightarrow> string list" where
  "features_in_cfg c =
     map trim_quotes (List.map_filter (\<lambda>l. strip_prefix ''target_feature='' (trim l)) (str_lines c))"

definition undeclared :: "string list \<Rightarrow> string list \<Rightarrow> string list \<Rightarrow> string list" where
  "undeclared req baseline declared = filter (\<lambda>n. n \<notin> set baseline \<and> n \<notin> set declared) req"

section \<open>The list a library publishes\<close>

text \<open>What the list of a target names: the extensions compiled in, in the order of the table.\<close>

definition required_names :: "target \<Rightarrow> string list" where
  "required_names t =
     (if t_arch t = Arch_aarch64 then
        (if t_os t = Other_os then [] else map a_name (filter a_compiled (ARM_FEATURES t)))
      else map f_name (filter f_compiled (FEATURES t)))"

definition plain_name :: "string \<Rightarrow> bool" where
  "plain_name n \<longleftrightarrow> list_all (\<lambda>c. c \<noteq> CHR '' '' \<and> c \<noteq> CHR '','' \<and> c \<noteq> nul \<and> code c < 128) n"

lemma x86_plain: "f \<in> set (FEATURES t) \<Longrightarrow> plain_name (f_name f)"
  by (auto simp: FEATURES_def row_def plain_name_def nul_def)

lemma arm_plain: "f \<in> set (ARM_FEATURES t) \<Longrightarrow> plain_name (a_name f)"
  by (auto simp: ARM_FEATURES_def arm_row_def plain_name_def nul_def)

definition clean :: "string \<Rightarrow> bool" where
  "clean s \<longleftrightarrow> list_all (\<lambda>c. c \<noteq> CHR '' '' \<and> c \<noteq> nul \<and> code c < 128) s"

lemma clean_append [simp]: "clean (a @ b) \<longleftrightarrow> clean a \<and> clean b"
  and clean_Nil [simp]: "clean []"
  and clean_Cons [simp]: "clean (c # s) \<longleftrightarrow> c \<noteq> CHR '' '' \<and> c \<noteq> nul \<and> code c < 128 \<and> clean s"
  by (auto simp: clean_def)

lemma clean_plain: "plain_name n \<Longrightarrow> clean n"
  by (auto simp: plain_name_def clean_def list_all_iff)

lemma clean_decimal [simp]: "clean (decimal v)"
  using decimal_digits [of _ v] by (fastforce simp: clean_def list_all_iff nul_def)

lemma clean_joined: "clean sep \<Longrightarrow> list_all clean xs \<Longrightarrow> clean (joined sep xs)"
  by (induction sep xs rule: joined.induct) auto

lemma clean_reports:
  "r \<in> set REPORTS \<Longrightarrow> list_all (list_all clean) (on_macos r)"
  by (auto simp: REPORTS_def report_def nul_def)

lemma clean_report: "r \<in> set REPORTS \<Longrightarrow> clean (report_text s r)"
  using clean_reports [of r]
  by (auto simp: report_text_def nul_def list_all_iff intro!: clean_joined split: os.split)

text \<open>Entries after spaces come apart as they are.\<close>

definition spaced :: "string list \<Rightarrow> string" where
  "spaced es = concat (map (\<lambda>e. CHR '' '' # e) es)"

lemma split_spaced:
  "list_all (\<lambda>e. CHR '' '' \<notin> set e) (e # es) \<Longrightarrow> split_on (CHR '' '') (e @ spaced es) = e # es"
proof (induction es arbitrary: e)
  case Nil
  then show ?case by (simp add: spaced_def split_on_no_sep)
next
  case (Cons d es)
  then have "split_on (CHR '' '') (d @ spaced es) = d # es" by simp
  with Cons.prems split_on_append [of "CHR '' ''" e "d @ spaced es"] show ?case
    by (simp add: spaced_def)
qed

lemma entries_of_spaced:
  assumes "list_all (\<lambda>e. clean e \<and> e \<noteq> []) es"
  shows "filter (\<lambda>e. e \<noteq> []) (split_on (CHR '' '') (spaced es)) = es"
proof -
  from assms have "list_all (\<lambda>e. CHR '' '' \<notin> set e) ([] # es)" "filter (\<lambda>e. e \<noteq> []) es = es"
    by (auto simp: list_all_iff clean_def intro: filter_True)
  with split_spaced [of "[]" es] show ?thesis by simp
qed

lemma spaced_set: "c \<in> set (spaced es) \<Longrightarrow> c = CHR '' '' \<or> (\<exists>e \<in> set es. c \<in> set e)"
  by (induction es) (auto simp: spaced_def)

lemma spaced_chars:
  assumes "list_all (\<lambda>e. clean e \<and> e \<noteq> []) es"
  shows "utf8_ok (spaced es) \<and> nul \<notin> set (spaced es)"
proof -
  have c: "code c < 128 \<and> c \<noteq> nul" if "c \<in> set (spaced es)" for c
  proof -
    from spaced_set [OF that] consider "c = CHR '' ''" | e where "e \<in> set es" "c \<in> set e"
      by blast
    then show ?thesis
    proof cases
      case 1
      then show ?thesis by (simp add: nul_def)
    next
      case (2 e)
      with assms have "clean e" by (simp add: list_all_iff)
      with 2(2) show ?thesis by (simp add: clean_def list_all_iff)
    qed
  qed
  then show ?thesis using utf8_ok_ascii by blast
qed

lemma entry_name_plain: "plain_name n \<Longrightarrow> entry_name (n @ CHR '','' # es) = n"
proof -
  assume "plain_name n"
  then have "split_once (CHR '','') (n @ CHR '','' # es) = Some (n, es)"
    by (auto simp: split_once_Some plain_name_def list_all_iff)
  then show ?thesis by (simp add: entry_name_def)
qed

text \<open>A text of entries is what \<open>take_list\<close> takes it for.\<close>

lemma take_spaced:
  assumes "list_all (\<lambda>e. clean e \<and> e \<noteq> []) es" and "system_entries arm es = Inr ds"
  shows "take_list arm None (spaced es) = Inr (Some (map entry_name ds))"
  using spaced_chars [OF assms(1)] entries_of_spaced [OF assms(1)] assms(2)
  by (simp add: take_list_def Let_def)

definition x86_body :: "x86_feature \<Rightarrow> string" where
  "x86_body f = drop 1 (x86_entry f)"

lemma x86_body_ok:
  assumes "f \<in> set (FEATURES t)"
  shows "clean (x86_body f) \<and> x86_body f \<noteq> [] \<and> entry_name (x86_body f) = f_name f"
proof -
  note p = x86_plain [OF assms]
  have "\<exists>es. x86_body f = f_name f @ CHR '','' # es"
    by (simp add: x86_body_def x86_entry_def)
  then obtain es where b: "x86_body f = f_name f @ CHR '','' # es" ..
  moreover have "clean (x86_body f)"
    using clean_plain [OF p] by (simp add: x86_body_def x86_entry_def nul_def)
  ultimately show ?thesis using entry_name_plain [OF p] by simp
qed

lemma x86_text_spaced: "x86_text fs = spaced (map x86_body (filter f_compiled fs))"
proof -
  have "x86_entry = (\<lambda>f. CHR '' '' # x86_body f)"
    by (intro ext) (simp add: x86_body_def x86_entry_def)
  then show ?thesis by (simp add: x86_text_def spaced_def comp_def)
qed

definition arm_body :: "os \<Rightarrow> arm_info \<times> arm_report \<Rightarrow> string" where
  "arm_body s p = drop 1 (arm_entry s p)"

lemma arm_body_ok:
  assumes "(f, r) \<in> set (zip (ARM_FEATURES t) REPORTS)"
  shows "clean (arm_body s (f, r)) \<and> arm_body s (f, r) \<noteq> [] \<and> entry_name (arm_body s (f, r)) = a_name f"
proof -
  note p = arm_plain [OF set_zip_leftD [OF assms]]
  note r = clean_report [OF set_zip_rightD [OF assms]]
  have "\<exists>es. arm_body s (f, r) = a_name f @ CHR '','' # es"
    by (simp add: arm_body_def arm_entry_def)
  then obtain es where b: "arm_body s (f, r) = a_name f @ CHR '','' # es" ..
  moreover have "clean (arm_body s (f, r))"
    using clean_plain [OF p] r by (simp add: arm_body_def arm_entry_def nul_def)
  ultimately show ?thesis using entry_name_plain [OF p] by simp
qed

lemma arm_text_spaced:
  "arm_text s every fs = spaced (map (arm_body s) (filter (\<lambda>p. every \<or> a_compiled (fst p)) fs))"
proof -
  have "arm_entry s = (\<lambda>p. CHR '' '' # arm_body s p)"
    by (intro ext) (simp add: arm_body_def arm_entry_def)
  then show ?thesis by (simp add: arm_text_def spaced_def comp_def)
qed

abbreviation on_arm :: "target \<Rightarrow> bool" where
  "on_arm t \<equiv> t_arch t = Arch_aarch64"

lemma compiled_pairs:
  "length xs = length ys \<Longrightarrow>
     map (a_name \<circ> fst) (filter (\<lambda>p. a_compiled (fst p)) (zip xs ys)) = map a_name (filter a_compiled xs)"
  by (induction xs ys rule: list_induct2) simp_all

lemma list_entries:
  "\<exists>es ds. list_text t = list_marker (on_arm t) @ spaced es \<and> list_all (\<lambda>e. clean e \<and> e \<noteq> []) es
     \<and> system_entries (on_arm t) es = Inr ds \<and> map entry_name ds = required_names t"
proof (cases "on_arm t")
  case False
  let ?fs = "filter f_compiled (FEATURES t)"
  have "list_all (\<lambda>e. clean e \<and> e \<noteq> []) (map x86_body ?fs)" "map entry_name (map x86_body ?fs) = map f_name ?fs"
    using x86_body_ok by (fastforce simp: list_all_iff)+
  with False show ?thesis
    by (auto simp: list_text_def x86_list_def x86_text_spaced list_marker_def CPU_MARKER_def
        system_entries_def required_names_def intro!: exI [of _ "map x86_body ?fs"])
next
  case True
  let ?s = "t_os t"
  let ?z = "filter (\<lambda>p. a_compiled (fst p)) (zip (ARM_FEATURES t) REPORTS)"
  define ds where "ds = (if ?s = Other_os then [] else map (arm_body ?s) ?z)"
  have "length (ARM_FEATURES t) = length REPORTS" by (simp add: ARM_FEATURES_def REPORTS_def)
  note pairs = compiled_pairs [OF this]
  have "entry_name (arm_body ?s p) = (a_name \<circ> fst) p" if "p \<in> set ?z" for p
    using arm_body_ok [of "fst p" "snd p" t ?s] that by simp
  then have "map entry_name (map (arm_body ?s) ?z) = map (a_name \<circ> fst) ?z" by simp
  then have names: "map entry_name ds = required_names t"
    using True pairs by (simp add: ds_def required_names_def)
  have "clean (os_name ?s) \<and> os_name ?s \<noteq> []" by (cases ?s) (simp_all add: nul_def)
  moreover have "clean (arm_body ?s p) \<and> arm_body ?s p \<noteq> []" if "p \<in> set ?z" for p
    using arm_body_ok [of "fst p" "snd p" t ?s] that by simp
  ultimately have ok: "list_all (\<lambda>e. clean e \<and> e \<noteq> []) (os_name ?s # ds)"
    by (auto simp: list_all_iff ds_def)
  have sys: "system_entries True (os_name ?s # ds) = Inr ds"
    by (cases ?s) (simp_all add: system_entries_def)
  have "list_text t = list_marker True @ spaced (os_name ?s # ds)"
    using True by (simp add: list_text_def arm_list_def arm_text_spaced list_marker_def
      ARM_MARKER_def spaced_def ds_def)
  with ok sys names True show ?thesis by auto
qed

text \<open>
  C7: What cargo-pwrs reads out of a built library is what the library was compiled with: for
  any target and any extensions enabled, the list \<open>pwrs::cpu\<close> writes, among any bytes that hold
  no marker of their own, reads back as the names of the extensions compiled in, in the order
  of the table.
\<close>

theorem required_reads_back:
  assumes "REQUIREMENTS t = Some written"
    and "find_sub (list_marker (on_arm t)) pre = None"
    and "find_sub (list_marker (on_arm t)) post = None"
    and "find_sub (list_marker (\<not> on_arm t)) (pre @ written @ post) = None"
  shows "required (pre @ written @ post) = Inr (Some (required_names t))"
proof -
  let ?arm = "on_arm t"
  obtain es ds where es: "list_text t = list_marker ?arm @ spaced es"
    "list_all (\<lambda>e. clean e \<and> e \<noteq> []) es" "system_entries ?arm es = Inr ds"
    "map entry_name ds = required_names t"
    using list_entries by blast
  obtain k where k: "REQUIREMENTS_SIZE - length (list_text t) = Suc k"
    using requirements_fit [of t] by (cases "REQUIREMENTS_SIZE - length (list_text t)") auto
  with requirements_fit [of t] assms(1) es(1)
  have w: "written = list_marker ?arm @ spaced es @ nul # replicate k nul" by simp
  have none: "find_sub (list_marker ?arm) (replicate k nul @ post) = None"
    using assms(3) lists.no_nul_start [of ?arm] by (induction k) simp_all
  have "marks_ok (list_marker ?arm) [(pre, spaced es)] (replicate k nul @ post)"
    using assms(2) none spaced_chars [OF es(2)] by (simp add: marks_ok_def)
  from lists.loop_marked [OF this, of None] take_spaced [OF es(2,3)] es(4)
  have this_loop: "required_loop ?arm (pre @ written @ post) None = Inr (Some (required_names t))"
    by (simp add: marked_def w)
  have "required_loop (\<not> ?arm) (pre @ written @ post) found = Inr found" for found
    by (rule lists.loop_none [OF assms(4)])
  with this_loop show ?thesis
    by (cases ?arm) (simp_all add: required_def)
qed

lemma find_past_nul:
  assumes "m \<noteq> []" and "nul \<notin> set m" and "find_sub m b = None"
  shows "find_sub m a = None \<Longrightarrow> find_sub m (a @ nul # b) = None"
proof (induction a)
  case Nil
  from assms have "\<not> prefix m (nul # b)" by (cases m) auto
  with assms(3) show ?case by simp
next
  case (Cons x a)
  have "\<not> prefix m (x # a @ nul # b)"
  proof
    assume "prefix m (x # a @ nul # b)"
    then have "prefix m ((x # a) @ nul # b)" by simp
    then have "prefix m (x # a)"
      using assms(2) by (auto simp: prefix_append prefix_Cons)
    with Cons.prems show False by simp
  qed
  with Cons show ?case by (auto split: if_splits)
qed

lemma required_reads_back_witness:
  "let t = \<lparr>t_arch = Arch_x86_64, t_os = Linux, t_enabled = \<lambda>n. n = ''avx2''\<rparr>
   in \<exists>written. REQUIREMENTS t = Some written
        \<and> required (''ELF'' @ written @ ''end'') = Inr (Some [''avx2''])"
proof -
  let ?t = "\<lparr>t_arch = Arch_x86_64, t_os = Linux, t_enabled = \<lambda>n. n = ''avx2''\<rparr>"
  have lt: "list_text ?t = ''PWRS-CPU/1 avx2,3,7,0,1,5,6''" and names: "required_names ?t = [''avx2'']"
    by code_simp+
  define k where "k = REQUIREMENTS_SIZE - length (list_text ?t)"
  define written where "written = list_text ?t @ replicate k nul"
  have w: "REQUIREMENTS ?t = Some written"
    using requirements_fit [of ?t] by (simp add: written_def k_def)
  have m: "list_marker (on_arm ?t) = CPU_MARKER" "list_marker (\<not> on_arm ?t) = ARM_MARKER"
    by (simp_all add: list_marker_def)
  have "find_sub ARM_MARKER (replicate n nul @ ''end'') = None" for n
  proof (induction n)
    case 0
    show ?case by code_simp
  next
    case (Suc n)
    with find_past_nul [of ARM_MARKER "replicate n nul @ ''end''" "[]"] show ?case
      by (simp add: ARM_MARKER_def nul_def)
  qed
  moreover have "find_sub ARM_MARKER (''ELF'' @ list_text ?t) = None"
    unfolding lt by code_simp
  moreover obtain j where "k = Suc j"
    using requirements_fit [of ?t] by (cases k) (auto simp: k_def)
  ultimately have "find_sub ARM_MARKER (''ELF'' @ written @ ''end'') = None"
    using find_past_nul [of ARM_MARKER "replicate j nul @ ''end''" "''ELF'' @ list_text ?t"]
    by (simp add: written_def ARM_MARKER_def nul_def)
  moreover have "find_sub CPU_MARKER ''ELF'' = None" "find_sub CPU_MARKER ''end'' = None"
    by code_simp+
  ultimately show ?thesis
    using required_reads_back [OF w, of "''ELF''" "''end''"] w names m by (simp only: Let_def) blast
qed

end
