(* ===== verification/Pdb.thy ===== *)
theory Pdb
  imports Marker_Scan
begin

text \<open>
  \<open>crates/cargo-pwrs/src/pdb.rs\<close>: the name of the symbol file a Windows image records, read
  from the image's bytes.  A \<open>usize\<close> is a natural number: every offset is the sum of a few
  \<open>u32\<close> values and small constants, which a 64-bit \<open>usize\<close> holds, so \<open>checked_add\<close> in \<open>span\<close>
  never fails where the slice would not.  Every read that can fail is a value of a sum type.
\<close>

datatype pdb_error =
    EndsInHeaders
  | BadMagic nat
  | NoSection nat
  | PathNotUtf8
  | NoFile string

definition span :: "string \<Rightarrow> nat \<Rightarrow> nat \<Rightarrow> pdb_error + string" where
  "span bytes at len =
     (if at + len \<le> length bytes then Inr (slice bytes at (at + len)) else Inl EndsInHeaders)"

text \<open>\<open>from_le_bytes\<close>.\<close>

primrec le_value :: "string \<Rightarrow> nat" where
  "le_value [] = 0"
| "le_value (b # bs) = code b + 256 * le_value bs"

definition u16_at :: "string \<Rightarrow> nat \<Rightarrow> pdb_error + nat" where
  "u16_at bytes at = map_sum id le_value (span bytes at 2)"

definition u32_at :: "string \<Rightarrow> nat \<Rightarrow> pdb_error + nat" where
  "u32_at bytes at = map_sum id le_value (span bytes at 4)"

text \<open>\<open>path.rfind(['\\', '/'])\<close> and what follows it.\<close>

definition file_name :: "string \<Rightarrow> string" where
  "file_name path =
     (case rposition (\<lambda>c. c = CHR 0x5C \<or> c = CHR ''/'') path of
        Some i \<Rightarrow> drop (i + 1) path
      | None \<Rightarrow> path)"

text \<open>The loop over the section headers, from the one at \<open>header\<close>; \<open>n\<close> are left.\<close>

fun section_loop :: "string \<Rightarrow> nat \<Rightarrow> nat \<Rightarrow> nat \<Rightarrow> pdb_error + nat option" where
  "section_loop bytes debug 0 header = Inr None"
| "section_loop bytes debug (Suc n) header =
     and_then (u32_at bytes (header + 8)) (\<lambda>virtual_size.
     and_then (u32_at bytes (header + 12)) (\<lambda>address.
     and_then (u32_at bytes (header + 16)) (\<lambda>raw_size.
     and_then (u32_at bytes (header + 20)) (\<lambda>raw.
       if address \<le> debug \<and> debug - address < max virtual_size raw_size
       then Inr (Some (raw + (debug - address)))
       else section_loop bytes debug n (header + 40)))))"

definition recorded_path :: "string \<Rightarrow> nat \<Rightarrow> pdb_error + string option" where
  "recorded_path bytes data =
     (if length bytes < data + 24 then Inl EndsInHeaders
      else
        (let rest = drop (data + 24) bytes in
         case position (\<lambda>b. b = nul) rest of
           None \<Rightarrow> Inl EndsInHeaders
         | Some end \<Rightarrow>
             (let path = take end rest in
              if \<not> utf8_ok path then Inl PathNotUtf8
              else if file_name path = [] then Inl (NoFile path)
              else Inr (Some (file_name path)))))"

text \<open>The loop over the entries of the debug directory, from the one at \<open>entry\<close>.\<close>

fun entry_loop :: "string \<Rightarrow> nat \<Rightarrow> nat \<Rightarrow> pdb_error + string option" where
  "entry_loop bytes 0 entry = Inr None"
| "entry_loop bytes (Suc n) entry =
     and_then (u32_at bytes (entry + 12)) (\<lambda>kind.
       if kind \<noteq> 2 then entry_loop bytes n (entry + 28)
       else
         and_then (u32_at bytes (entry + 24)) (\<lambda>data.
         and_then (span bytes data 4) (\<lambda>signature.
           if signature \<noteq> ''RSDS'' then entry_loop bytes n (entry + 28)
           else recorded_path bytes data)))"

definition directories :: "nat \<Rightarrow> nat \<Rightarrow> pdb_error + nat" where
  "directories optional magic =
     (if magic = 0x10b then Inr (optional + 96)
      else if magic = 0x20b then Inr (optional + 112)
      else Inl (BadMagic magic))"

definition recorded :: "string \<Rightarrow> pdb_error + string option" where
  "recorded bytes =
     (if \<not> prefix ''MZ'' bytes then Inr None
      else
        and_then (u32_at bytes 0x3c) (\<lambda>nt.
        and_then (span bytes nt 4) (\<lambda>signature.
          if signature \<noteq> ''PE'' @ [nul, nul] then Inr None
          else
            and_then (u16_at bytes (nt + 6)) (\<lambda>sections.
            let optional = nt + 24 in
            and_then (u16_at bytes optional) (\<lambda>magic.
            and_then (directories optional magic) (\<lambda>dirs.
            and_then (u32_at bytes (dirs - 4)) (\<lambda>count.
              if count < 7 then Inr None
              else
                and_then (u32_at bytes (dirs + 6 * 8)) (\<lambda>debug.
                and_then (u32_at bytes (dirs + 6 * 8 + 4)) (\<lambda>size.
                  if debug = 0 then Inr None
                  else
                    and_then (u16_at bytes (nt + 20)) (\<lambda>optional_size.
                    and_then (section_loop bytes debug sections (optional + optional_size)) (\<lambda>offset.
                      case offset of
                        None \<Rightarrow> Inl (NoSection debug)
                      | Some off \<Rightarrow> entry_loop bytes (size div 28) off)))))))))))"

section \<open>What is read\<close>

text \<open>Reads are of the bytes they name, so bytes added after them change no read that succeeds.\<close>

lemma span_more: "span bytes at len = Inr s \<Longrightarrow> span (bytes @ more) at len = Inr s"
  by (auto simp: span_def slice_def split: if_splits)

lemma u16_more: "u16_at bytes at = Inr v \<Longrightarrow> u16_at (bytes @ more) at = Inr v"
  unfolding u16_at_def map_sum_Inr_iff using span_more by blast

lemma u32_more: "u32_at bytes at = Inr v \<Longrightarrow> u32_at (bytes @ more) at = Inr v"
  unfolding u32_at_def map_sum_Inr_iff using span_more by blast

lemma section_more:
  "section_loop bytes debug n header = Inr r \<Longrightarrow> section_loop (bytes @ more) debug n header = Inr r"
proof (induction n arbitrary: header)
  case (Suc n)
  show ?case
    using Suc.prems unfolding section_loop.simps
    by (elim and_then_mono u32_more) (auto split: if_splits intro: Suc.IH)
qed simp

lemma path_more:
  assumes "recorded_path bytes data = Inr r"
  shows "recorded_path (bytes @ more) data = Inr r"
proof -
  let ?rest = "drop (data + 24) bytes"
  from assms obtain e where len: "data + 24 \<le> length bytes"
      and e: "position (\<lambda>b. b = nul) ?rest = Some e"
    by (auto simp: recorded_path_def Let_def split: if_splits option.splits)
  have rest: "drop (data + 24) (bytes @ more) = ?rest @ more"
    using len by simp
  have found: "position (\<lambda>b. b = nul) (?rest @ more) = Some e"
    using e by (simp add: position_append)
  have path: "take e (?rest @ more) = take e ?rest"
    using position_less [OF e] by simp
  show ?thesis
    using assms len unfolding recorded_path_def rest Let_def found e option.case path
    by (auto split: if_splits)
qed

lemma entry_more: "entry_loop bytes n entry = Inr r \<Longrightarrow> entry_loop (bytes @ more) n entry = Inr r"
proof (induction n arbitrary: entry)
  case (Suc n)
  have found: "and_then (u32_at (bytes @ more) (entry + 24)) (\<lambda>data.
       and_then (span (bytes @ more) data 4) (\<lambda>signature.
         if signature \<noteq> ''RSDS'' then entry_loop (bytes @ more) n (entry + 28)
         else recorded_path (bytes @ more) data)) = Inr r"
    if "and_then (u32_at bytes (entry + 24)) (\<lambda>data.
       and_then (span bytes data 4) (\<lambda>signature.
         if signature \<noteq> ''RSDS'' then entry_loop bytes n (entry + 28) else recorded_path bytes data)) = Inr r"
    using that by (elim and_then_mono u32_more span_more) (auto split: if_splits intro: Suc.IH path_more)
  show ?case
    using Suc.prems unfolding entry_loop.simps
    by (elim and_then_mono u32_more) (auto split: if_splits intro: Suc.IH found)
qed simp

text \<open>A path read from the image names the bytes up to the first zero byte, and its file name is
  what follows its last separator.\<close>

abbreviation separator :: "char \<Rightarrow> bool" where
  "separator c \<equiv> c = CHR 0x5C \<or> c = CHR ''/''"

lemma file_name_splits:
  obtains dir where "path = dir @ file_name path" and "\<forall>c\<in>set (file_name path). \<not> separator c"
    and "dir = [] \<or> separator (last dir)"
proof (cases "rposition separator path")
  case None
  have "file_name path = path"
    using None by (simp add: file_name_def)
  moreover have "\<forall>c\<in>set path. \<not> separator c"
    using None unfolding rposition_None .
  ultimately show thesis
    by (intro that [of "[]"]) simp_all
next
  case (Some i)
  have i: "i < length path" and at: "separator (path ! i)"
      and after: "\<And>c. c \<in> set (drop (i + 1) path) \<Longrightarrow> \<not> separator c"
    using rposition_Some [OF Some] by (auto simp: in_set_conv_nth)
  have name: "file_name path = drop (i + 1) path"
    using Some by (simp add: file_name_def)
  show thesis
  proof (rule that [of "take (i + 1) path"])
    show "path = take (i + 1) path @ file_name path"
      by (simp add: name)
    show "\<forall>c\<in>set (file_name path). \<not> separator c"
      using after by (simp add: name)
    show "take (i + 1) path = [] \<or> separator (last (take (i + 1) path))"
      using i at by (simp add: take_Suc_conv_app_nth)
  qed
qed

definition path_at :: "string \<Rightarrow> nat \<Rightarrow> string \<Rightarrow> bool" where
  "path_at bytes data path \<longleftrightarrow>
     span bytes data 4 = Inr ''RSDS'' \<and> span bytes (data + 24) (length path + 1) = Inr (path @ [nul])
     \<and> nul \<notin> set path \<and> utf8_ok path"

lemma recorded_pathD:
  assumes "recorded_path bytes data = Inr (Some name)" and "span bytes data 4 = Inr ''RSDS''"
  shows "\<exists>path. path_at bytes data path \<and> name = file_name path \<and> name \<noteq> []"
proof -
  let ?rest = "drop (data + 24) bytes"
  from assms(1) obtain e where len: "data + 24 \<le> length bytes"
      and e: "position (\<lambda>b. b = nul) ?rest = Some e" and ok: "utf8_ok (take e ?rest)"
      and name: "name = file_name (take e ?rest)" "name \<noteq> []"
    by (auto simp: recorded_path_def Let_def split: if_splits option.splits)
  have less: "e < length ?rest" and z: "?rest ! e = nul"
    using position_less [OF e] position_holds [OF e] by simp_all
  have whole: "take (Suc e) ?rest = take e ?rest @ [nul]"
    using less z by (simp add: take_Suc_conv_app_nth)
  have "path_at bytes data (take e ?rest)"
    unfolding path_at_def using assms(2) len less ok whole position_take [OF e]
    by (auto simp: span_def slice_def)
  then show ?thesis
    using name by blast
qed

lemma recorded_path_at:
  assumes "path_at bytes data path" and "file_name path \<noteq> []"
  shows "recorded_path bytes data = Inr (Some (file_name path))"
proof -
  have sp: "data + 24 + (length path + 1) \<le> length bytes"
      and cut: "take (length path + 1) (drop (data + 24) bytes) = path @ [nul]"
    using assms(1) by (auto simp: path_at_def span_def slice_def split: if_splits)
  obtain more where rest: "drop (data + 24) bytes = path @ nul # more"
    using append_take_drop_id [of "length path + 1" "drop (data + 24) bytes"] cut
    by (metis append.assoc append_Cons append_Nil)
  have "position (\<lambda>b. b = nul) (path @ nul # more) = Some (length path)"
    by (rule position_skip) (use assms(1) in \<open>auto simp: path_at_def\<close>)
  then show ?thesis
    using sp assms by (simp add: recorded_path_def rest path_at_def)
qed

lemma entry_sound:
  "entry_loop bytes n entry = Inr (Some name) \<Longrightarrow>
   \<exists>data path. path_at bytes data path \<and> name = file_name path \<and> name \<noteq> []"
proof (induction n arbitrary: entry)
  case (Suc n)
  then show ?case
    using recorded_pathD by (fastforce simp: and_then_Inr split: if_splits)
qed simp

text \<open>Why a reading that finds a name finds it: its path is one the image holds.\<close>

lemma recorded_entry:
  assumes "recorded bytes = Inr (Some name)"
  shows "\<exists>n entry. entry_loop bytes n entry = Inr (Some name)"
  using assms by (auto simp: recorded_def and_then_Inr Let_def split: if_splits option.splits)

text \<open>A name that is read is the last part of a path the image holds as CodeView data: it is not
  empty, holds no separator and no zero byte, and is UTF-8 with the directory before it.\<close>
lemma recorded_name:
  assumes "recorded bytes = Inr (Some name)"
  shows "\<exists>data dir. path_at bytes data (dir @ name) \<and> name \<noteq> []
      \<and> (\<forall>c\<in>set name. c \<noteq> CHR 0x5C \<and> c \<noteq> CHR ''/'') \<and> (dir = [] \<or> separator (last dir))"
proof -
  obtain n entry where "entry_loop bytes n entry = Inr (Some name)"
    using recorded_entry [OF assms] by blast
  then obtain data path where path: "path_at bytes data path" "name = file_name path" "name \<noteq> []"
    using entry_sound by blast
  obtain dir where "path = dir @ file_name path" "\<forall>c\<in>set (file_name path). \<not> separator c"
      "dir = [] \<or> separator (last dir)"
    by (rule file_name_splits)
  then show ?thesis
    using path by (metis (full_types))
qed

section \<open>What an image is to hold\<close>

text \<open>The fields of the headers, as a linker writes them: the NT headers at \<open>nt\<close>, whose optional
  header counts \<open>count\<close> data directories, the seventh of them \<open>size\<close> bytes at the address
  \<open>debug\<close>.\<close>

record headers =
  nt_at :: nat
  section_count :: nat
  magic_of :: nat
  dirs_at :: nat
  debug_at :: nat
  size_of :: nat
  table_at :: nat

definition has_headers :: "string \<Rightarrow> headers \<Rightarrow> bool" where
  "has_headers bytes h \<longleftrightarrow>
     prefix ''MZ'' bytes \<and> u32_at bytes 0x3c = Inr (nt_at h)
     \<and> span bytes (nt_at h) 4 = Inr (''PE'' @ [nul, nul])
     \<and> u16_at bytes (nt_at h + 6) = Inr (section_count h) \<and> u16_at bytes (nt_at h + 24) = Inr (magic_of h)
     \<and> directories (nt_at h + 24) (magic_of h) = Inr (dirs_at h)
     \<and> (\<exists>count\<ge>7. u32_at bytes (dirs_at h - 4) = Inr count)
     \<and> u32_at bytes (dirs_at h + 48) = Inr (debug_at h) \<and> debug_at h \<noteq> 0
     \<and> u32_at bytes (dirs_at h + 52) = Inr (size_of h)
     \<and> (\<exists>size. u16_at bytes (nt_at h + 20) = Inr size \<and> table_at h = nt_at h + 24 + size)"

text \<open>The section header at \<open>header\<close> holds \<open>length\<close> bytes at the address \<open>address\<close>, which are at
  \<open>raw\<close> in the file.\<close>

definition section_at :: "string \<Rightarrow> nat \<Rightarrow> nat \<Rightarrow> nat \<Rightarrow> nat \<Rightarrow> bool" where
  "section_at bytes header address len raw \<longleftrightarrow>
     u32_at bytes (header + 12) = Inr address \<and> u32_at bytes (header + 20) = Inr raw
     \<and> (\<exists>virtual_size raw_size. u32_at bytes (header + 8) = Inr virtual_size
          \<and> u32_at bytes (header + 16) = Inr raw_size \<and> len = max virtual_size raw_size)"

definition misses :: "string \<Rightarrow> nat \<Rightarrow> nat \<Rightarrow> bool" where
  "misses bytes debug header \<longleftrightarrow>
     (\<exists>address len raw. section_at bytes header address len raw
        \<and> \<not> (address \<le> debug \<and> debug < address + len))"

lemma section_loop_finds:
  assumes "i < n" and "\<And>j. j < i \<Longrightarrow> misses bytes debug (header + 40 * j)"
    and "section_at bytes (header + 40 * i) address len raw"
    and "address \<le> debug" and "debug < address + len"
  shows "section_loop bytes debug n header = Inr (Some (raw + (debug - address)))"
  using assms(1-3)
proof (induction n arbitrary: i header)
  case (Suc n)
  show ?case
  proof (cases i)
    case 0
    then show ?thesis
      using Suc.prems(3) assms(4,5) by (auto simp: section_at_def)
  next
    case (Suc k)
    have "misses bytes debug header"
      using Suc.prems(2) [of 0] Suc by simp
    moreover have "section_loop bytes debug n (header + 40) = Inr (Some (raw + (debug - address)))"
    proof (rule Suc.IH)
      show "k < n"
        using Suc.prems(1) Suc by simp
      show "misses bytes debug (header + 40 + 40 * j)" if "j < k" for j
        using Suc.prems(2) [of "Suc j"] that Suc by (simp add: ac_simps)
      show "section_at bytes (header + 40 + 40 * k) address len raw"
        using Suc.prems(3) Suc by (simp add: ac_simps)
    qed
    ultimately show ?thesis
      by (auto simp: misses_def section_at_def)
  qed
qed simp

text \<open>An entry of the debug directory that is CodeView data with the signature of a \<open>.pdb\<close>, and one
  that is not.\<close>

definition codeview :: "string \<Rightarrow> nat \<Rightarrow> nat \<Rightarrow> bool" where
  "codeview bytes entry data \<longleftrightarrow>
     u32_at bytes (entry + 12) = Inr 2 \<and> u32_at bytes (entry + 24) = Inr data
     \<and> span bytes data 4 = Inr ''RSDS''"

definition other_entry :: "string \<Rightarrow> nat \<Rightarrow> bool" where
  "other_entry bytes entry \<longleftrightarrow>
     (\<exists>kind. u32_at bytes (entry + 12) = Inr kind \<and> kind \<noteq> 2)
     \<or> (\<exists>data s. u32_at bytes (entry + 12) = Inr 2 \<and> u32_at bytes (entry + 24) = Inr data
          \<and> span bytes data 4 = Inr s \<and> s \<noteq> ''RSDS'')"

lemma entry_loop_finds:
  assumes "k < n" and "\<And>j. j < k \<Longrightarrow> other_entry bytes (entry + 28 * j)"
    and "codeview bytes (entry + 28 * k) data"
  shows "entry_loop bytes n entry = recorded_path bytes data"
  using assms
proof (induction n arbitrary: k entry)
  case (Suc n)
  show ?case
  proof (cases k)
    case 0
    then show ?thesis
      using Suc.prems(3) by (simp add: codeview_def)
  next
    case (Suc i)
    have "other_entry bytes entry"
      using Suc.prems(2) [of 0] Suc by simp
    moreover have "entry_loop bytes n (entry + 28) = recorded_path bytes data"
    proof (rule Suc.IH)
      show "i < n"
        using Suc.prems(1) Suc by simp
      show "other_entry bytes (entry + 28 + 28 * j)" if "j < i" for j
        using Suc.prems(2) [of "Suc j"] that Suc by (simp add: ac_simps)
      show "codeview bytes (entry + 28 + 28 * i) data"
        using Suc.prems(3) Suc by (simp add: ac_simps)
    qed
    ultimately show ?thesis
      by (auto simp: other_entry_def)
  qed
qed simp

lemma recorded_headers:
  assumes "has_headers bytes h"
  shows "recorded bytes =
    and_then (section_loop bytes (debug_at h) (section_count h) (table_at h)) (\<lambda>offset.
      case offset of
        None \<Rightarrow> Inl (NoSection (debug_at h))
      | Some off \<Rightarrow> entry_loop bytes (size_of h div 28) off)"
  using assms by (auto simp: has_headers_def recorded_def Let_def add.commute [of 52])

lemma recorded_has_headers:
  assumes "recorded bytes = Inr (Some name)"
  obtains h where "has_headers bytes h"
proof -
  from assms obtain nt sections magic dirs count debug size optional_size
    where "has_headers bytes \<lparr>nt_at = nt, section_count = sections, magic_of = magic, dirs_at = dirs,
      debug_at = debug, size_of = size, table_at = nt + 24 + optional_size\<rparr>"
    unfolding has_headers_def recorded_def Let_def
    by (fastforce simp: and_then_Inr add.commute [of 52] split: if_splits option.splits)
  then show thesis
    by (rule that)
qed

lemma headers_more: "has_headers bytes h \<Longrightarrow> has_headers (bytes @ rest) h"
  by (auto simp: has_headers_def prefix_def dest: u16_more u32_more span_more)

lemma recorded_more:
  assumes "recorded bytes = Inr (Some name)"
  shows "recorded (bytes @ rest) = Inr (Some name)"
proof -
  obtain h where h: "has_headers bytes h"
    by (rule recorded_has_headers [OF assms])
  show ?thesis
    using assms unfolding recorded_headers [OF h] recorded_headers [OF headers_more [OF h]]
    by (elim and_then_mono section_more) (auto split: option.splits dest: entry_more)
qed

text \<open>Of an image with the headers \<open>h\<close>, the first section that holds the address of the debug
  directory places its entries, the first of them with CodeView data names the path, and the name is
  the path's last part; and bytes after the image, such as a signature, change nothing.\<close>
lemma recorded_finds:
  assumes "has_headers bytes h"
    and "i < section_count h" and "\<And>j. j < i \<Longrightarrow> misses bytes (debug_at h) (table_at h + 40 * j)"
    and "section_at bytes (table_at h + 40 * i) address len raw"
    and "address \<le> debug_at h" and "debug_at h < address + len"
    and "k < size_of h div 28"
    and "\<And>j. j < k \<Longrightarrow> other_entry bytes (raw + (debug_at h - address) + 28 * j)"
    and "codeview bytes (raw + (debug_at h - address) + 28 * k) data"
    and "path_at bytes data path" and "file_name path \<noteq> []"
  shows "recorded (bytes @ rest) = Inr (Some (file_name path))"
proof -
  have sections: "section_loop bytes (debug_at h) (section_count h) (table_at h) = Inr (Some (raw + (debug_at h - address)))"
    by (rule section_loop_finds [OF assms(2-6)])
  have entries: "entry_loop bytes (size_of h div 28) (raw + (debug_at h - address)) = recorded_path bytes data"
    by (rule entry_loop_finds [OF assms(7-9)])
  have "recorded bytes = Inr (Some (file_name path))"
    using recorded_path_at [OF assms(10,11)]
    unfolding recorded_headers [OF assms(1)] sections and_then.simps option.case entries .
  then show ?thesis
    by (rule recorded_more)
qed

text \<open>An image of one section and one entry, which names \<open>b/a.pdb\<close>.\<close>

definition word_bytes :: "nat \<Rightarrow> string" where
  "word_bytes v = [char_of (v mod 256), char_of (v div 256), nul, nul]"

definition small_image :: string where
  "small_image =
     ''MZ'' @ replicate 58 nul @ word_bytes 64
     @ ''PE'' @ replicate 4 nul @ [char_of (1::nat)] @ replicate 13 nul @ word_bytes 152
     @ [char_of (11::nat), char_of (1::nat)] @ replicate 90 nul @ word_bytes 16
     @ replicate 48 nul @ word_bytes 16 @ word_bytes 28
     @ replicate 8 nul @ word_bytes 28 @ word_bytes 16 @ word_bytes 28 @ word_bytes 280 @ replicate 16 nul
     @ replicate 12 nul @ word_bytes 2 @ replicate 8 nul @ word_bytes 308
     @ ''RSDS'' @ replicate 20 nul @ ''b/a.pdb'' @ [nul]"

lemma small_image_reads:
  "map (u32_at small_image) [60, 180, 232, 236, 248, 252, 256, 260, 292, 304]
    = map Inr [64, 16, 16, 28, 28, 16, 28, 280, 2, 308]"
  "map (u16_at small_image) [70, 84, 88] = map Inr [1, 152, 267]"
  "span small_image 64 4 = Inr (''PE'' @ [nul, nul])"
  "span small_image 308 4 = Inr ''RSDS''"
  "path_at small_image 308 ''b/a.pdb''"
  "prefix ''MZ'' small_image"
  by code_simp+

lemma small_image_headers:
  "has_headers small_image \<lparr>nt_at = 64, section_count = 1, magic_of = 267, dirs_at = 184, debug_at = 16,
     size_of = 28, table_at = 240\<rparr>"
  using small_image_reads by (simp add: has_headers_def directories_def)

lemma recorded_finds_witness: "recorded (small_image @ ''signed'') = Inr (Some ''a.pdb'')"
proof -
  have name: "file_name ''b/a.pdb'' = ''a.pdb''"
    by code_simp
  show ?thesis
    by (rule recorded_finds [OF small_image_headers, of 0 16 28 280 0 308 "''b/a.pdb''", simplified name])
      (use small_image_reads name in \<open>simp_all add: section_at_def codeview_def\<close>)
qed

lemma recorded_name_witness:
  "\<exists>data dir. path_at small_image data (dir @ ''a.pdb'') \<and> ''a.pdb'' \<noteq> []
     \<and> (\<forall>c\<in>set ''a.pdb''. c \<noteq> CHR 0x5C \<and> c \<noteq> CHR ''/'') \<and> (dir = [] \<or> separator (last dir))"
proof -
  have "recorded small_image = Inr (Some ''a.pdb'')"
    by code_simp
  then show ?thesis
    by (rule recorded_name)
qed

end
