(* ===== verification/Transitions.thy ===== *)
theory Transitions
  imports Prelude
begin

text \<open>
  Step relations whose steps belong to threads: what is reached, invariants, and operations that end
  within a number of their own thread's steps.  The concurrent components are interpretations of the
  locales.
\<close>

type_synonym ('s, 't) steps = "'s \<Rightarrow> 't \<Rightarrow> 's \<Rightarrow> bool"

inductive reaches :: "('s, 't) steps \<Rightarrow> 's \<Rightarrow> 's \<Rightarrow> bool" for step start where
  reaches_start: "reaches step start start"
| reaches_step: "reaches step start s \<Longrightarrow> step s t s' \<Longrightarrow> reaches step start s'"

text \<open>A path is the threads that move and the states they move to.\<close>

fun path :: "('s, 't) steps \<Rightarrow> 's \<Rightarrow> ('t \<times> 's) list \<Rightarrow> bool" where
  "path step s [] = True"
| "path step s ((t, s') # p) = (step s t s' \<and> path step s' p)"

definition steps_of :: "'t \<Rightarrow> ('t \<times> 's) list \<Rightarrow> nat" where
  "steps_of t p = length (filter (\<lambda>m. fst m = t) p)"

lemma steps_of_simps [simp]:
  "steps_of t [] = 0"
  "steps_of t ((u, s) # p) = (if u = t then 1 else 0) + steps_of t p"
  by (simp_all add: steps_of_def)

lemma reaches_path: "reaches step start s \<Longrightarrow> path step s p \<Longrightarrow> m \<in> set p \<Longrightarrow> reaches step start (snd m)"
proof (induction p arbitrary: s)
  case (Cons x p)
  obtain t s' where x: "x = (t, s')"
    by fastforce
  then have "reaches step start s'"
    using Cons.prems by (auto intro: reaches_step)
  then show ?case
    using Cons x by auto
qed simp

locale protocol =
  fixes start :: 's and step :: "('s, 't) steps" and inv :: "'s \<Rightarrow> bool"
  assumes inv_start: "inv start"
    and inv_step: "inv s \<Longrightarrow> step s t s' \<Longrightarrow> inv s'"
begin

lemma inv_reached: "reaches step start s \<Longrightarrow> inv s"
  by (induction rule: reaches.induct) (auto intro: inv_start inv_step)

end

text \<open>A thread's operation never waits for another thread, and ends within \<open>left\<close> of its steps.\<close>

locale wait_free = protocol +
  fixes resting :: "'a \<Rightarrow> 'b \<Rightarrow> bool" and left :: "'a \<Rightarrow> 'b \<Rightarrow> nat"
  assumes own_step: "inv s \<Longrightarrow> step s t s' \<Longrightarrow> \<not> resting s t \<Longrightarrow> \<not> resting s' t \<Longrightarrow> left s' t < left s t"
    and other_step: "inv s \<Longrightarrow> step s u s' \<Longrightarrow> u \<noteq> t \<Longrightarrow> left s' t = left s t \<and> resting s' t = resting s t"
    and can_step: "inv s \<Longrightarrow> \<not> resting s t \<Longrightarrow> \<exists>s'. step s t s'"
begin

lemma ends_from:
  "inv s \<Longrightarrow> \<not> resting s t \<Longrightarrow> path step s p \<Longrightarrow> left s t < steps_of t p \<Longrightarrow> \<exists>m\<in>set p. resting (snd m) t"
proof (induction p arbitrary: s)
  case (Cons m p)
  obtain u s' where m: "m = (u, s')"
    by fastforce
  have step: "step s u s'" and rest: "path step s' p"
    using Cons.prems(3) m by auto
  have inv: "inv s'"
    using inv_step Cons.prems(1) step by blast
  show ?case
  proof (cases "resting s' t")
    case True
    then show ?thesis
      using m by auto
  next
    case False
    have "left s' t < steps_of t p"
      using own_step [OF Cons.prems(1)] other_step [OF Cons.prems(1)] step False Cons.prems(2,4) m
      by (cases "u = t") fastforce+
    then show ?thesis
      using Cons.IH [OF inv False rest] by auto
  qed
qed simp

lemma ends:
  assumes "reaches step start s" and "\<not> resting s t" and "path step s p" and "left s t < steps_of t p"
  shows "\<exists>m\<in>set p. resting (snd m) t"
  using ends_from [OF inv_reached] assms by blast

end

end
