(* ===== verification/Stop_Waker.thy ===== *)
theory Stop_Waker
  imports Transitions
begin

text \<open>
  \<open>crates/pwrs/src/stop.rs\<close>: the slot for the one waker a cmdlet instance registers for the
  pipeline's stop.  Threads are numbers, and so are wakers, each boxed once.  A step of the relation
  is one atomic operation of one thread (the store, the load, the exchange and the swap, all
  sequentially consistent, so one order of all of them exists), the call of a waker, its return or
  its panic, or the freeing of a box.  \<open>made\<close>, \<open>taken\<close>, \<open>ran\<close> and \<open>freed\<close> record what
  happened to each waker and no step reads them, but that a new waker is not one made before.
\<close>

type_synonym waker = nat
type_synonym thread = nat

section \<open>The slot\<close>

text \<open>\<open>StopWakerSlot::take\<close>: the swap with null.\<close>

definition take_slot :: "waker option \<Rightarrow> waker option \<times> waker option" where
  "take_slot slot = (slot, None)"

text \<open>\<open>StopWakerSlot::register\<close>: the exchange with null; false leaves the box with the caller,
  which drops it.\<close>

definition register_slot :: "waker option \<Rightarrow> waker \<Rightarrow> bool \<times> waker option" where
  "register_slot slot w = (case slot of None \<Rightarrow> (True, Some w) | Some v \<Rightarrow> (False, slot))"

section \<open>Threads\<close>

text \<open>
  Where a thread is: outside the functions; in \<open>stop\<close> before its store; in \<open>register\<close> before
  the exchange and, refused, before it drops the box; in \<open>on_stop\<close> before its load; before the
  swap of \<open>take\<close>; with the waker it took, before \<open>run\<close> calls it and while it runs; and with a
  box it frees without a call.  \<open>then\<close> is \<open>Some w\<close> where \<open>on_stop\<close> goes on to return the guard
  of the waker \<open>w\<close>, and \<open>None\<close> in \<open>stop\<close>.
\<close>

datatype pc =
    Outside
  | Storing
  | Exchanging waker
  | Refusing waker
  | Loading waker
  | Taking "waker option"
  | Calling waker "waker option"
  | Running waker "waker option"
  | Freeing waker

record stop_state =
  stopping :: bool
  slot :: "waker option"
  pcs :: "thread \<Rightarrow> pc"
  guards :: "waker set"
  closed :: bool
  made :: "waker set"
  accepted :: "waker set"
  withdrawn :: "waker set"
  ran :: "waker \<Rightarrow> nat"
  freed :: "waker \<Rightarrow> nat"
  reports :: nat

definition fresh_instance :: stop_state where
  "fresh_instance =
     \<lparr>stopping = False, slot = None, pcs = (\<lambda>t. Outside), guards = {}, closed = False, made = {},
      accepted = {}, withdrawn = {}, ran = (\<lambda>w. 0), freed = (\<lambda>w. 0), reports = 0\<rparr>"

definition goes :: "thread \<Rightarrow> pc \<Rightarrow> stop_state \<Rightarrow> stop_state" where
  "goes t p s = s\<lparr>pcs := (pcs s)(t := p)\<rparr>"

text \<open>The end of \<open>stop\<close>, and of \<open>on_stop\<close>, whose guard is in the caller's hands.\<close>

definition returns :: "thread \<Rightarrow> waker option \<Rightarrow> stop_state \<Rightarrow> stop_state" where
  "returns t k s = goes t Outside (s\<lparr>guards := guards s \<union> set_option k\<rparr>)"

definition frees :: "waker \<Rightarrow> stop_state \<Rightarrow> stop_state" where
  "frees w s = s\<lparr>freed := (freed s)(w := freed s w + 1)\<rparr>"

text \<open>The drop of a guard and of the slot: \<open>drop(self.take())\<close>.\<close>

definition withdraws :: "thread \<Rightarrow> stop_state \<Rightarrow> stop_state" where
  "withdraws t s =
     (case take_slot (slot s) of
        (None, slot') \<Rightarrow> s\<lparr>slot := slot'\<rparr>
      | (Some w, slot') \<Rightarrow> goes t (Freeing w) (s\<lparr>slot := slot', withdrawn := withdrawn s \<union> {w}\<rparr>))"

inductive stop_step :: "stop_state \<Rightarrow> thread \<Rightarrow> stop_state \<Rightarrow> bool" where
  enter_stop:
    "pcs s t = Outside \<Longrightarrow> \<not> closed s \<Longrightarrow> stop_step s t (goes t Storing s)"
| store:
    "pcs s t = Storing \<Longrightarrow> stop_step s t (goes t (Taking None) (s\<lparr>stopping := True\<rparr>))"
| enter_on_stop:
    "pcs s t = Outside \<Longrightarrow> \<not> closed s \<Longrightarrow> w \<notin> made s \<Longrightarrow>
     stop_step s t (goes t (Exchanging w) (s\<lparr>made := made s \<union> {w}\<rparr>))"
| exchange:
    "pcs s t = Exchanging w \<Longrightarrow> register_slot (slot s) w = (True, slot') \<Longrightarrow>
     stop_step s t (goes t (Loading w) (s\<lparr>slot := slot', accepted := accepted s \<union> {w}\<rparr>))"
| exchange_fails:
    "pcs s t = Exchanging w \<Longrightarrow> register_slot (slot s) w = (False, slot') \<Longrightarrow>
     stop_step s t (goes t (Refusing w) (s\<lparr>slot := slot'\<rparr>))"
| refuse:
    "pcs s t = Refusing w \<Longrightarrow> stop_step s t (goes t Outside (frees w s))"
| load_unset:
    "pcs s t = Loading w \<Longrightarrow> \<not> stopping s \<Longrightarrow> stop_step s t (returns t (Some w) s)"
| load_set:
    "pcs s t = Loading w \<Longrightarrow> stopping s \<Longrightarrow> stop_step s t (goes t (Taking (Some w)) s)"
| take_none:
    "pcs s t = Taking k \<Longrightarrow> take_slot (slot s) = (None, slot') \<Longrightarrow>
     stop_step s t (returns t k (s\<lparr>slot := slot'\<rparr>))"
| take_some:
    "pcs s t = Taking k \<Longrightarrow> take_slot (slot s) = (Some w, slot') \<Longrightarrow>
     stop_step s t (goes t (Calling w k) (s\<lparr>slot := slot'\<rparr>))"
| call:
    "pcs s t = Calling w k \<Longrightarrow>
     stop_step s t (goes t (Running w k) (s\<lparr>ran := (ran s)(w := ran s w + 1)\<rparr>))"
| call_returns:
    "pcs s t = Running w k \<Longrightarrow> stop_step s t (returns t k (frees w s))"
| call_panics:
    "pcs s t = Running w k \<Longrightarrow>
     stop_step s t (returns t k (frees w s\<lparr>reports := reports s + 1\<rparr>))"
| drop_guard:
    "pcs s t = Outside \<Longrightarrow> g \<in> guards s \<Longrightarrow>
     stop_step s t (withdraws t (s\<lparr>guards := guards s - {g}\<rparr>))"
| free:
    "pcs s t = Freeing w \<Longrightarrow> stop_step s t (goes t Outside (frees w s))"
| drop_slot:
    "\<forall>u. pcs s u = Outside \<Longrightarrow> guards s = {} \<Longrightarrow> \<not> closed s \<Longrightarrow>
     stop_step s t (withdraws t (s\<lparr>closed := True\<rparr>))"

inductive_cases stop_stepE: "stop_step s t s'"

lemmas stop_ops = goes_def returns_def frees_def withdraws_def take_slot_def register_slot_def

section \<open>Who owns a waker\<close>

fun owns :: "pc \<Rightarrow> waker option" where
  "owns (Exchanging w) = Some w"
| "owns (Refusing w) = Some w"
| "owns (Calling w k) = Some w"
| "owns (Running w k) = Some w"
| "owns (Freeing w) = Some w"
| "owns p = None"

text \<open>The waker whose registration a thread is still in \<open>on_stop\<close> for.\<close>

fun registers :: "pc \<Rightarrow> waker option" where
  "registers (Exchanging w) = Some w"
| "registers (Refusing w) = Some w"
| "registers (Loading w) = Some w"
| "registers (Taking k) = k"
| "registers (Calling w k) = k"
| "registers (Running w k) = k"
| "registers p = None"

definition one_owner :: "stop_state \<Rightarrow> bool" where
  "one_owner s \<longleftrightarrow>
     (\<forall>t u w. owns (pcs s t) = Some w \<and> owns (pcs s u) = Some w \<longrightarrow> t = u)
     \<and> (\<forall>t w. owns (pcs s t) = Some w \<longrightarrow> slot s \<noteq> Some w \<and> w \<in> made s \<and> freed s w = 0)
     \<and> (\<forall>w. slot s = Some w \<longrightarrow> w \<in> made s \<and> freed s w = 0)
     \<and> (\<forall>w. w \<notin> made s \<longrightarrow> freed s w = 0)"

definition freed_once :: "stop_state \<Rightarrow> bool" where
  "freed_once s \<longleftrightarrow>
     (\<forall>w. freed s w \<le> 1
        \<and> (w \<in> made s \<and> freed s w = 0 \<longrightarrow> slot s = Some w \<or> (\<exists>t. owns (pcs s t) = Some w)))"

definition ran_once :: "stop_state \<Rightarrow> bool" where
  "ran_once s \<longleftrightarrow>
     (\<forall>w. ran s w \<le> 1 \<and> (w \<notin> made s \<longrightarrow> ran s w = 0) \<and> (slot s = Some w \<longrightarrow> ran s w = 0)
        \<and> (\<forall>t. owns (pcs s t) = Some w \<longrightarrow> (ran s w = 1 \<longleftrightarrow> (\<exists>k. pcs s t = Running w k))))"

definition one_registrant :: "stop_state \<Rightarrow> bool" where
  "one_registrant s \<longleftrightarrow>
     (\<forall>t u w. registers (pcs s t) = Some w \<and> registers (pcs s u) = Some w \<longrightarrow> t = u)
     \<and> (\<forall>t w. registers (pcs s t) = Some w \<longrightarrow> w \<notin> guards s \<and> w \<in> made s)
     \<and> guards s \<subseteq> made s"

text \<open>While the stop has not come, the slot holds the waker of the one registration there is.\<close>

definition own_guard :: "stop_state \<Rightarrow> bool" where
  "own_guard s \<longleftrightarrow>
     (\<not> stopping s \<longrightarrow>
        (\<forall>t k. pcs s t \<noteq> Taking k \<and> (\<forall>w. pcs s t \<noteq> Calling w k \<and> pcs s t \<noteq> Running w k))
        \<and> (\<forall>t w. pcs s t = Loading w \<longrightarrow> slot s = Some w) \<and> (\<forall>w\<in>guards s. slot s = Some w))"

text \<open>Once the stop has come, a waker in the slot is about to be taken.\<close>

fun takes :: "pc \<Rightarrow> bool" where
  "takes (Taking k) = True"
| "takes (Loading w) = True"
| "takes p = False"

definition will_take :: "stop_state \<Rightarrow> bool" where
  "will_take s \<longleftrightarrow>
     (stopping s \<and> slot s \<noteq> None \<longrightarrow>
        (\<exists>t. takes (pcs s t)))"

definition settled :: "stop_state \<Rightarrow> bool" where
  "settled s \<longleftrightarrow>
     accepted s \<subseteq> made s \<and> withdrawn s \<subseteq> accepted s
     \<and> (\<forall>t w. pcs s t = Exchanging w \<or> pcs s t = Refusing w \<longrightarrow> w \<notin> accepted s)
     \<and> (\<forall>t w. pcs s t = Freeing w \<longrightarrow> w \<in> withdrawn s)
     \<and> (\<forall>t w k. pcs s t = Calling w k \<or> pcs s t = Running w k \<longrightarrow> w \<in> accepted s \<and> w \<notin> withdrawn s)
     \<and> (\<forall>w. slot s = Some w \<longrightarrow> w \<in> accepted s \<and> w \<notin> withdrawn s)
     \<and> (\<forall>w. freed s w = 1 \<and> w \<in> accepted s \<longrightarrow> (ran s w = 1 \<longleftrightarrow> w \<notin> withdrawn s))
     \<and> (\<forall>w. w \<notin> accepted s \<or> w \<in> withdrawn s \<longrightarrow> ran s w = 0)"



lemma one_ownerD:
  assumes "one_owner s"
  shows "\<forall>w. owns (pcs s t) = Some w \<longrightarrow>
      slot s \<noteq> Some w \<and> w \<in> made s \<and> freed s w = 0 \<and> (\<forall>u. owns (pcs s u) = Some w \<longrightarrow> u = t)"
  using assms unfolding one_owner_def by blast

lemma one_registrantD:
  assumes "one_registrant s"
  shows "\<forall>w. registers (pcs s t) = Some w \<longrightarrow>
      w \<notin> guards s \<and> w \<in> made s \<and> (\<forall>u. registers (pcs s u) = Some w \<longrightarrow> u = t)"
  using assms unfolding one_registrant_def by blast

lemma ran_onceD:
  assumes "ran_once s"
  shows "\<forall>w. owns (pcs s t) = Some w \<longrightarrow> ran s w = (if \<exists>k. pcs s t = Running w k then 1 else 0)"
  using assms unfolding ran_once_def by (fastforce simp: le_Suc_eq)

lemma own_guardD:
  assumes "own_guard s"
  shows "\<forall>w. pcs s t = Loading w \<and> \<not> stopping s \<longrightarrow> slot s = Some w"
  using assms unfolding own_guard_def by blast

lemma in_slotD:
  assumes "one_owner s" and "ran_once s"
  shows "\<forall>w. slot s = Some w \<longrightarrow> freed s w = 0 \<and> ran s w = 0 \<and> w \<in> made s
      \<and> (\<forall>u k. pcs s u \<noteq> Calling w k \<and> pcs s u \<noteq> Running w k)"
  using assms unfolding one_owner_def ran_once_def by (metis owns.simps(3,4))

lemma one_owner_step:
  assumes "one_owner s" and "stop_step s t s'"
  shows "one_owner s'"
  using assms(2,1) one_ownerD [OF assms(1), of t]
  by (cases rule: stop_step.cases) (auto simp: one_owner_def stop_ops split: if_splits option.splits)

lemma one_registrant_step:
  assumes "one_registrant s" and "stop_step s t s'"
  shows "one_registrant s'"
  using assms(2,1) one_registrantD [OF assms(1), of t]
  by (cases rule: stop_step.cases) (auto simp: one_registrant_def stop_ops split: if_splits option.splits)

lemma freed_once_step:
  assumes "one_owner s" and "freed_once s" and "stop_step s t s'"
  shows "freed_once s'"
proof -
  have "freed s' w \<le> 1" for w
    using assms(3,2) one_ownerD [OF assms(1), of t]
    by (cases rule: stop_step.cases) (auto simp: freed_once_def stop_ops split: if_splits option.splits)
  moreover have "slot s' = Some w \<or> (\<exists>u. owns (pcs s' u) = Some w)"
    if new: "w \<in> made s'" "freed s' w = 0" for w
  proof (cases "\<exists>u. u \<noteq> t \<and> owns (pcs s u) = Some w")
    case True
    then obtain u where "u \<noteq> t" "owns (pcs s u) = Some w"
      by blast
    moreover have "pcs s' u = pcs s u"
      using assms(3) \<open>u \<noteq> t\<close> by (cases rule: stop_step.cases) (auto simp: stop_ops split: option.splits)
    ultimately show ?thesis
      by metis
  next
    case False
    have keep: "w \<in> made s \<and> freed s w = 0 \<Longrightarrow> slot s = Some w \<or> owns (pcs s t) = Some w"
      using assms(2) False unfolding freed_once_def by metis
    have "slot s' = Some w \<or> owns (pcs s' t) = Some w"
      using assms(3) new keep one_ownerD [OF assms(1), of t]
      by (cases rule: stop_step.cases) (auto simp: stop_ops split: if_splits option.splits)
    then show ?thesis
      by blast
  qed
  ultimately show ?thesis
    unfolding freed_once_def by blast
qed

lemma ran_once_step:
  assumes "one_owner s" and "ran_once s" and "stop_step s t s'"
  shows "ran_once s'"
  using assms(3,2) one_ownerD [OF assms(1), of t] ran_onceD [OF assms(2), of t]
  by (cases rule: stop_step.cases) (auto simp: ran_once_def stop_ops split: if_splits option.splits)

lemma own_guard_returns:
  assumes "own_guard s" and "\<not> stopping s" and "slot s = Some w"
  shows "own_guard (returns t (Some w) s)"
  unfolding own_guard_def
proof (intro impI conjI allI ballI)
  note own = assms(1) [unfolded own_guard_def, rule_format, OF assms(2)]
  fix u v k x
  show "pcs (returns t (Some w) s) u \<noteq> Taking k"
      and "pcs (returns t (Some w) s) u \<noteq> Calling v k"
      and "pcs (returns t (Some w) s) u \<noteq> Running v k"
    using own by (simp_all add: stop_ops)
  show "slot (returns t (Some w) s) = Some v" if "pcs (returns t (Some w) s) u = Loading v"
    using own that assms(3) by (auto simp: stop_ops split: if_splits)
  show "slot (returns t (Some w) s) = Some v" if "v \<in> guards (returns t (Some w) s)"
    using own that assms(3) by (auto simp: stop_ops)
qed

lemma own_guard_drops:
  assumes "own_guard s" and "one_registrant s" and "g \<in> guards s"
  shows "own_guard (withdraws t (s\<lparr>guards := guards s - {g}\<rparr>))"
proof (cases "stopping s")
  case False
  note own = assms(1) [unfolded own_guard_def, rule_format, OF False]
  have slot: "slot s = Some g"
    using own assms(3) by simp
  have "guards s - {g} = {}"
    using own slot by auto
  moreover have "pcs s u \<noteq> Loading w" for u w
  proof
    assume loads: "pcs s u = Loading w"
    then have "w = g"
      using own slot by auto
    then show False
      using loads assms(2,3) one_registrantD [OF assms(2), of u] by simp
  qed
  ultimately show ?thesis
    using own slot by (simp add: own_guard_def stop_ops)
qed (simp add: own_guard_def stop_ops split: option.splits)

lemma own_guard_step:
  assumes "one_registrant s" and "own_guard s" and "stop_step s t s'"
  shows "own_guard s'"
  using assms(3,2) one_registrantD [OF assms(1), of t] own_guardD [OF assms(2), of t]
proof (cases rule: stop_step.cases)
  case (load_unset w)
  then show ?thesis
    using own_guard_returns [OF assms(2)] own_guardD [OF assms(2), of t] by simp
next
  case (drop_guard g)
  then show ?thesis
    using own_guard_drops [OF assms(2,1)] by simp
qed (auto simp: own_guard_def stop_ops split: if_splits option.splits)

lemma settled_step:
  assumes "one_owner s" and "ran_once s" and "settled s" and "stop_step s t s'"
  shows "settled s'"
  using assms(4,3) one_ownerD [OF assms(1), of t] ran_onceD [OF assms(2), of t] in_slotD [OF assms(1,2)]
  by (cases rule: stop_step.cases) (auto simp: settled_def stop_ops split: if_splits option.splits)

lemma will_take_step:
  assumes "will_take s" and "stop_step s t s'"
  shows "will_take s'"
  unfolding will_take_def
proof
  assume new: "stopping s' \<and> slot s' \<noteq> None"
  show "\<exists>u. takes (pcs s' u)"
  proof (cases "\<exists>u. u \<noteq> t \<and> takes (pcs s u)")
    case True
    then obtain u where "u \<noteq> t" "takes (pcs s u)"
      by blast
    moreover have "pcs s' u = pcs s u"
      using assms(2) \<open>u \<noteq> t\<close> by (cases rule: stop_step.cases) (auto simp: stop_ops split: option.splits)
    ultimately show ?thesis
      by metis
  next
    case False
    have keep: "stopping s \<and> slot s \<noteq> None \<Longrightarrow> takes (pcs s t)"
      using assms(1) False unfolding will_take_def by metis
    have "takes (pcs s' t)"
      using assms(2) new keep
      by (cases rule: stop_step.cases) (auto simp: stop_ops split: if_splits option.splits)
    then show ?thesis
      by blast
  qed
qed

section \<open>What is reached\<close>

definition stop_inv :: "stop_state \<Rightarrow> bool" where
  "stop_inv s \<longleftrightarrow>
     one_owner s \<and> freed_once s \<and> ran_once s \<and> one_registrant s \<and> own_guard s \<and> will_take s \<and> settled s"

text \<open>The steps a thread has left, the longest way being \<open>on_stop\<close> with the stop come.\<close>

fun steps_left :: "pc \<Rightarrow> nat" where
  "steps_left Outside = 0"
| "steps_left Storing = 4"
| "steps_left (Exchanging w) = 5"
| "steps_left (Refusing w) = 1"
| "steps_left (Loading w) = 4"
| "steps_left (Taking k) = 3"
| "steps_left (Calling w k) = 2"
| "steps_left (Running w k) = 1"
| "steps_left (Freeing w) = 1"

lemma other_threads: "stop_step s t s' \<Longrightarrow> u \<noteq> t \<Longrightarrow> pcs s' u = pcs s u"
  by (erule stop_stepE) (auto simp: stop_ops split: option.splits)

lemma own_thread: "stop_step s t s' \<Longrightarrow> pcs s t \<noteq> Outside \<Longrightarrow> steps_left (pcs s' t) < steps_left (pcs s t)"
  by (erule stop_stepE) (auto simp: stop_ops split: option.splits)

lemma steps_left_pos: "p \<noteq> Outside \<Longrightarrow> 0 < steps_left p"
  by (cases p) simp_all

lemma thread_moves: "pcs s t \<noteq> Outside \<Longrightarrow> \<exists>s'. stop_step s t s'"
proof (cases "pcs s t")
  case (Exchanging w)
  then show ?thesis
    using exchange [of s t w] exchange_fails [of s t w] by (cases "slot s") (auto simp: register_slot_def)
next
  case (Loading w)
  then show ?thesis
    using load_unset load_set by blast
next
  case (Taking k)
  then show ?thesis
    using take_none [of s t k] take_some [of s t k] by (cases "slot s") (auto simp: take_slot_def)
qed (auto intro: stop_step.intros)

interpretation stop: wait_free fresh_instance stop_step stop_inv "\<lambda>s t. pcs s t = Outside"
  "\<lambda>s t. steps_left (pcs s t) - 1"
proof
  show "stop_inv fresh_instance"
    by (simp add: stop_inv_def fresh_instance_def one_owner_def freed_once_def ran_once_def
        one_registrant_def own_guard_def will_take_def settled_def)
  show "stop_inv s'" if "stop_inv s" "stop_step s t s'" for s t s'
    using that one_owner_step freed_once_step ran_once_step one_registrant_step own_guard_step
      will_take_step settled_step unfolding stop_inv_def by metis
  show "\<exists>s'. stop_step s t s'" if "pcs s t \<noteq> Outside" for s t
    using that by (rule thread_moves)
  show "steps_left (pcs s' t) - 1 < steps_left (pcs s t) - 1"
    if "stop_step s t s'" "pcs s t \<noteq> Outside" "pcs s' t \<noteq> Outside" for s t s'
    using own_thread [OF that(1,2)] steps_left_pos [OF that(3)] by simp
qed (use other_threads in simp_all)

text \<open>
  A waker runs at most once and its box is freed at most once, whatever the threads do and in
  whatever order, and while a waker runs it has not been freed, is not in the slot and belongs to no
  other thread.
\<close>
lemma waker_once:
  assumes "reaches stop_step fresh_instance s"
  shows "ran s w \<le> 1 \<and> freed s w \<le> 1
      \<and> (\<forall>t k. pcs s t = Running w k \<longrightarrow>
           freed s w = 0 \<and> slot s \<noteq> Some w \<and> (\<forall>u. owns (pcs s u) = Some w \<longrightarrow> u = t))"
proof -
  have inv: "stop_inv s"
    using assms by (rule stop.inv_reached)
  have "freed s w = 0 \<and> slot s \<noteq> Some w \<and> (\<forall>u. owns (pcs s u) = Some w \<longrightarrow> u = t)"
    if "pcs s t = Running w k" for t k
    using inv one_ownerD [of s t] that unfolding stop_inv_def by simp
  then show ?thesis
    using inv unfolding stop_inv_def ran_once_def freed_once_def by blast
qed

text \<open>
  One thread \<open>u\<close> makes the registrations and drops the guards: the other threads' steps make no waker
  and drop no guard.
\<close>

definition used_by :: "thread \<Rightarrow> stop_state \<Rightarrow> thread \<Rightarrow> stop_state \<Rightarrow> bool" where
  "used_by u s t s' \<longleftrightarrow> stop_step s t s' \<and> (t = u \<or> made s' = made s \<and> guards s \<subseteq> guards s')"

lemma used_reaches: "reaches (used_by u) start s \<Longrightarrow> reaches stop_step start s"
  by (induction rule: reaches.induct) (auto simp: used_by_def intro: reaches.intros)

text \<open>Then a waker in the slot is one \<open>u\<close> is registering, or the one whose guard \<open>u\<close> holds.\<close>

definition held_or_registered :: "thread \<Rightarrow> stop_state \<Rightarrow> bool" where
  "held_or_registered u s \<longleftrightarrow>
     (\<forall>t w. registers (pcs s t) = Some w \<longrightarrow> t = u)
     \<and> (\<forall>w. slot s = Some w \<longrightarrow>
          pcs s u = Loading w \<or> pcs s u = Taking (Some w)
          \<or> guards s \<subseteq> {w} \<and> (\<forall>v. pcs s u \<noteq> Loading v \<and> pcs s u \<noteq> Taking (Some v)))
     \<and> (\<forall>v w. pcs s u = Calling v (Some w) \<or> pcs s u = Running v (Some w) \<longrightarrow> slot s = None)
     \<and> withdrawn s \<inter> guards s = {}
     \<and> (\<forall>w. registers (pcs s u) = Some w \<longrightarrow> w \<notin> withdrawn s)"

lemma held_or_registered_own:
  assumes "stop_inv s" and "held_or_registered u s" and "stop_step s u s'"
  shows "held_or_registered u s'"
proof -
  note held = assms(2) [unfolded held_or_registered_def]
  from assms(3) show ?thesis
  proof (cases rule: stop_step.cases)
    case (enter_on_stop w)
    have "w \<notin> withdrawn s"
      using assms(1) enter_on_stop(4) unfolding stop_inv_def settled_def by blast
    then show ?thesis
      using enter_on_stop held by (auto simp: held_or_registered_def stop_ops)
  next
    case (load_unset w)
    have "slot s = Some w" "guards s \<subseteq> {w}"
      using assms(1) load_unset unfolding stop_inv_def own_guard_def by fastforce+
    then show ?thesis
      using load_unset held by (auto simp: held_or_registered_def stop_ops)
  next
    case (drop_guard g)
    have "guards s = {g} \<and> w = g" if "slot s = Some w" for w
    proof -
      have "guards s \<subseteq> {w}"
        using held drop_guard(2) that by auto
      then show ?thesis
        using drop_guard(3) by blast
    qed
    then show ?thesis
      using drop_guard held by (cases "slot s") (auto simp: held_or_registered_def stop_ops)
  qed (use held in \<open>auto simp: held_or_registered_def stop_ops split: if_splits option.splits\<close>)
qed

lemma held_or_registered_other:
  assumes "held_or_registered u s" and "stop_step s t s'" and "t \<noteq> u" and "made s' = made s" and "guards s \<subseteq> guards s'"
  shows "held_or_registered u s'"
proof -
  have idle: "\<forall>w. registers (pcs s t) \<noteq> Some w"
    using assms(1,3) unfolding held_or_registered_def by metis
  from assms(2,1,3-5) idle show ?thesis
    by (cases rule: stop_step.cases)
      (auto simp: held_or_registered_def stop_ops split: if_splits option.splits)
qed

lemma held_or_registered_step:
  assumes "stop_inv s" and "held_or_registered u s" and "used_by u s t s'"
  shows "held_or_registered u s'"
proof (cases "t = u")
  case True
  then show ?thesis
    using assms held_or_registered_own unfolding used_by_def by blast
next
  case False
  then show ?thesis
    using assms held_or_registered_other unfolding used_by_def by blast
qed

interpretation user: protocol fresh_instance "used_by u" "\<lambda>s. stop_inv s \<and> held_or_registered u s" for u
proof
  show "stop_inv fresh_instance \<and> held_or_registered u fresh_instance"
    using stop.inv_start by (simp add: held_or_registered_def fresh_instance_def)
  show "stop_inv s' \<and> held_or_registered u s'" if "stop_inv s \<and> held_or_registered u s" "used_by u s t s'" for s t s'
    using that stop.inv_step held_or_registered_step unfolding used_by_def by blast
qed

text \<open>
  C9: Once the stop has come and every thread has left the functions, no waker is left in the slot:
  each one a call of \<open>on_stop\<close> accepted has been freed, and has run once, unless the drop of a guard
  took it out of the slot before. Where one thread makes the registrations and drops the guards, that was the
  drop of its own guard: a waker whose guard is still held has run.
\<close>
theorem no_waker_missed:
  assumes "reaches stop_step fresh_instance s" and "stopping s" and "\<And>t. pcs s t = Outside"
  shows "slot s = None
      \<and> (\<forall>w\<in>accepted s. freed s w = 1 \<and> ran s w = (if w \<in> withdrawn s then 0 else 1))
      \<and> (\<forall>u. reaches (used_by u) fresh_instance s \<longrightarrow>
           withdrawn s \<inter> guards s = {} \<and> (\<forall>w\<in>accepted s \<inter> guards s. ran s w = 1))"
proof -
  have inv: "stop_inv s"
    using assms(1) by (rule stop.inv_reached)
  then have empty: "slot s = None"
    using assms(2,3) unfolding stop_inv_def will_take_def by (metis takes.simps(3))
  have each: "freed s w = 1 \<and> ran s w = (if w \<in> withdrawn s then 0 else 1)" if "w \<in> accepted s" for w
  proof -
    have made: "w \<in> made s"
      using inv that unfolding stop_inv_def settled_def by blast
    have "freed s w \<noteq> 0"
      using inv made empty assms(3) unfolding stop_inv_def freed_once_def by (metis option.distinct(1) owns.simps(6))
    then have "freed s w = 1"
      using inv unfolding stop_inv_def freed_once_def by (metis One_nat_def le_Suc_eq le_zero_eq)
    then show ?thesis
      using inv that unfolding stop_inv_def settled_def by auto
  qed
  have "withdrawn s \<inter> guards s = {}" if "reaches (used_by u) fresh_instance s" for u
    using user.inv_reached [OF that] by (simp add: held_or_registered_def)
  then show ?thesis
    using empty each by fastforce
qed

text \<open>
  Until the stop has come, the waker in the slot is the one whose guard is held, so a guard that
  is dropped frees its own waker and no other.
\<close>
lemma guard_frees_its_own:
  assumes "reaches stop_step fresh_instance s" and "\<not> stopping s" and "g \<in> guards s"
  shows "slot s = Some g \<and> guards s = {g}
      \<and> withdraws t (s\<lparr>guards := guards s - {g}\<rparr>)
          = goes t (Freeing g) (s\<lparr>guards := {}, slot := None, withdrawn := withdrawn s \<union> {g}\<rparr>)"
proof -
  have "own_guard s"
    using stop.inv_reached [OF assms(1)] by (simp add: stop_inv_def)
  then have own: "\<forall>w\<in>guards s. slot s = Some w"
    using assms(2) by (simp add: own_guard_def)
  then have slot: "slot s = Some g"
    using assms(3) by blast
  have "w = g" if "w \<in> guards s" for w
  proof -
    have "slot s = Some w"
      using own that by blast
    then show ?thesis
      using slot by simp
  qed
  then have "guards s = {g}"
    using assms(3) by blast
  then show ?thesis
    using slot by (simp add: withdraws_def take_slot_def)
qed

text \<open>
  C11: No thread waits for another in \<open>stop\<close>, \<open>on_stop\<close> or the drop of a guard: it always has a step
  to make, and after five of its own steps it has returned, whatever steps the others make between.
\<close>
theorem stop_calls_return:
  assumes "reaches stop_step fresh_instance s" and "pcs s t \<noteq> Outside"
  shows "(\<exists>s'. stop_step s t s')
      \<and> (\<forall>p. path stop_step s p \<and> 5 \<le> steps_of t p \<longrightarrow> (\<exists>m\<in>set p. pcs (snd m) t = Outside))"
proof -
  have "steps_left (pcs s t) \<le> 5"
    by (cases "pcs s t") simp_all
  then have "\<exists>m\<in>set p. pcs (snd m) t = Outside" if "path stop_step s p" "5 \<le> steps_of t p" for p
    using stop.ends [OF assms(1,2) that(1)] that(2) by simp
  then show ?thesis
    using thread_moves [OF assms(2)] by blast
qed

section \<open>The life of a waker\<close>

text \<open>What a waker is promised, without threads or slots.\<close>

datatype status = Unmade | Offered | Refused | Registered | Owed | Executing | Done | Withdrawn | Dropped

fun may_become :: "status \<Rightarrow> status \<Rightarrow> bool" where
  "may_become Unmade Offered = True"
| "may_become Offered Registered = True"
| "may_become Offered Refused = True"
| "may_become Registered Owed = True"
| "may_become Owed Executing = True"
| "may_become Executing Done = True"
| "may_become Registered Withdrawn = True"
| "may_become Withdrawn Dropped = True"
| "may_become a b = False"

text \<open>Where the slot and the threads put it: an owner's place in the code says what becomes of it.\<close>

definition status_of :: "stop_state \<Rightarrow> waker \<Rightarrow> status" where
  "status_of s w =
     (if w \<notin> made s then Unmade
      else if slot s = Some w then Registered
      else if \<exists>t. pcs s t = Exchanging w \<or> pcs s t = Refusing w then Offered
      else if \<exists>t k. pcs s t = Calling w k then Owed
      else if \<exists>t k. pcs s t = Running w k then Executing
      else if \<exists>t. pcs s t = Freeing w then Withdrawn
      else if w \<notin> accepted s then Refused
      else if w \<in> withdrawn s then Dropped
      else Done)"

text \<open>The status of a waker with an owner is the owner's place, and there is one owner.\<close>

fun place :: "pc \<Rightarrow> status" where
  "place (Calling w k) = Owed"
| "place (Running w k) = Executing"
| "place (Freeing w) = Withdrawn"
| "place p = Offered"

lemma status_owned:
  assumes "one_owner s" and "owns (pcs s t) = Some w"
  shows "status_of s w = place (pcs s t)"
proof -
  have alone: "\<forall>u. owns (pcs s u) = Some w \<longrightarrow> u = t" and in_made: "w \<in> made s" and out: "slot s \<noteq> Some w"
    using one_ownerD [OF assms(1), of t] assms(2) by auto
  have at: "(\<exists>u. P (pcs s u)) \<longleftrightarrow> P (pcs s t)" if "\<And>p. P p \<Longrightarrow> owns p = Some w" for P
    using alone that by metis
  have "(\<exists>u. pcs s u = Exchanging w \<or> pcs s u = Refusing w) \<longleftrightarrow> pcs s t = Exchanging w \<or> pcs s t = Refusing w"
    by (rule at) auto
  moreover have "(\<exists>u k. pcs s u = Calling w k) \<longleftrightarrow> (\<exists>k. pcs s t = Calling w k)"
    by (rule at) auto
  moreover have "(\<exists>u k. pcs s u = Running w k) \<longleftrightarrow> (\<exists>k. pcs s t = Running w k)"
    by (rule at) auto
  moreover have "(\<exists>u. pcs s u = Freeing w) \<longleftrightarrow> pcs s t = Freeing w"
    by (rule at) auto
  ultimately show ?thesis
    using assms(2) in_made out unfolding status_of_def by (cases "pcs s t") simp_all
qed

lemma status_free:
  assumes "\<And>t. owns (pcs s t) \<noteq> Some w"
  shows "status_of s w =
    (if w \<notin> made s then Unmade else if slot s = Some w then Registered
     else if w \<notin> accepted s then Refused else if w \<in> withdrawn s then Dropped else Done)"
proof -
  have "pcs s t \<noteq> p" if "owns p = Some w" for t p
    using assms [of t] that by auto
  then show ?thesis
    by (simp add: status_of_def)
qed

definition unmoved :: "stop_state \<Rightarrow> thread \<Rightarrow> stop_state \<Rightarrow> waker \<Rightarrow> bool" where
  "unmoved s t s' v \<longleftrightarrow>
     (v \<in> made s' \<longleftrightarrow> v \<in> made s) \<and> (v \<in> accepted s' \<longleftrightarrow> v \<in> accepted s)
     \<and> (v \<in> withdrawn s' \<longleftrightarrow> v \<in> withdrawn s) \<and> (slot s' = Some v \<longleftrightarrow> slot s = Some v)
     \<and> (\<forall>p. owns p = Some v \<longrightarrow> (pcs s' t = p \<longleftrightarrow> pcs s t = p))"

lemma unmoved_status:
  assumes "stop_step s t s'" and "unmoved s t s' v"
  shows "status_of s' v = status_of s v"
proof -
  have "pcs s' u = p \<longleftrightarrow> pcs s u = p" if "owns p = Some v" for u p
    using assms other_threads that unfolding unmoved_def by metis
  then show ?thesis
    using assms(2) by (simp add: status_of_def unmoved_def)
qed

text \<open>A step concerns one waker at most.\<close>

definition mover :: "stop_state \<Rightarrow> thread \<Rightarrow> stop_state \<Rightarrow> waker" where
  "mover s t s' =
     (case owns (pcs s t) of
        Some w \<Rightarrow> w
      | None \<Rightarrow> (case owns (pcs s' t) of Some w \<Rightarrow> w | None \<Rightarrow> 0))"

lemma one_moves: "stop_step s t s' \<Longrightarrow> v \<noteq> mover s t s' \<Longrightarrow> unmoved s t s' v"
  by (erule stop_stepE) (auto simp: mover_def unmoved_def stop_ops split: option.splits)

lemma free_status:
  assumes "stop_inv s"
  shows "slot s = Some w \<Longrightarrow> status_of s w = Registered"
    and "w \<notin> made s \<Longrightarrow> status_of s w = Unmade"
  using assms unfolding stop_inv_def one_owner_def by (simp_all add: status_of_def)

lemma made_grows: "stop_step s t s' \<Longrightarrow> made s \<subseteq> made s'"
  by (erule stop_stepE) (auto simp: stop_ops split: option.splits)

lemma released:
  assumes "stop_inv s" and "stop_inv s'" and "stop_step s t s'"
    and "owns (pcs s t) = Some w" and "owns (pcs s' t) = None"
  shows "status_of s' w =
    (if slot s' = Some w then Registered else if w \<notin> accepted s' then Refused
     else if w \<in> withdrawn s' then Dropped else Done)"
proof -
  have "one_owner s"
    using assms(1) by (simp add: stop_inv_def)
  then have alone: "w \<in> made s" "\<forall>u. owns (pcs s u) = Some w \<longrightarrow> u = t"
    using one_ownerD [of s t] assms(4) by blast+
  have "owns (pcs s' u) \<noteq> Some w" for u
    using alone(2) assms(5) other_threads [OF assms(3), of u] by (cases "u = t") auto
  moreover have "w \<in> made s'"
    using alone(1) made_grows [OF assms(3)] by blast
  ultimately show ?thesis
    using status_free [of s' w] by simp
qed

lemma mover_status:
  assumes "stop_inv s" and "stop_inv s'" and "stop_step s t s'"
    and "owns (pcs s t) = Some w \<or> owns (pcs s' t) = Some w"
  shows "status_of s' w = status_of s w \<or> may_become (status_of s w) (status_of s' w)"
proof -
  have before: "owns (pcs s t) = Some w \<Longrightarrow> status_of s w = place (pcs s t)"
      and after: "owns (pcs s' t) = Some w \<Longrightarrow> status_of s' w = place (pcs s' t)"
    using assms(1,2) status_owned unfolding stop_inv_def by blast+
  have ends: "owns (pcs s t) = Some w \<Longrightarrow> owns (pcs s' t) = None \<Longrightarrow> status_of s' w =
    (if slot s' = Some w then Registered else if w \<notin> accepted s' then Refused
     else if w \<in> withdrawn s' then Dropped else Done)"
    using released [OF assms(1-3)] .
  have places: "\<forall>w. (pcs s t = Exchanging w \<or> pcs s t = Refusing w \<longrightarrow> w \<notin> accepted s)
      \<and> (pcs s t = Freeing w \<longrightarrow> w \<in> withdrawn s \<and> w \<in> accepted s)
      \<and> (\<forall>k. pcs s t = Calling w k \<or> pcs s t = Running w k \<longrightarrow> w \<in> accepted s \<and> w \<notin> withdrawn s)"
    using assms(1) unfolding stop_inv_def settled_def by blast
  show ?thesis
    using assms(3,4) before after ends places free_status [OF assms(1), of w]
    by (cases rule: stop_step.cases) (auto simp: stop_ops split: option.splits)
qed

text \<open>
  C10: Every step of every thread is a step of the life a waker is promised, and of one waker's at
  most: it is offered, then refused or registered; a registered waker is taken to run, runs and is
  done, or is withdrawn by a guard and dropped; and nothing comes after those ends.
\<close>
theorem waker_life:
  assumes "reaches stop_step fresh_instance s" and "stop_step s t s'"
  shows "\<exists>w. (status_of s' w = status_of s w \<or> may_become (status_of s w) (status_of s' w))
      \<and> (\<forall>v. v \<noteq> w \<longrightarrow> status_of s' v = status_of s v)"
proof -
  have inv: "stop_inv s" "stop_inv s'"
    using assms stop.inv_reached reaches_step by metis+
  have others: "status_of s' v = status_of s v" if "v \<noteq> mover s t s'" for v
    using unmoved_status [OF assms(2)] one_moves [OF assms(2) that] by blast
  show ?thesis
  proof (cases "owns (pcs s t) = Some (mover s t s') \<or> owns (pcs s' t) = Some (mover s t s')")
    case True
    then show ?thesis
      using mover_status [OF inv assms(2)] others by blast
  next
    case False
    then have none: "owns (pcs s t) = None" "owns (pcs s' t) = None"
      by (auto simp: mover_def split: option.splits)
    have "unmoved s t s' v" for v
      using assms(2) none
      by (cases rule: stop_step.cases) (auto simp: unmoved_def stop_ops split: option.splits)
    then show ?thesis
      using unmoved_status [OF assms(2)] by blast
  qed
qed

section \<open>A run\<close>

text \<open>One thread registers the waker 7 and returns its guard; another is inside \<open>stop\<close>, running
  it.\<close>

definition seven :: "pc \<Rightarrow> pc \<Rightarrow> stop_state" where
  "seven p q =
     fresh_instance\<lparr>pcs := (\<lambda>t. Outside)(0 := p, 1 := q), made := {7}, accepted := {7}\<rparr>"

definition during_stop :: stop_state where
  "during_stop =
     (seven Outside (Running 7 None))\<lparr>stopping := True, guards := {7}, ran := (\<lambda>w. 0)(7 := 1)\<rparr>"

definition after_stop :: stop_state where
  "after_stop =
     (seven Outside Outside)\<lparr>stopping := True, guards := {7}, ran := (\<lambda>w. 0)(7 := 1), freed := (\<lambda>w. 0)(7 := 1)\<rparr>"

lemma reaches_by:
  "reaches (used_by u) a s \<Longrightarrow> stop_step s t s' \<Longrightarrow> s'' = s' \<Longrightarrow>
     t = u \<or> made s' = made s \<and> guards s \<subseteq> guards s' \<Longrightarrow> reaches (used_by u) a s''"
  by (auto simp: used_by_def intro: reaches_step)

lemmas run_ops = seven_def fresh_instance_def stop_ops fun_eq_iff

lemma registered_reached:
  "reaches (used_by 0) fresh_instance ((seven Outside Outside)\<lparr>slot := Some 7, guards := {7}\<rparr>)"
proof -
  have "reaches (used_by 0) fresh_instance ((seven (Exchanging 7) Outside)\<lparr>accepted := {}\<rparr>)"
    by (rule reaches_by [OF reaches_start enter_on_stop [of _ 0 7]]) (simp_all add: run_ops)
  then have "reaches (used_by 0) fresh_instance ((seven (Loading 7) Outside)\<lparr>slot := Some 7\<rparr>)"
    by (rule reaches_by [OF _ exchange [of _ 0 7]]) (simp_all add: run_ops)
  then show ?thesis
    by (rule reaches_by [OF _ load_unset [of _ 0 7]]) (simp_all add: run_ops)
qed

lemma during_stop_reached: "reaches (used_by 0) fresh_instance during_stop"
proof -
  have "reaches (used_by 0) fresh_instance ((seven Outside Storing)\<lparr>slot := Some 7, guards := {7}\<rparr>)"
    by (rule reaches_by [OF registered_reached enter_stop [of _ 1]]) (simp_all add: run_ops)
  then have "reaches (used_by 0) fresh_instance
      ((seven Outside (Taking None))\<lparr>slot := Some 7, guards := {7}, stopping := True\<rparr>)"
    by (rule reaches_by [OF _ store [of _ 1]]) (simp_all add: run_ops)
  then have "reaches (used_by 0) fresh_instance
      ((seven Outside (Calling 7 None))\<lparr>guards := {7}, stopping := True\<rparr>)"
    by (rule reaches_by [OF _ take_some [of _ 1 None 7]]) (simp_all add: run_ops)
  then show ?thesis
    unfolding during_stop_def by (rule reaches_by [OF _ call [of _ 1 7 None]]) (simp_all add: run_ops)
qed

lemma stop_returns: "stop_step during_stop 1 after_stop"
proof -
  have "after_stop = returns 1 None (frees 7 during_stop)"
    by (simp add: during_stop_def after_stop_def run_ops)
  then show ?thesis
    using call_returns [of during_stop 1 7 None] by (simp add: during_stop_def seven_def)
qed

lemma waker_once_witness: "ran during_stop 7 \<le> 1 \<and> freed during_stop 7 \<le> 1"
  using waker_once [OF used_reaches [OF during_stop_reached], of 7] by blast

lemma after_stop_reached: "reaches (used_by 0) fresh_instance after_stop"
  using during_stop_reached stop_returns refl
  by (rule reaches_by) (simp add: during_stop_def after_stop_def run_ops)

theorem no_waker_missed_witness:
  "7 \<in> guards after_stop \<and> freed after_stop 7 = 1 \<and> ran after_stop 7 = 1 \<and> withdrawn after_stop \<inter> guards after_stop = {}"
proof -
  have "stopping after_stop" "pcs after_stop t = Outside" for t
    by (simp_all add: after_stop_def run_ops)
  then show ?thesis
    using no_waker_missed [of after_stop] used_reaches [OF after_stop_reached] after_stop_reached
    by (simp add: after_stop_def run_ops)
qed

text \<open>
  A guard that outlives its waker takes whatever waker the slot holds when it drops. So with two guards, which
  the slot allows once the stop has run the first waker, and their threads racing, the waker 8 is freed without having
  run while its guard is held, although the stop came before it was registered.
\<close>

definition two_guards :: "pc \<Rightarrow> pc \<Rightarrow> stop_state" where
  "two_guards p q =
     after_stop\<lparr>pcs := (\<lambda>t. Outside)(0 := p, 1 := q), made := {7, 8}, accepted := {7, 8}\<rparr>"

lemma reaches_on:
  "reaches stop_step a s \<Longrightarrow> stop_step s t s' \<Longrightarrow> s'' = s' \<Longrightarrow> reaches stop_step a s''"
  by (auto intro: reaches_step)

lemma anothers_guard_misses:
  "\<exists>s. reaches stop_step fresh_instance s \<and> stopping s \<and> (\<forall>t. pcs s t = Outside)
     \<and> 8 \<in> accepted s \<and> 8 \<in> guards s \<and> freed s 8 = 1 \<and> ran s 8 = 0"
proof -
  note ops = two_guards_def after_stop_def run_ops
  have "reaches stop_step fresh_instance ((two_guards (Exchanging 8) Outside)\<lparr>accepted := {7}\<rparr>)"
    by (rule reaches_on [OF used_reaches [OF after_stop_reached] enter_on_stop [of _ 0 8]]) (auto simp: ops)
  then have "reaches stop_step fresh_instance ((two_guards (Loading 8) Outside)\<lparr>slot := Some 8\<rparr>)"
    by (rule reaches_on [OF _ exchange [of _ 0 8]]) (auto simp: ops)
  then have "reaches stop_step fresh_instance ((two_guards (Loading 8) (Freeing 8))\<lparr>guards := {}, withdrawn := {8}\<rparr>)"
    by (rule reaches_on [OF _ drop_guard [of _ 1 7]]) (auto simp: ops)
  then have "reaches stop_step fresh_instance
      ((two_guards (Taking (Some 8)) (Freeing 8))\<lparr>guards := {}, withdrawn := {8}\<rparr>)"
    by (rule reaches_on [OF _ load_set [of _ 0 8]]) (auto simp: ops)
  then have "reaches stop_step fresh_instance ((two_guards Outside (Freeing 8))\<lparr>guards := {8}, withdrawn := {8}\<rparr>)"
    by (rule reaches_on [OF _ take_none [of _ 0 "Some 8"]]) (auto simp: ops)
  then have "reaches stop_step fresh_instance
      (frees 8 ((two_guards Outside Outside)\<lparr>guards := {8}, withdrawn := {8}\<rparr>))"
    by (rule reaches_on [OF _ free [of _ 1 8]]) (auto simp: ops)
  then show ?thesis
    by (intro exI conjI) (assumption, simp_all add: ops)
qed

lemma guard_frees_its_own_witness:
  "guards ((seven Outside Outside)\<lparr>slot := Some 7, guards := {7}\<rparr>) = {7}"
  using guard_frees_its_own [OF used_reaches [OF registered_reached], of 7] by (simp add: run_ops)

theorem stop_calls_return_witness: "\<exists>s'. stop_step during_stop 1 s'"
proof -
  have "pcs during_stop 1 \<noteq> Outside"
    by (simp add: during_stop_def run_ops)
  then show ?thesis
    using stop_calls_return [OF used_reaches [OF during_stop_reached]] by blast
qed

theorem waker_life_witness:
  "\<exists>w. (status_of after_stop w = status_of during_stop w \<or> may_become (status_of during_stop w) (status_of after_stop w))
      \<and> (\<forall>v. v \<noteq> w \<longrightarrow> status_of after_stop v = status_of during_stop v)"
  by (rule waker_life [OF used_reaches [OF during_stop_reached] stop_returns])

end
