(* ===== verification/Ps_Records.thy ===== *)
theory Ps_Records
  imports Prelude
begin

text \<open>
  The error record of \<open>crates/pwrs/src/error.rs\<close> and the progress record of
  \<open>crates/pwrs/src/progress.rs\<close>, which every stream of the pipeline takes.  A \<open>PsObject\<close> is a handle
  the runtime gives out, a number here; an \<open>i32\<close> is a 32-bit word.
\<close>

type_synonym handle = nat
type_synonym i32 = "32 word"

section \<open>Error records\<close>

datatype error_category =
    NotSpecified | OpenError | CloseError | DeviceError | DeadlockDetected
  | InvalidArgument | InvalidData | InvalidOperation | InvalidResult | InvalidType
  | MetadataError | NotImplemented | NotInstalled | ObjectNotFound | OperationStopped
  | OperationTimeout | SyntaxError | ParserError | PermissionDenied | ResourceBusy
  | ResourceExists | ResourceUnavailable | ReadError | WriteError | FromStdErr
  | SecurityError | ProtocolError | ConnectionError | AuthenticationError | LimitsExceeded
  | QuotaExceeded | NotEnabled

text \<open>The numeric values of the enum.\<close>

primrec category_number :: "error_category \<Rightarrow> u32" where
  "category_number NotSpecified = 0"
| "category_number OpenError = 1"
| "category_number CloseError = 2"
| "category_number DeviceError = 3"
| "category_number DeadlockDetected = 4"
| "category_number InvalidArgument = 5"
| "category_number InvalidData = 6"
| "category_number InvalidOperation = 7"
| "category_number InvalidResult = 8"
| "category_number InvalidType = 9"
| "category_number MetadataError = 10"
| "category_number NotImplemented = 11"
| "category_number NotInstalled = 12"
| "category_number ObjectNotFound = 13"
| "category_number OperationStopped = 14"
| "category_number OperationTimeout = 15"
| "category_number SyntaxError = 16"
| "category_number ParserError = 17"
| "category_number PermissionDenied = 18"
| "category_number ResourceBusy = 19"
| "category_number ResourceExists = 20"
| "category_number ResourceUnavailable = 21"
| "category_number ReadError = 22"
| "category_number WriteError = 23"
| "category_number FromStdErr = 24"
| "category_number SecurityError = 25"
| "category_number ProtocolError = 26"
| "category_number ConnectionError = 27"
| "category_number AuthenticationError = 28"
| "category_number LimitsExceeded = 29"
| "category_number QuotaExceeded = 30"
| "category_number NotEnabled = 31"

definition category_from_code :: "u32 \<Rightarrow> error_category option" where
  "category_from_code number =
     (if number = 0 then Some NotSpecified
      else if number = 1 then Some OpenError
      else if number = 2 then Some CloseError
      else if number = 3 then Some DeviceError
      else if number = 4 then Some DeadlockDetected
      else if number = 5 then Some InvalidArgument
      else if number = 6 then Some InvalidData
      else if number = 7 then Some InvalidOperation
      else if number = 8 then Some InvalidResult
      else if number = 9 then Some InvalidType
      else if number = 10 then Some MetadataError
      else if number = 11 then Some NotImplemented
      else if number = 12 then Some NotInstalled
      else if number = 13 then Some ObjectNotFound
      else if number = 14 then Some OperationStopped
      else if number = 15 then Some OperationTimeout
      else if number = 16 then Some SyntaxError
      else if number = 17 then Some ParserError
      else if number = 18 then Some PermissionDenied
      else if number = 19 then Some ResourceBusy
      else if number = 20 then Some ResourceExists
      else if number = 21 then Some ResourceUnavailable
      else if number = 22 then Some ReadError
      else if number = 23 then Some WriteError
      else if number = 24 then Some FromStdErr
      else if number = 25 then Some SecurityError
      else if number = 26 then Some ProtocolError
      else if number = 27 then Some ConnectionError
      else if number = 28 then Some AuthenticationError
      else if number = 29 then Some LimitsExceeded
      else if number = 30 then Some QuotaExceeded
      else if number = 31 then Some NotEnabled
      else None)"

lemma category_from_number [simp]: "category_from_code (category_number c) = Some c"
  by (cases c) (simp_all add: category_from_code_def)

lemma category_from_code_Some: "category_from_code number = Some c \<longleftrightarrow> number = category_number c"
proof
  show "number = category_number c" if "category_from_code number = Some c"
    using that unfolding category_from_code_def by (auto split: if_splits)
qed simp

record ps_error =
  message :: string
  error_id :: string
  category :: error_category
  target_of :: "handle option"
  is_terminating :: bool
  details :: "string option"

definition new_error :: "error_category \<Rightarrow> string \<Rightarrow> string \<Rightarrow> ps_error" where
  "new_error c i t =
     \<lparr>message = t, error_id = i, category = c, target_of = None, is_terminating = False, details = None\<rparr>"

definition terminating :: "ps_error \<Rightarrow> ps_error" where
  "terminating e = e\<lparr>is_terminating := True\<rparr>"

definition with_target :: "handle \<Rightarrow> ps_error \<Rightarrow> ps_error" where
  "with_target h e = e\<lparr>target_of := Some h\<rparr>"

definition with_details :: "string \<Rightarrow> ps_error \<Rightarrow> ps_error" where
  "with_details d e = e\<lparr>details := Some d\<rparr>"

text \<open>The kinds of \<open>std::io::Error\<close> that \<open>From\<close> tells apart.\<close>

datatype io_kind =
    Io_NotFound | Io_PermissionDenied | Io_AlreadyExists | Io_TimedOut | Io_InvalidInput
  | Io_InvalidData | Io_ConnectionRefused | Io_ConnectionReset | Io_ConnectionAborted
  | Io_NotConnected | Io_Other

definition error_of_io :: "io_kind \<Rightarrow> string \<Rightarrow> ps_error" where
  "error_of_io kind shown =
     (let c = (case kind of
          Io_NotFound \<Rightarrow> ObjectNotFound
        | Io_PermissionDenied \<Rightarrow> PermissionDenied
        | Io_AlreadyExists \<Rightarrow> ResourceExists
        | Io_TimedOut \<Rightarrow> OperationTimeout
        | Io_InvalidInput \<Rightarrow> InvalidData
        | Io_InvalidData \<Rightarrow> InvalidData
        | Io_ConnectionRefused \<Rightarrow> ConnectionError
        | Io_ConnectionReset \<Rightarrow> ConnectionError
        | Io_ConnectionAborted \<Rightarrow> ConnectionError
        | Io_NotConnected \<Rightarrow> ConnectionError
        | Io_Other \<Rightarrow> NotSpecified)
      in new_error c ''IoError'' shown)"

definition error_of_reserve :: "string \<Rightarrow> ps_error" where
  "error_of_reserve shown =
     new_error ResourceUnavailable ''PwrsOutOfMemory'' (''cannot reserve the memory requested: '' @ shown)"

text \<open>\<open>Display\<close>.\<close>

definition show_error :: "ps_error \<Rightarrow> string" where
  "show_error e = ''['' @ error_id e @ ''] '' @ message e"

section \<open>Progress records\<close>

record progress =
  activity_id :: i32
  parent_activity_id :: i32
  activity :: string
  status_text :: string
  current_operation :: string
  percent_complete :: i32
  seconds_remaining :: i32
  is_completed :: bool

definition new_progress :: "i32 \<Rightarrow> string \<Rightarrow> string \<Rightarrow> progress" where
  "new_progress i a s =
     \<lparr>activity_id = i, parent_activity_id = -1, activity = a, status_text = s, current_operation = [],
      percent_complete = -1, seconds_remaining = -1, is_completed = False\<rparr>"

definition with_parent :: "i32 \<Rightarrow> progress \<Rightarrow> progress" where
  "with_parent p r = r\<lparr>parent_activity_id := p\<rparr>"

definition with_current_operation :: "string \<Rightarrow> progress \<Rightarrow> progress" where
  "with_current_operation s r = r\<lparr>current_operation := s\<rparr>"

definition with_percent :: "i32 \<Rightarrow> progress \<Rightarrow> progress" where
  "with_percent p r = r\<lparr>percent_complete := p\<rparr>"

definition with_seconds_remaining :: "i32 \<Rightarrow> progress \<Rightarrow> progress" where
  "with_seconds_remaining n r = r\<lparr>seconds_remaining := n\<rparr>"

definition completed :: "progress \<Rightarrow> progress" where
  "completed r = r\<lparr>is_completed := True\<rparr>"

end
