(* ===== verification/Worker_Pool.thy ===== *)
theory Worker_Pool
  imports Transitions Ps_Records
begin

text \<open>
  \<open>crates/pwrs/src/worker.rs\<close>: \<open>par_map\<close> and \<open>par_for_each\<close> over the default pool, as a step relation.
  The threads are the pipeline's own, the pool's workers, the coordinator that joins them, and the
  engine, which may set the pipeline's stop at any moment.  A step is one operation on what threads
  share: the stop signal, the claim's cursor and slots, the channel and the engine's stop.  An item's
  work is the function \<open>runs\<close>, and it may end in a panic and send records to the other streams at any
  moment of it; a write to the engine may fail with any error.  The cursor is a natural number: it
  stays below the number of items plus that of workers, which a \<open>usize\<close> holds.
\<close>

datatype 'x sent =
    Output 'x
  | Error ps_error
  | Stream u32 string
  | Progress progress

fun is_output :: "'x sent \<Rightarrow> bool" where
  "is_output (Output x) = True"
| "is_output s = False"

section \<open>The claim\<close>

text \<open>\<open>Claim::new\<close> and \<open>Claim::next\<close>: the \<open>fetch_add\<close>, and the slot it gives this caller alone.\<close>

definition claim_slots :: "'i list \<Rightarrow> 'i option list" where
  "claim_slots items = map Some items"

definition claim_next :: "'i option list \<Rightarrow> nat \<Rightarrow> (nat \<times> 'i) option \<times> 'i option list \<times> nat" where
  "claim_next slots cursor =
     (let i = cursor in
      if length slots \<le> i then (None, slots, cursor + 1)
      else (map_option (Pair i) (slots ! i), slots[i := None], cursor + 1))"

section \<open>The call\<close>

text \<open>\<open>Order\<close>, and \<open>For_each\<close> for \<open>par_for_each\<close>, whose results are not written.\<close>

datatype order = As_ready | In_input | For_each

record ('i, 'v) job =
  items :: "'i list"
  runs :: "'i \<Rightarrow> 'v"
  how :: order
  pool_size :: nat
  leaks :: bool

text \<open>\<open>pool_size\<close> is the pool's width before the number of items bounds it; \<open>leaks\<close> says whether a
  \<open>Worker\<close> handle outlives the work, which leaves the channel open.\<close>

definition width :: "('i, 'v) job \<Rightarrow> nat" where
  "width j = min (pool_size j) (length (items j))"

text \<open>\<open>Pipeline::workers\<close>: the pool size a caller sets, from one up.\<close>

definition workers_of :: "nat \<Rightarrow> ps_error + nat" where
  "workers_of n =
     (if n = 0 then
        Inl (new_error InvalidArgument ''PwrsWorkerCount''
          ''a parallel helper needs at least one worker, and 0 was requested'')
      else Inr n)"

text \<open>A pool thread in \<open>claim_loop\<close>.\<close>

datatype 'i worker =
    Checking
  | Claiming
  | Working nat 'i
  | Gone
  | Panicked

text \<open>
  The pipeline thread: in \<open>drain\<close> at the top of the loop, in \<open>recv_timeout\<close>, asking whether the
  coordinator is finished and trying the channel once more; gathering a batch, before the check of the
  stop and before \<open>try_recv\<close>; in \<open>write_sent\<close> with the latest progress of each activity, the index
  and what is left of the batch, before the check and at the record; in the closure that writes in
  input order; and after the drain.
\<close>

type_synonym latest = "i32 \<Rightarrow> nat option"
type_synonym result = "ps_error + unit"

datatype 'v main =
    Top
  | Waiting
  | Asking
  | Trying
  | Gathering "(nat \<times> 'v) sent list"
  | Reaching "(nat \<times> 'v) sent list"
  | Writing latest nat "(nat \<times> 'v) sent list"
  | Handling latest nat "(nat \<times> 'v) sent list"
  | Flushing latest nat "(nat \<times> 'v) sent list"
  | Putting 'v latest nat "(nat \<times> 'v) sent list"
  | Ending result
  | Dropping result
  | Joining result
  | Returned result

text \<open>What the engine was given, in order.  \<open>emitted\<close> and \<open>begun\<close> record the indices of the items
  written and started; no step reads them.\<close>

datatype 'v written =
    To_output 'v
  | To_error ps_error
  | To_stream u32 string
  | To_progress progress

record ('i, 'v) call =
  stopped :: bool
  halt :: bool
  receiver :: bool
  queue :: "(nat \<times> 'v) sent list"
  slots :: "'i option list"
  cursor :: nat
  workers :: "nat \<Rightarrow> 'i worker"
  coordinated :: bool
  at :: "'v main"
  pending :: "nat \<Rightarrow> 'v option"
  expected :: nat
  written :: "'v written list"
  emitted :: "nat list"
  begun :: "nat list"

text \<open>\<open>par_map_in\<close> and \<open>par_for_each_in\<close> up to the drain: with no items the call has returned.\<close>

definition start_call :: "('i, 'v) job \<Rightarrow> ('i, 'v) call" where
  "start_call j =
     \<lparr>stopped = False, halt = False, receiver = True, queue = [], slots = claim_slots (items j), cursor = 0,
      workers = (\<lambda>t. if t < width j then Checking else Gone), coordinated = False,
      at = (if items j = [] then Returned (Inr ()) else Top), pending = (\<lambda>i. None), expected = 0,
      written = [], emitted = [], begun = []\<rparr>"

definition worker_panic :: ps_error where
  "worker_panic = terminating (new_error InvalidOperation ''PwrsWorkerPanic'' ''worker thread panicked'')"

section \<open>The workers\<close>

text \<open>\<open>tx.send\<close>: a record for a receiver that is gone is given back.\<close>

definition sends :: "(nat \<times> 'v) sent \<Rightarrow> ('i, 'v) call \<Rightarrow> bool \<times> ('i, 'v) call" where
  "sends r s = (if receiver s then (True, s\<lparr>queue := queue s @ [r]\<rparr>) else (False, s))"

text \<open>\<open>Worker::send\<close>.\<close>

definition worker_sends :: "(nat \<times> 'v) sent \<Rightarrow> ('i, 'v) call \<Rightarrow> bool \<times> ('i, 'v) call" where
  "worker_sends r s = (if halt s then (False, s) else sends r s)"

definition turns :: "nat \<Rightarrow> 'i worker \<Rightarrow> ('i, 'v) call \<Rightarrow> ('i, 'v) call" where
  "turns t w s = s\<lparr>workers := (workers s)(t := w)\<rparr>"

text \<open>The end of an item: the job of \<open>par_map_in\<close> sends its value, and sets the stop when nobody
  receives; that of \<open>par_for_each_in\<close> has none to send.\<close>

definition item_done :: "('i, 'v) job \<Rightarrow> nat \<Rightarrow> 'i \<Rightarrow> ('i, 'v) call \<Rightarrow> ('i, 'v) call" where
  "item_done j i x s =
     (if how j = For_each then s
      else (case sends (Output (i, runs j x)) s of
              (True, s') \<Rightarrow> s'
            | (False, s') \<Rightarrow> s'\<lparr>halt := True\<rparr>))"

inductive worker_step :: "('i, 'v) job \<Rightarrow> nat \<Rightarrow> ('i, 'v) call \<Rightarrow> ('i, 'v) call \<Rightarrow> bool" for j t where
  sees_halt:
    "workers s t = Checking \<Longrightarrow> halt s \<Longrightarrow> worker_step j t s (turns t Gone s)"
| goes_on:
    "workers s t = Checking \<Longrightarrow> \<not> halt s \<Longrightarrow> worker_step j t s (turns t Claiming s)"
| claims:
    "workers s t = Claiming \<Longrightarrow> claim_next (slots s) (cursor s) = (Some (i, x), slots', c) \<Longrightarrow>
     worker_step j t s (turns t (Working i x) (s\<lparr>slots := slots', cursor := c, begun := begun s @ [i]\<rparr>))"
| claims_none:
    "workers s t = Claiming \<Longrightarrow> claim_next (slots s) (cursor s) = (None, slots', c) \<Longrightarrow>
     worker_step j t s (turns t Gone (s\<lparr>slots := slots', cursor := c\<rparr>))"
| reports:
    "workers s t = Working i x \<Longrightarrow> \<not> is_output r \<Longrightarrow> worker_step j t s (snd (worker_sends r s))"
| finishes:
    "workers s t = Working i x \<Longrightarrow> worker_step j t s (item_done j i x (turns t Checking s))"
| panics:
    "workers s t = Working i x \<Longrightarrow> worker_step j t s (turns t Panicked (s\<lparr>halt := True\<rparr>))"

section \<open>The pipeline thread\<close>

text \<open>The first loop of \<open>write_sent\<close>.\<close>

fun latest_from :: "nat \<Rightarrow> latest \<Rightarrow> 'x sent list \<Rightarrow> latest" where
  "latest_from i l [] = l"
| "latest_from i l (Progress r # rest) = latest_from (i + 1) (l(activity_id r \<mapsto> i)) rest"
| "latest_from i l (s # rest) = latest_from (i + 1) l rest"

definition moves :: "'v main \<Rightarrow> ('i, 'v) call \<Rightarrow> ('i, 'v) call" where
  "moves m s = s\<lparr>at := m\<rparr>"

definition gives :: "'v written \<Rightarrow> ('i, 'v) call \<Rightarrow> ('i, 'v) call" where
  "gives w s = s\<lparr>written := written s @ [w]\<rparr>"

text \<open>Every sender is gone: the coordinator's, and the workers' when none outlives them.\<close>

definition disconnected :: "('i, 'v) job \<Rightarrow> ('i, 'v) call \<Rightarrow> bool" where
  "disconnected j s \<longleftrightarrow> coordinated s \<and> \<not> leaks j"

inductive drain_step :: "('i, 'v) job \<Rightarrow> ('i, 'v) call \<Rightarrow> ('i, 'v) call \<Rightarrow> bool" for j where
  top_stops: "at s = Top \<Longrightarrow> stopped s \<Longrightarrow> drain_step j s (moves (Ending (Inr ())) s)"
| top_waits: "at s = Top \<Longrightarrow> \<not> stopped s \<Longrightarrow> drain_step j s (moves Waiting s)"
| receives: "at s = Waiting \<Longrightarrow> queue s = r # q \<Longrightarrow> drain_step j s (moves (Gathering [r]) (s\<lparr>queue := q\<rparr>))"
| all_gone: "at s = Waiting \<Longrightarrow> queue s = [] \<Longrightarrow> disconnected j s \<Longrightarrow> drain_step j s (moves (Ending (Inr ())) s)"
| times_out: "at s = Waiting \<Longrightarrow> queue s = [] \<Longrightarrow> \<not> disconnected j s \<Longrightarrow> drain_step j s (moves Asking s)"
| asks_again: "at s = Asking \<Longrightarrow> \<not> coordinated s \<Longrightarrow> drain_step j s (moves Top s)"
| asks_last: "at s = Asking \<Longrightarrow> coordinated s \<Longrightarrow> drain_step j s (moves Trying s)"
| tries: "at s = Trying \<Longrightarrow> queue s = r # q \<Longrightarrow> drain_step j s (moves (Gathering [r]) (s\<lparr>queue := q\<rparr>))"
| tries_none: "at s = Trying \<Longrightarrow> queue s = [] \<Longrightarrow> drain_step j s (moves (Ending (Inr ())) s)"
| gather_stops: "at s = Gathering b \<Longrightarrow> stopped s \<Longrightarrow> drain_step j s (moves (Writing (latest_from 0 Map.empty b) 0 b) s)"
| gather_on: "at s = Gathering b \<Longrightarrow> \<not> stopped s \<Longrightarrow> drain_step j s (moves (Reaching b) s)"
| gathers: "at s = Reaching b \<Longrightarrow> queue s = r # q \<Longrightarrow> drain_step j s (moves (Gathering (b @ [r])) (s\<lparr>queue := q\<rparr>))"
| gathered: "at s = Reaching b \<Longrightarrow> queue s = [] \<Longrightarrow> drain_step j s (moves (Writing (latest_from 0 Map.empty b) 0 b) s)"

inductive write_step :: "('i, 'v) job \<Rightarrow> ('i, 'v) call \<Rightarrow> ('i, 'v) call \<Rightarrow> bool" for j where
  write_end: "at s = Writing l i [] \<Longrightarrow> write_step j s (moves Top s)"
| write_stops: "at s = Writing l i (r # rest) \<Longrightarrow> stopped s \<Longrightarrow> write_step j s (moves Top s)"
| write_on: "at s = Writing l i (r # rest) \<Longrightarrow> \<not> stopped s \<Longrightarrow> write_step j s (moves (Handling l i (r # rest)) s)"
| output_ready:
    "at s = Handling l i (Output (n, v) # rest) \<Longrightarrow> how j = As_ready \<Longrightarrow>
     write_step j s (moves (Writing l (i + 1) rest) (gives (To_output v) (s\<lparr>emitted := emitted s @ [n]\<rparr>)))"
| output_fails:
    "at s = Handling l i (Output (n, v) # rest) \<Longrightarrow> how j = As_ready \<Longrightarrow> write_step j s (moves (Ending (Inl e)) s)"
| output_input:
    "at s = Handling l i (Output (n, v) # rest) \<Longrightarrow> how j = In_input \<Longrightarrow>
     write_step j s (moves (Flushing l i rest) (s\<lparr>pending := (pending s)(n \<mapsto> v)\<rparr>))"
| flushed:
    "at s = Flushing l i rest \<Longrightarrow> pending s (expected s) = None \<Longrightarrow> write_step j s (moves (Writing l (i + 1) rest) s)"
| flush_stops:
    "at s = Flushing l i rest \<Longrightarrow> pending s (expected s) = Some v \<Longrightarrow> stopped s \<Longrightarrow>
     write_step j s (moves (Writing l (i + 1) rest) (s\<lparr>pending := (pending s)(expected s := None)\<rparr>))"
| flushes:
    "at s = Flushing l i rest \<Longrightarrow> pending s (expected s) = Some v \<Longrightarrow> \<not> stopped s \<Longrightarrow>
     write_step j s (moves (Putting v l i rest) (s\<lparr>pending := (pending s)(expected s := None)\<rparr>))"
| puts:
    "at s = Putting v l i rest \<Longrightarrow>
     write_step j s (moves (Flushing l i rest)
       (gives (To_output v) (s\<lparr>emitted := emitted s @ [expected s], expected := expected s + 1\<rparr>)))"
| put_fails: "at s = Putting v l i rest \<Longrightarrow> write_step j s (moves (Ending (Inl e)) s)"
| error_ends:
    "at s = Handling l i (Error e # rest) \<Longrightarrow> is_terminating e \<Longrightarrow> write_step j s (moves (Ending (Inl e)) s)"
| error_written:
    "at s = Handling l i (Error e # rest) \<Longrightarrow> \<not> is_terminating e \<Longrightarrow>
     write_step j s (moves (Writing l (i + 1) rest) (gives (To_error e) s))"
| error_fails:
    "at s = Handling l i (Error e # rest) \<Longrightarrow> \<not> is_terminating e \<Longrightarrow> write_step j s (moves (Ending (Inl e')) s)"
| stream_written:
    "at s = Handling l i (Stream k t # rest) \<Longrightarrow>
     write_step j s (moves (Writing l (i + 1) rest) (gives (To_stream k t) s))"
| stream_fails: "at s = Handling l i (Stream k t # rest) \<Longrightarrow> write_step j s (moves (Ending (Inl e)) s)"
| progress_written:
    "at s = Handling l i (Progress r # rest) \<Longrightarrow> l (activity_id r) = Some i \<Longrightarrow>
     write_step j s (moves (Writing l (i + 1) rest) (gives (To_progress r) s))"
| progress_fails:
    "at s = Handling l i (Progress r # rest) \<Longrightarrow> l (activity_id r) = Some i \<Longrightarrow> write_step j s (moves (Ending (Inl e)) s)"
| progress_replaced:
    "at s = Handling l i (Progress r # rest) \<Longrightarrow> l (activity_id r) \<noteq> Some i \<Longrightarrow>
     write_step j s (moves (Writing l (i + 1) rest) s)"

text \<open>After the drain: the signal, the receiver, the join.\<close>

definition any_panic :: "('i, 'v) job \<Rightarrow> ('i, 'v) call \<Rightarrow> bool" where
  "any_panic j s \<longleftrightarrow> (\<exists>t<width j. workers s t = Panicked)"

inductive end_step :: "('i, 'v) job \<Rightarrow> ('i, 'v) call \<Rightarrow> ('i, 'v) call \<Rightarrow> bool" for j where
  sets_halt: "at s = Ending r \<Longrightarrow> end_step j s (moves (Dropping r) (s\<lparr>halt := True\<rparr>))"
| drops: "at s = Dropping r \<Longrightarrow> end_step j s (moves (Joining r) (s\<lparr>receiver := False, queue := []\<rparr>))"
| joins:
    "at s = Joining r \<Longrightarrow> coordinated s \<Longrightarrow>
     end_step j s (moves (Returned (if any_panic j s then Inl worker_panic else r)) s)"

section \<open>All of it\<close>

datatype actor = Pipeline | Pool nat | Coordinator | Engine | Leaked

inductive call_step :: "('i, 'v) job \<Rightarrow> ('i, 'v) call \<Rightarrow> actor \<Rightarrow> ('i, 'v) call \<Rightarrow> bool" for j where
  by_worker: "worker_step j t s s' \<Longrightarrow> call_step j s (Pool t) s'"
| by_drain: "drain_step j s s' \<Longrightarrow> call_step j s Pipeline s'"
| by_write: "write_step j s s' \<Longrightarrow> call_step j s Pipeline s'"
| by_end: "end_step j s s' \<Longrightarrow> call_step j s Pipeline s'"
| coordinates:
    "\<forall>t. workers s t = Gone \<or> workers s t = Panicked \<Longrightarrow> call_step j s Coordinator (s\<lparr>coordinated := True\<rparr>)"
| stops: "call_step j s Engine (s\<lparr>stopped := True\<rparr>)"
| reports_late: "leaks j \<Longrightarrow> \<not> is_output r \<Longrightarrow> call_step j s Leaked (snd (worker_sends r s))"

lemmas call_ops = moves_def gives_def turns_def sends_def worker_sends_def item_done_def disconnected_def

end
