(* ===== verification/Worker_Places.thy ===== *)
theory Worker_Places
  imports Worker_Pool
begin

text \<open>
  Where the items of a \<open>par_map\<close> are at each moment, and the invariants of the claim, of the values on
  their way to the pipeline thread and of the order they are written in.
\<close>

section \<open>Where the items are\<close>

fun outs :: "'x sent list \<Rightarrow> 'x list" where
  "outs [] = []"
| "outs (Output x # rest) = x # outs rest"
| "outs (Error e # rest) = outs rest"
| "outs (Stream k t # rest) = outs rest"
| "outs (Progress r # rest) = outs rest"

lemma outs_append [simp]: "outs (a @ b) = outs a @ outs b"
  by (induction a rule: outs.induct) simp_all

lemma outs_Cons: "outs (r # rest) = outs [r] @ outs rest"
  by (cases r) simp_all

lemma outs_none [simp]: "\<not> is_output r \<Longrightarrow> outs (r # rest) = outs rest"
  by (cases r) simp_all

fun held :: "'v main \<Rightarrow> (nat \<times> 'v) sent list" where
  "held (Gathering b) = b"
| "held (Reaching b) = b"
| "held (Writing l i rest) = rest"
| "held (Handling l i rest) = rest"
| "held (Flushing l i rest) = rest"
| "held (Putting v l i rest) = rest"
| "held m = []"

text \<open>What is on its way to the pipeline thread or in its hands, in order.\<close>

definition stream :: "('i, 'v) call \<Rightarrow> (nat \<times> 'v) list" where
  "stream s = outs (held (at s)) @ outs (queue s)"

fun hand :: "'v main \<Rightarrow> 'v option" where
  "hand (Putting v l i rest) = Some v"
| "hand m = None"

definition in_work :: "('i, 'v) call \<Rightarrow> nat \<Rightarrow> bool" where
  "in_work s i \<longleftrightarrow> (\<exists>t x. workers s t = Working i x)"

definition value_of :: "('i, 'v) job \<Rightarrow> nat \<Rightarrow> 'v" where
  "value_of j i = runs j (items j ! i)"

definition claimed :: "('i, 'v) job \<Rightarrow> ('i, 'v) call \<Rightarrow> nat \<Rightarrow> bool" where
  "claimed j s i \<longleftrightarrow> i < length (items j) \<and> i < cursor s"

definition claims_ok :: "('i, 'v) job \<Rightarrow> ('i, 'v) call \<Rightarrow> bool" where
  "claims_ok j s \<longleftrightarrow>
     length (slots s) = length (items j)
     \<and> (\<forall>i<length (items j). slots s ! i = (if i < cursor s then None else Some (items j ! i)))
     \<and> begun s = [0..<min (cursor s) (length (items j))]
     \<and> (\<forall>t i x. workers s t = Working i x \<longrightarrow> claimed j s i \<and> x = items j ! i)
     \<and> (\<forall>t u i x y. workers s t = Working i x \<and> workers s u = Working i y \<longrightarrow> t = u)"

lemma begun_step: "[0..<min (Suc c) n] = (if c < n then [0..<min c n] @ [c] else [0..<min c n])"
  by (simp add: min_def le_Suc_eq)

lemma claim_next_Some:
  "claim_next sl c = (Some (i, x), sl', c') \<Longrightarrow>
   i = c \<and> c < length sl \<and> sl ! c = Some x \<and> sl' = sl[c := None] \<and> c' = Suc c"
  by (auto simp: claim_next_def Let_def split: if_splits)

lemma claim_next_None:
  "claim_next sl c = (None, sl', c') \<Longrightarrow>
   c' = Suc c \<and> (length sl \<le> c \<and> sl' = sl \<or> c < length sl \<and> sl ! c = None \<and> sl' = sl[c := None])"
  by (auto simp: claim_next_def Let_def split: if_splits)

text \<open>Steps of the pipeline thread, and all but a worker's claim, leave the claim as it is.\<close>

lemma main_keeps:
  "drain_step j s s' \<or> write_step j s s' \<or> end_step j s s' \<Longrightarrow>
   slots s' = slots s \<and> cursor s' = cursor s \<and> workers s' = workers s \<and> begun s' = begun s
   \<and> stopped s' = stopped s \<and> coordinated s' = coordinated s"
  by (auto elim!: drain_step.cases write_step.cases end_step.cases simp: call_ops)

lemma claims_ok_worker:
  assumes "claims_ok j s" and "worker_step j t s s'"
  shows "claims_ok j s'"
  using assms(2,1)
proof (cases rule: worker_step.cases)
  case (claims i x sl c)
  have slot: "i = cursor s" "cursor s < length (items j)" "x = items j ! cursor s"
      "sl = (slots s)[cursor s := None]" "c = Suc (cursor s)"
    using claim_next_Some [OF claims(3)] assms(1) by (auto simp: claims_ok_def)
  show ?thesis
    using assms(1) claims(1,2) unfolding claims_ok_def slot
    by (auto simp: call_ops claimed_def nth_list_update begun_step less_Suc_eq slot(2) split: if_splits)
next
  case (claims_none sl c)
  have "cursor s \<ge> length (items j)" "sl = slots s" "c = Suc (cursor s)"
    using claim_next_None [OF claims_none(3)] assms(1) by (auto simp: claims_ok_def)
  then show ?thesis
    using assms(1) claims_none(1,2) unfolding claims_ok_def
    by (auto simp: call_ops claimed_def begun_step less_Suc_eq split: if_splits)
qed (auto simp: claims_ok_def claimed_def call_ops split: if_splits)

lemma claims_ok_step:
  assumes "claims_ok j s" and "call_step j s a s'"
  shows "claims_ok j s'"
  using assms(2)
proof (cases rule: call_step.cases)
  case (by_worker t)
  then show ?thesis
    using claims_ok_worker assms(1) by blast
qed (use assms(1) main_keeps [of j s s'] in \<open>auto simp: claims_ok_def claimed_def call_ops\<close>)

section \<open>No item is in two places\<close>

text \<open>
  The items claimed are in work, in the stream, waiting for their turn, in hand to be written, or
  written, and in one place each.
\<close>

definition spread :: "nat set \<Rightarrow> nat set \<Rightarrow> nat list \<Rightarrow> nat set \<Rightarrow> nat set \<Rightarrow> nat list \<Rightarrow> bool" where
  "spread N W S P H E \<longleftrightarrow>
     distinct S \<and> distinct E \<and> set S \<inter> P = {} \<and> set S \<inter> H = {} \<and> set S \<inter> set E = {} \<and> P \<inter> H = {}
     \<and> P \<inter> set E = {} \<and> H \<inter> set E = {} \<and> W \<inter> (set S \<union> P \<union> H \<union> set E) = {}
     \<and> W \<union> set S \<union> P \<union> H \<union> set E \<subseteq> N"

definition covers :: "nat set \<Rightarrow> nat set \<Rightarrow> nat list \<Rightarrow> nat set \<Rightarrow> nat set \<Rightarrow> nat list \<Rightarrow> bool" where
  "covers N W S P H E \<longleftrightarrow> N \<subseteq> W \<union> set S \<union> P \<union> H \<union> set E"

lemma spread_less:
  "spread N W (A @ S) P H E \<Longrightarrow> W' \<subseteq> W \<Longrightarrow> P' \<subseteq> P \<Longrightarrow> H' \<subseteq> H \<Longrightarrow> spread N W' S P' H' E"
  unfolding spread_def by auto

lemma spread_emit: "spread N W (n # S) P H E \<Longrightarrow> spread N W S P H (E @ [n])"
  unfolding spread_def by auto

lemma spread_wait: "spread N W (n # S) P H E \<Longrightarrow> spread N W S (insert n P) H E"
  unfolding spread_def by auto

lemma spread_take: "spread N W S P {} E \<Longrightarrow> n \<in> P \<Longrightarrow> spread N W S (P - {n}) {n} E"
  unfolding spread_def by auto

lemma spread_put: "spread N W S P {n} E \<Longrightarrow> spread N W S P {} (E @ [n])"
  unfolding spread_def by auto

lemma spread_claim: "spread N W S P H E \<Longrightarrow> n \<notin> N \<Longrightarrow> spread (insert n N) (insert n W) S P H E"
  unfolding spread_def by auto

lemma spread_finish: "spread N W S P H E \<Longrightarrow> n \<in> W \<Longrightarrow> spread N (W - {n}) (S @ [n]) P H E"
  unfolding spread_def by auto

lemma covers_moves:
  "covers N W (n # S) P H E \<Longrightarrow> covers N W S P H (E @ [n])"
  "covers N W (n # S) P H E \<Longrightarrow> covers N W S (insert n P) H E"
  "covers N W S P {} E \<Longrightarrow> n \<in> P \<Longrightarrow> covers N W S (P - {n}) {n} E"
  "covers N W S P {n} E \<Longrightarrow> covers N W S P {} (E @ [n])"
  "covers N W S P H E \<Longrightarrow> covers (insert n N) (insert n W) S P H E"
  "covers N W S P H E \<Longrightarrow> covers N (W - {n}) (S @ [n]) P H E"
  unfolding covers_def by auto

abbreviation claimed_set :: "('i, 'v) job \<Rightarrow> ('i, 'v) call \<Rightarrow> nat set" where
  "claimed_set j s \<equiv> {i. claimed j s i}"

abbreviation work_set :: "('i, 'v) call \<Rightarrow> nat set" where
  "work_set s \<equiv> {i. in_work s i}"

definition hand_set :: "('i, 'v) call \<Rightarrow> nat set" where
  "hand_set s = (case hand (at s) of None \<Rightarrow> {} | Some v \<Rightarrow> {expected s})"

definition apart :: "('i, 'v) job \<Rightarrow> ('i, 'v) call \<Rightarrow> bool" where
  "apart j s \<longleftrightarrow>
     spread (claimed_set j s) (work_set s) (map fst (stream s)) (dom (pending s)) (hand_set s) (emitted s)"

definition accounted :: "('i, 'v) job \<Rightarrow> ('i, 'v) call \<Rightarrow> bool" where
  "accounted j s \<longleftrightarrow>
     covers (claimed_set j s) (work_set s) (map fst (stream s)) (dom (pending s)) (hand_set s) (emitted s)"

text \<open>The values on their way, and those written, are those of their items.\<close>

fun to_outputs :: "'v written list \<Rightarrow> 'v list" where
  "to_outputs [] = []"
| "to_outputs (To_output v # ws) = v # to_outputs ws"
| "to_outputs (w # ws) = to_outputs ws"

lemma to_outputs_append [simp]: "to_outputs (a @ b) = to_outputs a @ to_outputs b"
  by (induction a rule: to_outputs.induct) simp_all

definition values_ok :: "('i, 'v) job \<Rightarrow> ('i, 'v) call \<Rightarrow> bool" where
  "values_ok j s \<longleftrightarrow>
     (\<forall>(i, v)\<in>set (stream s). v = value_of j i) \<and> (\<forall>i v. pending s i = Some v \<longrightarrow> v = value_of j i)
     \<and> (\<forall>v. hand (at s) = Some v \<longrightarrow> v = value_of j (expected s))
     \<and> to_outputs (written s) = map (value_of j) (emitted s)"

text \<open>The stream and the places after each step.\<close>

lemma drain_keeps:
  "drain_step j s s' \<Longrightarrow>
   stream s' = stream s \<and> pending s' = pending s \<and> emitted s' = emitted s \<and> expected s' = expected s
   \<and> hand (at s') = None \<and> hand (at s) = None \<and> written s' = written s"
  by (erule drain_step.cases) (auto simp: stream_def call_ops outs_Cons [of _ "_ # _"] intro: outs_Cons [symmetric])

lemma end_keeps:
  "end_step j s s' \<Longrightarrow>
   (stream s' = stream s \<or> stream s' = []) \<and> pending s' = pending s \<and> emitted s' = emitted s
   \<and> expected s' = expected s \<and> hand (at s') = None \<and> hand (at s) = None \<and> written s' = written s"
  by (erule end_step.cases) (auto simp: stream_def call_ops)

text \<open>The steps that move one item, and the rest, which give some up or move none.\<close>

lemma write_moves:
  assumes "write_step j s s'"
  obtains (emit) n v where "stream s = (n, v) # stream s'" "pending s' = pending s" "hand (at s) = None"
      "hand (at s') = None" "emitted s' = emitted s @ [n]" "expected s' = expected s" "how j = As_ready"
      "to_outputs (written s') = to_outputs (written s) @ [v]"
  | (wait) n v where "stream s = (n, v) # stream s'" "pending s' = (pending s)(n \<mapsto> v)" "hand (at s) = None"
      "hand (at s') = None" "emitted s' = emitted s" "expected s' = expected s" "how j = In_input"
      "to_outputs (written s') = to_outputs (written s)"
  | (ready) v where "stream s' = stream s" "pending s (expected s) = Some v"
      "pending s' = (pending s)(expected s := None)" "hand (at s) = None" "hand (at s') = Some v"
      "emitted s' = emitted s" "expected s' = expected s" "to_outputs (written s') = to_outputs (written s)"
  | (put) v where "stream s' = stream s" "pending s' = pending s" "hand (at s) = Some v" "hand (at s') = None"
      "emitted s' = emitted s @ [expected s]" "expected s' = Suc (expected s)"
      "to_outputs (written s') = to_outputs (written s) @ [v]"
  | (other) gone where "stream s = gone @ stream s'" "hand (at s') = None" "emitted s' = emitted s"
      "expected s' = expected s" "to_outputs (written s') = to_outputs (written s)"
      "pending s' = pending s \<or> stopped s \<and> pending s' = (pending s)(expected s := None)"
      "gone = [] \<and> hand (at s) = None \<or> stopped s \<or> (\<exists>e. at s' = Ending (Inl e))"
  using assms
proof (cases rule: write_step.cases)
  case (write_stops l i r rest)
  then show thesis
    by (intro other [of "outs (r # rest)"]) (simp_all add: stream_def call_ops)
next
  case (output_fails l i n v rest e)
  then show thesis
    by (intro other [of "(n, v) # outs rest"]) (simp_all add: stream_def call_ops)
next
  case (put_fails v l i rest e)
  then show thesis
    by (intro other [of "outs rest"]) (simp_all add: stream_def call_ops)
next
  case (error_ends l i e rest)
  then show thesis
    by (intro other [of "outs rest"]) (simp_all add: stream_def call_ops)
next
  case (error_fails l i e rest e')
  then show thesis
    by (intro other [of "outs rest"]) (simp_all add: stream_def call_ops)
next
  case (stream_fails l i k t rest e)
  then show thesis
    by (intro other [of "outs rest"]) (simp_all add: stream_def call_ops)
next
  case (progress_fails l i r rest e)
  then show thesis
    by (intro other [of "outs rest"]) (simp_all add: stream_def call_ops)
next
  case (output_ready l i n v rest)
  then show thesis
    by (intro emit) (simp_all add: stream_def call_ops)
next
  case (output_input l i n v rest)
  then show thesis
    by (intro wait) (simp_all add: stream_def call_ops)
next
  case (flushes l i rest v)
  then show thesis
    by (intro ready) (simp_all add: stream_def call_ops)
next
  case (puts v l i rest)
  then show thesis
    by (intro put) (simp_all add: stream_def call_ops)
qed (intro other [of "[]"]; simp add: stream_def call_ops; fail)+

lemma same_claims:
  "workers s' = workers s \<Longrightarrow> cursor s' = cursor s \<Longrightarrow>
   claimed_set j s' = claimed_set j s \<and> work_set s' = work_set s"
  by (simp add: claimed_def in_work_def)

lemma write_claims: "write_step j s s' \<Longrightarrow> claimed_set j s' = claimed_set j s \<and> work_set s' = work_set s"
  using main_keeps [of j s s'] by (simp add: claimed_def in_work_def)

lemma apart_write:
  assumes "apart j s" and "write_step j s s'"
  shows "apart j s'"
  using assms(2)
proof (cases rule: write_moves)
  case (emit n v)
  then show ?thesis
    using assms(1) write_claims [OF assms(2)] unfolding apart_def hand_set_def by (auto intro: spread_emit)
next
  case (wait n v)
  then show ?thesis
    using assms(1) write_claims [OF assms(2)] unfolding apart_def hand_set_def by (auto intro: spread_wait)
next
  case (ready v)
  then show ?thesis
    using assms(1) write_claims [OF assms(2)] unfolding apart_def hand_set_def
    by (auto intro!: spread_take)
next
  case (put v)
  then show ?thesis
    using assms(1) write_claims [OF assms(2)] unfolding apart_def hand_set_def by (auto intro: spread_put)
next
  case (other gone)
  have "dom (pending s') \<subseteq> dom (pending s)"
    using other(6) by (auto split: if_splits)
  then show ?thesis
    using assms(1) other write_claims [OF assms(2)] unfolding apart_def hand_set_def
    by (auto elim!: spread_less)
qed

lemma apart_main:
  assumes "apart j s" and "drain_step j s s' \<or> end_step j s s'"
  shows "apart j s'"
proof -
  have "\<exists>gone. stream s = gone @ stream s'" "pending s' = pending s" "emitted s' = emitted s"
      "hand_set s' = {}"
    using assms(2) drain_keeps [of j s s'] end_keeps [of j s s'] by (auto simp: hand_set_def)
  moreover have "claimed_set j s' = claimed_set j s" "work_set s' = work_set s"
    using same_claims main_keeps [of j s s'] assms(2) by blast+
  ultimately show ?thesis
    using assms(1) unfolding apart_def by (auto elim!: spread_less)
qed

definition elsewhere :: "(nat \<Rightarrow> 'i worker) \<Rightarrow> nat \<Rightarrow> nat set" where
  "elsewhere f t = {i. \<exists>u y. u \<noteq> t \<and> f u = Working i y}"

lemma work_update:
  "{i. \<exists>u y. (f(t := w)) u = Working i y} = {i. \<exists>y. w = Working i y} \<union> elsewhere f t"
  unfolding elsewhere_def by (rule set_eqI) (simp, metis)

lemma elsewhere_idle: "\<forall>i y. workers s t \<noteq> Working i y \<Longrightarrow> elsewhere (workers s) t = work_set s"
  unfolding elsewhere_def in_work_def by (rule set_eqI) (simp, metis)

lemma elsewhere_working:
  assumes "claims_ok j s" and "workers s t = Working i x"
  shows "elsewhere (workers s) t = work_set s - {i}"
proof -
  have alone: "\<And>u y. workers s u = Working i y \<Longrightarrow> u = t"
    using assms unfolding claims_ok_def by blast
  show ?thesis
    unfolding elsewhere_def in_work_def by (rule set_eqI) (simp, metis alone assms(2) worker.inject)
qed

lemma worker_moves:
  assumes "worker_step j t s s'" and "claims_ok j s"
  obtains (claim) "claimed_set j s' = insert (cursor s) (claimed_set j s)" "cursor s \<notin> claimed_set j s"
      "work_set s' = insert (cursor s) (work_set s)" "stream s' = stream s"
  | (finish) i where "claimed_set j s' = claimed_set j s" "i \<in> work_set s" "work_set s' = work_set s - {i}"
      "stream s' = stream s @ [(i, value_of j i)]" "receiver s" "how j \<noteq> For_each"
  | (finish_nothing) i where "claimed_set j s' = claimed_set j s" "i \<in> work_set s" "work_set s' = work_set s - {i}"
      "stream s' = stream s" "\<not> receiver s \<or> how j = For_each" 
  | (panic) i where "claimed_set j s' = claimed_set j s" "i \<in> work_set s" "work_set s' = work_set s - {i}"
      "stream s' = stream s" "workers s' t = Panicked"
  | (same) "claimed_set j s' = claimed_set j s" "work_set s' = work_set s" "stream s' = stream s"
proof -
  have idle: "workers s' = (workers s)(t := w) \<Longrightarrow> \<forall>i y. workers s t \<noteq> Working i y \<Longrightarrow>
      work_set s' = {i. \<exists>y. w = Working i y} \<union> work_set s" for w
    using work_update [of "workers s" t w] elsewhere_idle [of s t] by (simp add: in_work_def)
  have ends: "workers s' = (workers s)(t := w) \<Longrightarrow> workers s t = Working i x \<Longrightarrow> \<forall>i y. w \<noteq> Working i y \<Longrightarrow>
      work_set s' = work_set s - {i}" for w i x
    using work_update [of "workers s" t w] elsewhere_working [OF assms(2), of t i x] by (simp add: in_work_def)
  show thesis
    using assms(1)
  proof (cases rule: worker_step.cases)
    case sees_halt
    then show thesis
      using idle [of Gone] by (intro same) (simp_all add: turns_def claimed_def stream_def)
  next
    case goes_on
    then show thesis
      using idle [of Claiming] by (intro same) (simp_all add: turns_def claimed_def stream_def)
  next
    case (claims i x sl c)
    have "i = cursor s" "cursor s < length (items j)" "c = Suc (cursor s)"
      using claim_next_Some [OF claims(3)] assms(2) by (auto simp: claims_ok_def)
    then show thesis
      using claims(1,2) idle [of "Working i x"]
      by (intro claim) (auto simp: turns_def claimed_def stream_def)
  next
    case (claims_none sl c)
    have "c = Suc (cursor s)" "length (items j) \<le> cursor s"
      using claim_next_None [OF claims_none(3)] assms(2) by (auto simp: claims_ok_def)
    then show thesis
      using claims_none(1,2) idle [of Gone]
      by (intro same) (auto simp: turns_def claimed_def stream_def)
  next
    case (reports i x r)
    then show thesis
      by (intro same) (auto simp: call_ops claimed_def stream_def in_work_def)
  next
    case (finishes i x)
    have x: "i \<in> work_set s" "x = items j ! i"
      using finishes assms(2) by (auto simp: in_work_def claims_ok_def)
    have "workers s' = (workers s)(t := Checking)"
      using finishes(1) by (auto simp: call_ops split: if_splits)
    then have gone: "work_set s' = work_set s - {i}"
      using ends [of Checking i x] finishes(2) by simp
    show thesis
    proof (cases "receiver s \<and> how j \<noteq> For_each")
      case True
      then show thesis
        using finishes(1) x gone
        by (intro finish [of i]) (simp_all add: call_ops claimed_def stream_def value_of_def)
    next
      case False
      then show thesis
        using finishes(1) x gone
        by (intro finish_nothing [of i]) (auto simp: call_ops claimed_def stream_def)
    qed
  next
    case (panics i x)
    then show thesis
      using ends [of Panicked i x]
      by (intro panic [of i]) (auto simp: turns_def claimed_def stream_def in_work_def)
  qed
qed

lemma worker_keeps:
  "worker_step j t s s' \<Longrightarrow>
   pending s' = pending s \<and> emitted s' = emitted s \<and> expected s' = expected s \<and> at s' = at s
   \<and> written s' = written s \<and> stopped s' = stopped s \<and> receiver s' = receiver s \<and> coordinated s' = coordinated s"
  by (erule worker_step.cases) (auto simp: call_ops)

lemma apart_worker:
  assumes "apart j s" and "claims_ok j s" and "worker_step j t s s'"
  shows "apart j s'"
proof -
  have same: "pending s' = pending s" "emitted s' = emitted s" "hand_set s' = hand_set s"
    using worker_keeps [OF assms(3)] by (simp_all add: hand_set_def split: option.split)
  note apart = assms(1) [unfolded apart_def]
  show ?thesis
    using assms(3,2)
  proof (cases rule: worker_moves)
    case claim
    then show ?thesis
      unfolding apart_def same using spread_claim [OF apart] by simp
  next
    case (finish i)
    then show ?thesis
      unfolding apart_def same using spread_finish [OF apart] by simp
  next
    case (finish_nothing i)
    then show ?thesis
      unfolding apart_def same using spread_less [of _ _ "[]", OF _ _ subset_refl subset_refl] apart by fastforce
  next
    case (panic i)
    then show ?thesis
      unfolding apart_def same using spread_less [of _ _ "[]", OF _ _ subset_refl subset_refl] apart by fastforce
  qed (use apart same in \<open>simp add: apart_def\<close>)
qed

lemma late_keeps:
  assumes "\<not> is_output r"
  shows "stream (snd (worker_sends r s)) = stream s"
    and "workers (snd (worker_sends r s)) = workers s" and "cursor (snd (worker_sends r s)) = cursor s"
    and "slots (snd (worker_sends r s)) = slots s" and "begun (snd (worker_sends r s)) = begun s"
    and "pending (snd (worker_sends r s)) = pending s" and "emitted (snd (worker_sends r s)) = emitted s"
    and "expected (snd (worker_sends r s)) = expected s" and "at (snd (worker_sends r s)) = at s"
    and "written (snd (worker_sends r s)) = written s" and "stopped (snd (worker_sends r s)) = stopped s"
    and "halt (snd (worker_sends r s)) = halt s" and "coordinated (snd (worker_sends r s)) = coordinated s"
    and "receiver (snd (worker_sends r s)) = receiver s"
  using assms by (auto simp: call_ops stream_def)

text \<open>The steps by whom they are: those of the coordinator, the engine and a handle that outlives the
  work change nothing here but their own flag, or the records of other streams in the queue.\<close>

definition same_places :: "('i, 'v) call \<Rightarrow> ('i, 'v) call \<Rightarrow> bool" where
  "same_places s s' \<longleftrightarrow>
     stream s' = stream s \<and> pending s' = pending s \<and> emitted s' = emitted s \<and> expected s' = expected s
     \<and> at s' = at s \<and> written s' = written s \<and> workers s' = workers s \<and> cursor s' = cursor s
     \<and> halt s' = halt s \<and> receiver s' = receiver s"

lemma call_cases:
  assumes "call_step j s a s'"
  obtains (worker) t where "worker_step j t s s'"
  | (draining) "drain_step j s s'"
  | (writing) "write_step j s s'"
  | (ending) "end_step j s s'"
  | (env) "same_places s s'" "stopped s \<longrightarrow> stopped s'"
      "coordinated s' = coordinated s \<or> (coordinated s' \<and> (\<forall>t. workers s t = Gone \<or> workers s t = Panicked))"
  using assms
proof (cases rule: call_step.cases)
  case (reports_late r)
  then show thesis
    by (intro env) (simp_all add: same_places_def late_keeps)
qed (auto simp: same_places_def stream_def)

lemma same_places_sets:
  assumes "same_places s s'"
  shows "claimed_set j s' = claimed_set j s" and "work_set s' = work_set s" and "hand_set s' = hand_set s"
  using assms unfolding same_places_def claimed_def in_work_def hand_set_def
  by (simp_all split: option.split)

lemma apart_step:
  assumes "apart j s" and "claims_ok j s" and "call_step j s a s'"
  shows "apart j s'"
  using assms(3)
proof (cases rule: call_cases)
  case env
  then show ?thesis
    using assms(1) same_places_sets [OF env(1)] unfolding apart_def by (simp add: same_places_def)
qed (use assms apart_worker apart_write apart_main in blast)+

lemma values_ok_step:
  assumes "values_ok j s" and "claims_ok j s" and "call_step j s a s'"
  shows "values_ok j s'"
  using assms(3)
proof (cases rule: call_cases)
  case (worker t)
  have "set (stream s') \<subseteq> set (stream s) \<union> {(i, value_of j i) |i. True}"
    using worker assms(2) by (cases rule: worker_moves) auto
  then show ?thesis
    using assms(1) worker_keeps [OF worker] unfolding values_ok_def by fastforce
next
  case draining
  then show ?thesis
    using assms(1) drain_keeps unfolding values_ok_def by fastforce
next
  case ending
  then have "set (stream s') \<subseteq> set (stream s)"
    using end_keeps by fastforce
  then show ?thesis
    using assms(1) end_keeps [OF ending] unfolding values_ok_def by fastforce
next
  case writing
  then show ?thesis
  proof (cases rule: write_moves)
    case (other gone)
    then have "pending s' i = Some v \<Longrightarrow> pending s i = Some v" for i v
      by (auto split: if_splits)
    then show ?thesis
      using assms(1) other unfolding values_ok_def by auto
  qed (use assms(1) in \<open>auto simp: values_ok_def split: if_splits\<close>)
next
  case env
  then show ?thesis
    using assms(1) by (simp add: values_ok_def same_places_def)
qed

section \<open>The order\<close>

fun flushing :: "'v main \<Rightarrow> bool" where
  "flushing (Flushing l i rest) = True"
| "flushing (Putting v l i rest) = True"
| "flushing m = False"

definition ordered :: "('i, 'v) job \<Rightarrow> ('i, 'v) call \<Rightarrow> bool" where
  "ordered j s \<longleftrightarrow>
     (how j = In_input \<longrightarrow> emitted s = [0..<expected s])
     \<and> (how j \<noteq> In_input \<longrightarrow> pending s = Map.empty \<and> \<not> flushing (at s))
     \<and> (how j = For_each \<longrightarrow> stream s = [] \<and> emitted s = [])"

lemma hand_flushing: "hand m = Some v \<Longrightarrow> flushing m"
  by (cases m) simp_all

lemma flushing_kept:
  "drain_step j s s' \<or> end_step j s s' \<Longrightarrow> \<not> flushing (at s) \<and> \<not> flushing (at s')"
  by (auto elim!: drain_step.cases end_step.cases simp: call_ops)

lemma write_flushing: "write_step j s s' \<Longrightarrow> flushing (at s') \<Longrightarrow> flushing (at s) \<or> how j = In_input"
  by (erule write_step.cases) (auto simp: call_ops)

lemma ordered_step:
  assumes "ordered j s" and "claims_ok j s" and "call_step j s a s'"
  shows "ordered j s'"
  using assms(3)
proof (cases rule: call_cases)
  case (worker t)
  have "how j = For_each \<Longrightarrow> stream s' = stream s"
    using worker assms(2) by (cases rule: worker_moves) auto
  then show ?thesis
    using assms(1) worker_keeps [OF worker] by (simp add: ordered_def)
next
  case draining
  then show ?thesis
    using assms(1) drain_keeps [OF draining] flushing_kept by (auto simp: ordered_def)
next
  case ending
  then show ?thesis
    using assms(1) end_keeps [OF ending] flushing_kept by (auto simp: ordered_def)
next
  case writing
  then show ?thesis
    by (cases rule: write_moves)
      (use assms(1) write_flushing [OF writing] hand_flushing [of "at s"] in \<open>auto simp: ordered_def\<close>)
next
  case env
  then show ?thesis
    using assms(1) by (simp add: ordered_def same_places_def)
qed

end
