(* ===== verification/Worker_Calls.thy ===== *)
theory Worker_Calls
  imports Worker_Places "HOL-Library.Multiset"
begin

text \<open>
  What a call of \<open>par_map\<close> or \<open>par_for_each\<close> comes to: the results in order, each once, a panic that
  fails the call, and no way for it to get stuck.
\<close>

section \<open>Calls that nothing disturbs\<close>

fun over :: "'v main \<Rightarrow> result option" where
  "over (Ending r) = Some r"
| "over (Dropping r) = Some r"
| "over (Joining r) = Some r"
| "over (Returned r) = Some r"
| "over m = None"

text \<open>The stop has not come, no worker has panicked and no write has failed.\<close>

definition good :: "('i, 'v) call \<Rightarrow> bool" where
  "good s \<longleftrightarrow> \<not> stopped s \<and> (\<forall>t. workers s t \<noteq> Panicked) \<and> (\<forall>e. over (at s) \<noteq> Some (Inl e))"

lemma worker_sticky: "worker_step j t s s' \<Longrightarrow> workers s u = Gone \<or> workers s u = Panicked \<Longrightarrow> workers s' u = workers s u"
  by (erule worker_step.cases) (auto simp: call_ops split: if_splits)

lemma over_sticky:
  "drain_step j s s' \<or> write_step j s s' \<Longrightarrow> over (at s) = None"
  by (auto elim!: drain_step.cases write_step.cases)

lemma end_over: "end_step j s s' \<Longrightarrow> \<exists>r. over (at s) = Some r \<and>
    (over (at s') = Some r \<or> (any_panic j s \<and> coordinated s \<and> over (at s') = Some (Inl worker_panic)))"
  by (erule end_step.cases) (auto simp: moves_def)

lemma good_before:
  assumes "call_step j s a s'" and "good s'"
  shows "good s"
  using assms(1)
proof (cases rule: call_cases)
  case (worker t)
  have "workers s u \<noteq> Panicked" for u
    using worker_sticky [OF worker, of u] assms(2) unfolding good_def by metis
  then show ?thesis
    using worker_keeps [OF worker] assms(2) unfolding good_def by simp
next
  case draining
  then show ?thesis
    using assms(2) over_sticky [of j s s'] main_keeps [of j s s'] by (simp add: good_def)
next
  case writing
  then show ?thesis
    using assms(2) over_sticky [of j s s'] main_keeps [of j s s'] by (simp add: good_def)
next
  case ending
  then show ?thesis
    using assms(2) end_over [of j s s'] main_keeps [of j s s'] by (auto simp: good_def)
next
  case env
  then show ?thesis
    using assms(2) by (auto simp: good_def same_places_def)
qed

definition settles :: "('i, 'v) job \<Rightarrow> ('i, 'v) call \<Rightarrow> bool" where
  "settles j s \<longleftrightarrow>
     (coordinated s \<longrightarrow> (\<forall>t. workers s t = Gone \<or> workers s t = Panicked))
     \<and> (at s = Trying \<longrightarrow> coordinated s) \<and> (\<forall>r. at s = Returned r \<longrightarrow> coordinated s \<or> items j = [])
     \<and> (\<forall>t. width j \<le> t \<longrightarrow> workers s t = Gone) \<and> (\<forall>l i. at s \<noteq> Handling l i [])
     \<and> (\<forall>r. at s = Returned r \<and> any_panic j s \<longrightarrow> r = Inl worker_panic)"

lemma worker_busy: "worker_step j t s s' \<Longrightarrow> workers s t \<noteq> Gone \<and> workers s t \<noteq> Panicked"
  by (erule worker_step.cases) auto

lemma worker_others: "worker_step j t s s' \<Longrightarrow> u \<noteq> t \<Longrightarrow> workers s' u = workers s u"
  by (erule worker_step.cases) (auto simp: call_ops)

lemma settles_step:
  assumes "settles j s" and "call_step j s a s'"
  shows "settles j s'"
  using assms(2)
proof (cases rule: call_cases)
  case (worker t)
  have busy: "workers s t \<noteq> Gone \<and> workers s t \<noteq> Panicked"
    by (rule worker_busy [OF worker])
  then have "\<not> coordinated s" and small: "t < width j"
    using assms(1) unfolding settles_def by (metis, meson not_le)
  moreover have "items j \<noteq> []"
    using small by (auto simp: width_def)
  moreover have "workers s' u = Gone" if "width j \<le> u" for u
    using assms(1) that small worker_others [OF worker, of u] unfolding settles_def by (metis leD)
  ultimately show ?thesis
    using assms(1) worker_keeps [OF worker] by (auto simp: settles_def)
next
  case draining
  then have "at s' = Trying \<longrightarrow> coordinated s'" "\<forall>r. at s' \<noteq> Returned r" "\<forall>l i. at s' \<noteq> Handling l i []"
    by (auto elim!: drain_step.cases simp: moves_def)
  then show ?thesis
    using assms(1) main_keeps [of j s s'] draining by (simp add: settles_def any_panic_def)
next
  case writing
  then have "at s' \<noteq> Trying" "\<forall>r. at s' \<noteq> Returned r" "\<forall>l i. at s' \<noteq> Handling l i []"
    by (auto elim!: write_step.cases simp: moves_def)
  then show ?thesis
    using assms(1) main_keeps [of j s s'] writing by (simp add: settles_def any_panic_def)
next
  case ending
  then have "at s' \<noteq> Trying" "\<forall>l i. at s' \<noteq> Handling l i []"
      "\<forall>r. at s' = Returned r \<longrightarrow> coordinated s' \<and> (any_panic j s \<longrightarrow> r = Inl worker_panic)"
    by (auto elim!: end_step.cases simp: moves_def)
  then show ?thesis
    using assms(1) main_keeps [of j s s'] ending by (simp add: settles_def any_panic_def)
next
  case env
  then show ?thesis
    using assms(1) by (auto simp: settles_def same_places_def any_panic_def)
qed

definition undisturbed :: "('i, 'v) job \<Rightarrow> ('i, 'v) call \<Rightarrow> bool" where
  "undisturbed j s \<longleftrightarrow>
     (how j \<noteq> For_each \<longrightarrow> accounted j s)
     \<and> (over (at s) = None \<longrightarrow> \<not> halt s \<and> receiver s)
     \<and> (over (at s) \<noteq> None \<longrightarrow> coordinated s \<and> stream s = [] \<and> length (items j) \<le> cursor s)
     \<and> (\<forall>t<width j. workers s t = Gone \<longrightarrow> length (items j) \<le> cursor s)
     \<and> (\<not> flushing (at s) \<longrightarrow> pending s (expected s) = None)"

lemma worker_effect:
  assumes "worker_step j t s s'" and "receiver s" and "\<not> halt s" and "workers s' t \<noteq> Panicked"
  shows "\<not> halt s'" and "cursor s \<le> cursor s'"
    and "claims_ok j s \<Longrightarrow> workers s' t = Gone \<Longrightarrow> length (items j) \<le> cursor s'"
proof -
  show "\<not> halt s'" "cursor s \<le> cursor s'"
    using assms by (cases rule: worker_step.cases; auto simp: call_ops claim_next_def Let_def split: if_splits)+
  show "length (items j) \<le> cursor s'" if "claims_ok j s" "workers s' t = Gone"
    using assms(1)
  proof (cases rule: worker_step.cases)
    case (claims_none sl c)
    then show ?thesis
      using claim_next_None [OF claims_none(3)] that(1) by (auto simp: call_ops claims_ok_def)
  qed (use assms(2-) that(2) in \<open>auto simp: call_ops split: if_splits\<close>)
qed

lemma undisturbed_worker:
  assumes "undisturbed j s" and "settles j s" and "claims_ok j s" and "good s'" and "worker_step j t s s'"
  shows "undisturbed j s'"
proof -
  note keep = worker_keeps [OF assms(5)]
  have busy: "\<not> coordinated s"
    using assms(2) worker_busy [OF assms(5)] unfolding settles_def by metis
  then have running: "over (at s) = None" and halt: "\<not> halt s" and receiver: "receiver s"
    using assms(1) unfolding undisturbed_def by auto
  have calm: "workers s' t \<noteq> Panicked"
    using assms(4) by (simp add: good_def)
  note effect = worker_effect [OF assms(5) receiver halt calm]
  have gone: "length (items j) \<le> cursor s'" if "u < width j" "workers s' u = Gone" for u
  proof (cases "u = t")
    case False
    then have "length (items j) \<le> cursor s"
      using assms(1) that worker_others [OF assms(5)] unfolding undisturbed_def by metis
    then show ?thesis
      using effect(2) by simp
  qed (use effect(3) assms(3) that in blast)
  have "accounted j s'" if way: "how j \<noteq> For_each"
  proof -
    have acc: "accounted j s" and hand: "hand_set s' = hand_set s"
      using assms(1) way keep by (simp_all add: undisturbed_def hand_set_def split: option.split)
    note moves = covers_moves(5,6) [OF acc [unfolded accounted_def]]
    show ?thesis
      using assms(5,3)
    proof (cases rule: worker_moves)
      case (finish i)
      then show ?thesis
        unfolding accounted_def using moves(2) [of i] keep hand by simp
    qed (use moves(1) keep hand way receiver calm acc in \<open>auto simp: accounted_def\<close>)
  qed
  then show ?thesis
    using effect(1) gone running keep assms(1) unfolding undisturbed_def by simp
qed

lemma write_flush:
  "write_step j s s' \<Longrightarrow> \<not> stopped s \<Longrightarrow> over (at s') = None \<Longrightarrow> \<not> flushing (at s') \<Longrightarrow>
   pending s' (expected s') = None \<or> (\<not> flushing (at s) \<and> pending s' = pending s \<and> expected s' = expected s)"
  by (erule write_step.cases) (auto simp: call_ops)

lemma write_over: "write_step j s s' \<Longrightarrow> over (at s') = None \<or> (\<exists>e. over (at s') = Some (Inl e))"
  by (erule write_step.cases) (auto simp: moves_def)

lemma write_keeps: "write_step j s s' \<Longrightarrow> halt s' = halt s \<and> receiver s' = receiver s"
  by (erule write_step.cases) (auto simp: call_ops)

lemma undisturbed_write:
  assumes "undisturbed j s" and "good s" and "good s'" and "write_step j s s'"
  shows "undisturbed j s'"
proof -
  have over: "over (at s) = None" "over (at s') = None"
    using over_sticky [of j s s'] write_over [OF assms(4)] assms(3,4) by (auto simp: good_def)
  have calm: "\<not> stopped s"
    using assms(2) by (simp add: good_def)
  have keep: "halt s' = halt s" "receiver s' = receiver s" "workers s' = workers s" "cursor s' = cursor s"
    using write_keeps [OF assms(4)] main_keeps [of j s s'] assms(4) by auto
  have flush: "\<not> flushing (at s') \<Longrightarrow> pending s' (expected s') = None"
    using write_flush [OF assms(4) calm over(2)] assms(1) unfolding undisturbed_def by auto
  have "accounted j s'" if way: "how j \<noteq> For_each"
  proof -
    have acc: "accounted j s"
      using assms(1) way by (simp add: undisturbed_def)
    note sets = write_claims [OF assms(4)]
    show ?thesis
      using assms(4)
    proof (cases rule: write_moves)
      case (other gone)
      then have "gone = []" "pending s' = pending s" "hand_set s' = {}" "hand_set s = {}"
        using calm over by (auto simp: hand_set_def)
      then show ?thesis
        using acc other sets by (simp add: accounted_def)
    qed (use acc sets in \<open>auto simp: accounted_def hand_set_def intro: covers_moves\<close>)
  qed
  then show ?thesis
    using assms(1) over keep flush unfolding undisturbed_def by simp
qed

lemma undisturbed_drain:
  assumes "undisturbed j s" and "good s" and "good s'" and "settles j s" and "0 < width j"
    and "drain_step j s s'"
  shows "undisturbed j s'"
proof -
  note keep = drain_keeps [OF assms(6)]
  have main: "workers s' = workers s" "cursor s' = cursor s" "coordinated s' = coordinated s"
      "halt s' = halt s" "receiver s' = receiver s"
    using main_keeps [of j s s'] assms(6) by (auto elim!: drain_step.cases simp: call_ops)
  have over: "over (at s) = None"
    using over_sticky assms(6) by blast
  have ended: "coordinated s \<and> stream s = []" if "over (at s') \<noteq> None"
    using assms(6,2,4) that
    by (cases rule: drain_step.cases) (auto simp: good_def settles_def stream_def call_ops)
  have cursor: "length (items j) \<le> cursor s" if "coordinated s"
  proof -
    have "workers s 0 = Gone"
      using assms(2,4) that by (metis good_def settles_def)
    then show ?thesis
      using assms(1,5) unfolding undisturbed_def by blast
  qed
  have "accounted j s' \<longleftrightarrow> accounted j s"
    using keep same_claims [of s' s j] main unfolding accounted_def by (simp add: hand_set_def)
  then show ?thesis
    using assms(1) over ended cursor keep main flushing_kept [of j s s'] assms(6) unfolding undisturbed_def by auto
qed

lemma undisturbed_end:
  assumes "undisturbed j s" and "end_step j s s'"
  shows "undisturbed j s'"
proof -
  note keep = end_keeps [OF assms(2)]
  have main: "workers s' = workers s" "cursor s' = cursor s" "coordinated s' = coordinated s"
    using main_keeps [of j s s'] assms(2) by auto
  have over: "over (at s) \<noteq> None" "over (at s') \<noteq> None"
    using end_over [OF assms(2)] by auto
  have stream: "stream s' = []" "stream s = []"
    using keep over assms(1) unfolding undisturbed_def by auto
  have "accounted j s' \<longleftrightarrow> accounted j s"
    using keep stream same_claims [of s' s j] main unfolding accounted_def by (simp add: hand_set_def)
  then show ?thesis
    using assms(1) over stream keep main flushing_kept [of j s s'] assms(2) unfolding undisturbed_def by auto
qed

lemma undisturbed_step:
  assumes "good s \<longrightarrow> undisturbed j s" and "settles j s" and "claims_ok j s" and "0 < width j"
    and "call_step j s a s'"
  shows "good s' \<longrightarrow> undisturbed j s'"
proof
  assume new: "good s'"
  then have old: "good s" "undisturbed j s"
    using good_before assms(1,5) by blast+
  show "undisturbed j s'"
    using assms(5)
  proof (cases rule: call_cases)
    case (worker t)
    then show ?thesis
      using undisturbed_worker old assms(2,3) new by blast
  next
    case draining
    then show ?thesis
      using undisturbed_drain old assms(2,4) new by blast
  next
    case writing
    then show ?thesis
      using undisturbed_write old new by blast
  next
    case ending
    then show ?thesis
      using undisturbed_end old by blast
  next
    case env
    then show ?thesis
      using old same_places_sets [OF env(1)] unfolding undisturbed_def accounted_def
      by (auto simp: same_places_def)
  qed
qed

section \<open>What is reached\<close>

definition call_inv :: "('i, 'v) job \<Rightarrow> ('i, 'v) call \<Rightarrow> bool" where
  "call_inv j s \<longleftrightarrow>
     claims_ok j s \<and> apart j s \<and> values_ok j s \<and> ordered j s \<and> settles j s
     \<and> (0 < width j \<and> good s \<longrightarrow> undisturbed j s)"

lemma start_inv: "call_inv j (start_call j)"
proof -
  have "undisturbed j (start_call j)" if "0 < width j"
    using that by (auto simp: start_call_def undisturbed_def accounted_def covers_def claimed_def width_def)
  then show ?thesis
    by (auto simp: call_inv_def start_call_def claims_ok_def claim_slots_def apart_def spread_def stream_def
        in_work_def hand_set_def values_ok_def ordered_def settles_def any_panic_def)
qed

lemma inv_step: "call_inv j s \<Longrightarrow> call_step j s a s' \<Longrightarrow> call_inv j s'"
  unfolding call_inv_def
  using claims_ok_step apart_step values_ok_step ordered_step settles_step undisturbed_step by metis

interpretation calls: protocol "start_call j" "call_step j" "call_inv j" for j
  using start_inv inv_step by unfold_locales blast+

lemma emitted_items:
  assumes "call_inv j s"
  shows "distinct (emitted s)" and "set (emitted s) \<subseteq> {..<length (items j)}"
    and "to_outputs (written s) = map (value_of j) (emitted s)"
  using assms unfolding call_inv_def apart_def spread_def claimed_def values_ok_def by auto

lemma returned_good:
  assumes "call_inv j s" and "at s = Returned (Inr ())" and "\<not> stopped s"
  shows "good s"
proof -
  have "workers s t \<noteq> Panicked" for t
  proof
    assume panicked: "workers s t = Panicked"
    then have "t < width j"
      using assms(1) unfolding call_inv_def settles_def by (metis not_le worker.distinct(19))
    then have "any_panic j s"
      using panicked by (auto simp: any_panic_def)
    then show False
      using assms(1,2) unfolding call_inv_def settles_def by fastforce
  qed
  then show ?thesis
    using assms(2,3) by (simp add: good_def)
qed

text \<open>A call that returns undisturbed has emptied every place but the output.\<close>

lemma returned_all:
  assumes "call_inv j s" and "at s = Returned (Inr ())" and "\<not> stopped s" and "0 < pool_size j"
  shows "length (items j) \<le> cursor s"
    and "how j \<noteq> For_each \<Longrightarrow> {..<length (items j)} \<subseteq> dom (pending s) \<union> set (emitted s)"
    and "pending s (expected s) = None"
proof -
  have claimed: "claimed_set j s \<subseteq> {..<length (items j)}" "dom (pending s) \<subseteq> claimed_set j s"
      "work_set s \<subseteq> claimed_set j s"
    using assms(1) unfolding call_inv_def apart_def spread_def by (auto simp: claimed_def)
  have "length (items j) \<le> cursor s \<and> (how j \<noteq> For_each \<longrightarrow> {..<length (items j)} \<subseteq> dom (pending s) \<union> set (emitted s))
      \<and> pending s (expected s) = None"
  proof (cases "items j = []")
    case True
    then show ?thesis
      using claimed by auto
  next
    case False
    then have "undisturbed j s"
      using assms(1,4) returned_good [OF assms(1-3)] by (simp add: call_inv_def width_def)
    then have all: "coordinated s" "stream s = []" "length (items j) \<le> cursor s" "pending s (expected s) = None"
        "how j \<noteq> For_each \<Longrightarrow> accounted j s"
      using assms(2) by (simp_all add: undisturbed_def)
    have idle: "workers s t = Gone \<or> workers s t = Panicked" for t
      using assms(1) all(1) unfolding call_inv_def settles_def by blast
    have "\<not> in_work s i" for i
    proof
      assume "in_work s i"
      then obtain t x where "workers s t = Working i x"
        unfolding in_work_def by blast
      then show False
        using idle [of t] by simp
    qed
    then have "work_set s = {}"
      by simp
    moreover have "claimed_set j s = {..<length (items j)}"
      using all(3) by (auto simp: claimed_def)
    ultimately show ?thesis
      using all assms(2) by (auto simp: accounted_def covers_def hand_set_def)
  qed
  then show "length (items j) \<le> cursor s" "pending s (expected s) = None"
      "how j \<noteq> For_each \<Longrightarrow> {..<length (items j)} \<subseteq> dom (pending s) \<union> set (emitted s)"
    by blast+
qed

lemma values_of_items: "map (value_of j) [0..<length (items j)] = map (runs j) (items j)"
  by (rule nth_equalityI) (simp_all add: value_of_def)

lemma in_order_emitted:
  assumes "call_inv j s" and "how j = In_input"
  shows "emitted s = [0..<expected s]" and "expected s \<le> length (items j)"
proof -
  show emitted: "emitted s = [0..<expected s]"
    using assms by (simp add: call_inv_def ordered_def)
  show "expected s \<le> length (items j)"
    using emitted_items(2) [OF assms(1)] emitted by (cases "expected s") auto
qed

text \<open>
  C12: \<open>par_map\<close> in input order writes a prefix of the results in the order of the items, whatever the
  workers do; and when it returns \<open>Ok\<close> with the pipeline not stopped, on a pool of at least one thread, it
  has written them all. A call the pipeline stops may return \<open>Ok\<close> with results missing.
\<close>
theorem par_map_in_order:
  assumes "reaches (call_step j) (start_call j) s" and "how j = In_input"
  shows "prefix (to_outputs (written s)) (map (runs j) (items j))
      \<and> (0 < pool_size j \<and> at s = Returned (Inr ()) \<and> \<not> stopped s \<longrightarrow>
           to_outputs (written s) = map (runs j) (items j))"
proof
  have inv: "call_inv j s"
    using assms(1) by (rule calls.inv_reached)
  note order = in_order_emitted [OF inv assms(2)]
  have out: "to_outputs (written s) = map (value_of j) [0..<expected s]"
    using emitted_items(3) [OF inv] order(1) by simp
  moreover have "[0..<length (items j)] = [0..<expected s] @ [expected s..<length (items j)]"
    using order(2) by (metis le_add_diff_inverse upt_add_eq_append zero_le)
  ultimately show "prefix (to_outputs (written s)) (map (runs j) (items j))"
    unfolding values_of_items [symmetric] by (metis map_append prefixI)
  show "0 < pool_size j \<and> at s = Returned (Inr ()) \<and> \<not> stopped s \<longrightarrow>
      to_outputs (written s) = map (runs j) (items j)"
  proof (intro impI; elim conjE)
    assume ok: "0 < pool_size j" "at s = Returned (Inr ())" "\<not> stopped s"
    note all = returned_all [OF inv ok(2,3,1)]
    have "\<not> expected s < length (items j)"
      using all(2,3) assms(2) order(1) by (auto simp: subset_iff domIff)
    then show "to_outputs (written s) = map (runs j) (items j)"
      using out order(2) values_of_items [of j] by simp
  qed
qed

text \<open>
  C13: \<open>par_map\<close> as results are ready writes each item's result at most once, and when it returns \<open>Ok\<close>
  with the pipeline not stopped, on a pool of at least one thread, each exactly once. A call the pipeline stops
  may return \<open>Ok\<close> with results missing.
\<close>
theorem par_map_as_ready:
  assumes "reaches (call_step j) (start_call j) s" and "how j = As_ready"
  shows "mset (to_outputs (written s)) \<subseteq># mset (map (runs j) (items j))
      \<and> (0 < pool_size j \<and> at s = Returned (Inr ()) \<and> \<not> stopped s \<longrightarrow>
           mset (to_outputs (written s)) = mset (map (runs j) (items j)))"
proof
  have inv: "call_inv j s"
    using assms(1) by (rule calls.inv_reached)
  note emitted = emitted_items [OF inv]
  have "mset_set (set (emitted s)) \<subseteq># mset_set {0..<length (items j)}"
    using emitted(2) by (intro subset_imp_msubset_mset_set) auto
  then have "mset (emitted s) \<subseteq># mset [0..<length (items j)]"
    using emitted(1) by (simp add: mset_set_set)
  then show "mset (to_outputs (written s)) \<subseteq># mset (map (runs j) (items j))"
    unfolding values_of_items [symmetric] emitted(3) mset_map by (rule image_mset_subseteq_mono)
  show "0 < pool_size j \<and> at s = Returned (Inr ()) \<and> \<not> stopped s \<longrightarrow>
      mset (to_outputs (written s)) = mset (map (runs j) (items j))"
  proof (intro impI; elim conjE)
    assume ok: "0 < pool_size j" "at s = Returned (Inr ())" "\<not> stopped s"
    have "pending s = Map.empty"
      using inv assms(2) by (simp add: call_inv_def ordered_def)
    then have "set (emitted s) = {..<length (items j)}"
      using returned_all(2) [OF inv ok(2,3,1)] assms(2) emitted(2) by auto
    then have "mset (emitted s) = mset [0..<length (items j)]"
      using set_eq_iff_mset_eq_distinct [OF emitted(1) distinct_upt [of 0 "length (items j)"]]
      by (simp add: lessThan_atLeast0)
    then show "mset (to_outputs (written s)) = mset (map (runs j) (items j))"
      unfolding values_of_items [symmetric] emitted(3) mset_map by simp
  qed
qed

text \<open>
  The items are begun in order, each at most once, by whichever worker is free; a call that returns
  \<open>Ok\<close> with the pipeline not stopped has begun them all, and one in which a worker panicked returns
  \<open>PwrsWorkerPanic\<close>, never \<open>Ok\<close>.
\<close>
lemma items_begin_once:
  assumes "reaches (call_step j) (start_call j) s"
  shows "begun s = [0..<min (cursor s) (length (items j))]
      \<and> (0 < pool_size j \<and> at s = Returned (Inr ()) \<and> \<not> stopped s \<longrightarrow> begun s = [0..<length (items j)])
      \<and> (\<forall>r. at s = Returned r \<and> any_panic j s \<longrightarrow> r = Inl worker_panic)"
proof -
  have inv: "call_inv j s"
    using assms by (rule calls.inv_reached)
  then show ?thesis
    using returned_all(1) [OF inv] unfolding call_inv_def claims_ok_def settles_def by (auto simp: min_def)
qed

lemma worker_can:
  assumes "workers s t \<noteq> Gone" and "workers s t \<noteq> Panicked"
  shows "\<exists>s'. worker_step j t s s'"
proof (cases "workers s t")
  case Checking
  then show ?thesis
    using sees_halt [of s t] goes_on [of s t] by (cases "halt s") blast+
next
  case Claiming
  obtain r sl c where given: "claim_next (slots s) (cursor s) = (r, sl, c)"
    by (cases "claim_next (slots s) (cursor s)")
  show ?thesis
  proof (cases r)
    case None
    then show ?thesis
      using claims_none [OF Claiming] given by blast
  next
    case (Some p)
    then show ?thesis
      using claims [OF Claiming] given by (cases p) blast
  qed
next
  case (Working i x)
  then show ?thesis
    using finishes [of s t i x] by blast
qed (use assms in simp_all)

lemma handling_can:
  assumes "at s = Handling l i (r # rest)" and "how j \<noteq> For_each \<or> \<not> is_output r"
  shows "\<exists>s'. write_step j s s'"
proof (cases r)
  case (Output x)
  obtain n v where x: "x = (n, v)"
    by fastforce
  have at: "at s = Handling l i (Output (n, v) # rest)"
    using assms(1) Output x by simp
  show ?thesis
  proof (cases "how j")
    case As_ready
    then show ?thesis
      using output_ready [OF at] by blast
  next
    case In_input
    then show ?thesis
      using output_input [OF at] by blast
  qed (use assms(2) Output in simp)
next
  case (Error e)
  then have at: "at s = Handling l i (Error e # rest)"
    using assms(1) by simp
  show ?thesis
    using error_ends [OF at] error_written [OF at] by blast
next
  case (Stream k t)
  then have at: "at s = Handling l i (Stream k t # rest)"
    using assms(1) by simp
  show ?thesis
    using stream_written [OF at] by blast
next
  case (Progress p)
  then have at: "at s = Handling l i (Progress p # rest)"
    using assms(1) by simp
  show ?thesis
    using progress_written [OF at] progress_replaced [OF at] by blast
qed

lemma writing_can: "at s = Writing l i rest \<Longrightarrow> \<exists>s'. write_step j s s'"
  using write_end [of s l i] write_stops [of s l i] write_on [of s l i]
  by (cases rest; cases "stopped s") blast+

lemma flushing_can: "at s = Flushing l i rest \<Longrightarrow> \<exists>s'. write_step j s s'"
  using flushed [of s l i rest] flush_stops [of s l i rest] flushes [of s l i rest]
  by (cases "pending s (expected s)"; cases "stopped s") blast+

lemma joining_can:
  assumes "at s = Joining r"
  shows "\<exists>a s'. call_step j s a s' \<and> (a = Pipeline \<or> a = Coordinator \<or> (\<exists>t. a = Pool t))"
proof (cases "coordinated s")
  case True
  then show ?thesis
    using joins [OF assms] by_end by blast
next
  case False
  show ?thesis
  proof (cases "\<forall>t. workers s t = Gone \<or> workers s t = Panicked")
    case True
    then show ?thesis
      using coordinates by blast
  next
    case False
    then show ?thesis
      using worker_can by_worker by blast
  qed
qed

text \<open>
  No call is ever stuck: until it has returned, the pipeline thread, a worker or the coordinator has
  a step to make.
\<close>
lemma call_not_stuck:
  assumes "reaches (call_step j) (start_call j) s" and "\<And>r. at s \<noteq> Returned r"
  shows "\<exists>a s'. call_step j s a s' \<and> (a = Pipeline \<or> a = Coordinator \<or> (\<exists>t. a = Pool t))"
proof -
  have inv: "call_inv j s"
    using assms(1) by (rule calls.inv_reached)
  have drains: "\<exists>s'. drain_step j s s'" if "at s \<in> {Top, Waiting, Asking, Trying} \<or> (\<exists>b. at s \<in> {Gathering b, Reaching b})"
    using that
    by (cases "queue s"; cases "stopped s"; cases "coordinated s"; cases "disconnected j s")
      (auto intro: drain_step.intros)
  have moving: "\<exists>a s'. call_step j s a s' \<and> (a = Pipeline \<or> a = Coordinator \<or> (\<exists>t. a = Pool t))"
    if "at s \<in> {Top, Waiting, Asking, Trying} \<or> (\<exists>b. at s \<in> {Gathering b, Reaching b})"
    using drains [OF that] by_drain [of j s] by (elim exE) (intro exI conjI disjI1; auto)
  show ?thesis
  proof (cases "at s")
    case (Writing l i rest)
    then show ?thesis
      using writing_can by_write by blast
  next
    case (Handling l i rest)
    then obtain r rest' where rest: "rest = r # rest'"
      using inv unfolding call_inv_def settles_def by (cases rest) auto
    have "how j \<noteq> For_each \<or> \<not> is_output r"
      using inv Handling rest unfolding call_inv_def ordered_def stream_def by (cases r) auto
    then show ?thesis
      using handling_can [of s l i r rest'] Handling rest by_write by blast
  next
    case (Flushing l i rest)
    then show ?thesis
      using flushing_can by_write by blast
  next
    case (Putting v l i rest)
    then show ?thesis
      using by_write [OF puts [OF Putting]] by blast
  next
    case (Joining r)
    then show ?thesis
      by (rule joining_can)
  next
    case (Ending r)
    then show ?thesis
      using by_end [OF sets_halt [OF Ending]] by blast
  next
    case (Dropping r)
    then show ?thesis
      using by_end [OF drops [OF Dropping]] by blast
  next
    case (Returned r)
    then show ?thesis
      using assms(2) by simp
  qed (rule moving, simp)+
qed

section \<open>A call\<close>

text \<open>One item and a pool of three, of which one thread starts, to the end of the call.\<close>

definition one_job :: "order \<Rightarrow> (nat, nat) job" where
  "one_job way = \<lparr>items = [5], runs = (\<lambda>x. x + 2), how = way, pool_size = 3, leaks = False\<rparr>"

definition snap ::
  "nat worker \<Rightarrow> nat main \<Rightarrow> nat \<Rightarrow> (nat \<times> nat) sent list \<Rightarrow> (nat \<Rightarrow> nat option) \<Rightarrow> nat \<Rightarrow> nat list
   \<Rightarrow> nat written list \<Rightarrow> bool \<Rightarrow> bool \<Rightarrow> bool \<Rightarrow> (nat, nat) call"
where
  "snap w m c q p e em wr co h r =
     \<lparr>stopped = False, halt = h, receiver = r, queue = q, slots = [if c = 0 then Some 5 else None],
      cursor = c, workers = (\<lambda>t. Gone)(0 := w), coordinated = co, at = m, pending = p, expected = e,
      written = wr, emitted = em, begun = (if c = 0 then [] else [0])\<rparr>"

lemmas snap_ops = snap_def one_job_def call_ops claim_next_def any_panic_def

lemma advance:
  "reaches (call_step j) s0 s \<Longrightarrow> call_step j s a s' \<Longrightarrow> s'' = s' \<Longrightarrow> reaches (call_step j) s0 s''"
  by (auto intro: reaches_step)

lemma one_start: "start_call (one_job way) = snap Checking Top 0 [] Map.empty 0 [] [] False False True"
  by (simp add: start_call_def snap_def one_job_def claim_slots_def width_def fun_eq_iff)

abbreviation reaches_one :: "order \<Rightarrow> (nat, nat) call \<Rightarrow> bool" where
  "reaches_one way \<equiv> reaches (call_step (one_job way)) (start_call (one_job way))"

lemma one_worked:
  assumes [simp]: "way \<noteq> For_each"
  shows "reaches_one way
     (snap (Gone) (Top) 2 [Output (0, 7)] Map.empty 0 [] [] True False True)"
proof -
  have "reaches_one way (snap Checking Top 0 [] Map.empty 0 [] [] False False True)"
    by (subst one_start [of way, symmetric]) (rule reaches_start)
  then have "reaches_one way
      (snap (Claiming) (Top) 0 [] Map.empty 0 [] [] False False True)"
    by (rule advance [OF _ by_worker [OF goes_on [of _ 0]]]) (simp_all add: snap_ops)
  then have "reaches_one way
      (snap (Working 0 5) (Top) 1 [] Map.empty 0 [] [] False False True)"
    by (rule advance [OF _ by_worker [OF claims [of _ 0 0 5]]]) (simp_all add: snap_ops)
  then have "reaches_one way
      (snap (Checking) (Top) 1 [Output (0, 7)] Map.empty 0 [] [] False False True)"
    by (rule advance [OF _ by_worker [OF finishes [of _ 0 0 5]]]) (simp_all add: snap_ops)
  then have "reaches_one way
      (snap (Claiming) (Top) 1 [Output (0, 7)] Map.empty 0 [] [] False False True)"
    by (rule advance [OF _ by_worker [OF goes_on [of _ 0]]]) (simp_all add: snap_ops)
  then have "reaches_one way
      (snap (Gone) (Top) 2 [Output (0, 7)] Map.empty 0 [] [] False False True)"
    by (rule advance [OF _ by_worker [OF claims_none [of _ 0]]]) (simp_all add: snap_ops)
  then show ?thesis
    by (rule advance [OF _ coordinates]) (simp_all add: snap_ops)
qed

lemma one_gathered:
  assumes [simp]: "way \<noteq> For_each"
  shows "reaches_one way
     (snap (Gone) (Handling Map.empty 0 [Output (0, 7)]) 2 [] Map.empty 0 [] [] True False True)"
proof -
  note one_worked [OF assms]
  then have "reaches_one way
      (snap (Gone) (Waiting) 2 [Output (0, 7)] Map.empty 0 [] [] True False True)"
    by (rule advance [OF _ by_drain [OF top_waits]]) (simp_all add: snap_ops)
  then have "reaches_one way
      (snap (Gone) (Gathering [Output (0, 7)]) 2 [] Map.empty 0 [] [] True False True)"
    by (rule advance [OF _ by_drain [OF receives [of _ "Output (0, 7)" "[]"]]]) (simp_all add: snap_ops)
  then have "reaches_one way
      (snap (Gone) (Reaching [Output (0, 7)]) 2 [] Map.empty 0 [] [] True False True)"
    by (rule advance [OF _ by_drain [OF gather_on [of _ "[Output (0, 7)]"]]]) (simp_all add: snap_ops)
  then have "reaches_one way
      (snap (Gone) (Writing Map.empty 0 [Output (0, 7)]) 2 [] Map.empty 0 [] [] True False True)"
    by (rule advance [OF _ by_drain [OF gathered [of _ "[Output (0, 7)]"]]]) (simp_all add: snap_ops)
  then show ?thesis
    by (rule advance [OF _ by_write [OF write_on]]) (simp_all add: snap_ops)
qed

lemma one_in_order:
  assumes way [simp]: "way = In_input"
  shows "reaches_one way
     (snap (Gone) (Writing Map.empty 1 []) 2 [] Map.empty 1 [0] [To_output 7] True False True)"
proof -
  have "way \<noteq> For_each"
    by (simp add: way)
  note one_gathered [OF this]
  then have "reaches_one way
      (snap (Gone) (Flushing Map.empty 0 []) 2 [] [0 \<mapsto> 7] 0 [] [] True False True)"
    by (rule advance [OF _ by_write [OF output_input]]) (simp_all add: snap_ops)
  then have "reaches_one way
      (snap (Gone) (Putting 7 Map.empty 0 []) 2 [] Map.empty 0 [] [] True False True)"
    by (rule advance [OF _ by_write [OF flushes]]) (simp_all add: snap_ops)
  then have "reaches_one way
      (snap (Gone) (Flushing Map.empty 0 []) 2 [] Map.empty 1 [0] [To_output 7] True False True)"
    by (rule advance [OF _ by_write [OF puts]]) (simp_all add: snap_ops)
  then show ?thesis
    by (rule advance [OF _ by_write [OF flushed]]) (simp_all add: snap_ops)
qed

lemma one_ready:
  assumes way [simp]: "way = As_ready"
  shows "reaches_one way
     (snap (Gone) (Writing Map.empty 1 []) 2 [] Map.empty 0 [0] [To_output 7] True False True)"
proof -
  have "way \<noteq> For_each"
    by (simp add: way)
  note one_gathered [OF this]
  then show ?thesis
    by (rule advance [OF _ by_write [OF output_ready]]) (simp_all add: snap_ops)
qed

lemma one_returns:
  assumes "reaches_one way
     (snap (Gone) (Writing Map.empty 1 []) 2 [] Map.empty e [0] [To_output 7] True False True)"
  shows "reaches_one way
     (snap (Gone) (Returned (Inr ())) 2 [] Map.empty e [0] [To_output 7] True True False)"
proof -
  note assms
  then have "reaches_one way
      (snap (Gone) (Top) 2 [] Map.empty e [0] [To_output 7] True False True)"
    by (rule advance [OF _ by_write [OF write_end]]) (simp_all add: snap_ops)
  then have "reaches_one way
      (snap (Gone) (Waiting) 2 [] Map.empty e [0] [To_output 7] True False True)"
    by (rule advance [OF _ by_drain [OF top_waits]]) (simp_all add: snap_ops)
  then have "reaches_one way
      (snap (Gone) (Ending (Inr ())) 2 [] Map.empty e [0] [To_output 7] True False True)"
    by (rule advance [OF _ by_drain [OF all_gone]]) (simp_all add: snap_ops)
  then have "reaches_one way
      (snap (Gone) (Dropping (Inr ())) 2 [] Map.empty e [0] [To_output 7] True True True)"
    by (rule advance [OF _ by_end [OF sets_halt]]) (simp_all add: snap_ops)
  then have "reaches_one way
      (snap (Gone) (Joining (Inr ())) 2 [] Map.empty e [0] [To_output 7] True True False)"
    by (rule advance [OF _ by_end [OF drops]]) (simp_all add: snap_ops)
  then show ?thesis
    by (rule advance [OF _ by_end [OF joins]]) (simp_all add: snap_ops)
qed

theorem par_map_in_order_witness:
  "to_outputs (written (snap Gone (Returned (Inr ())) 2 [] Map.empty 1 [0] [To_output 7] True True False)) = map (runs (one_job In_input)) (items (one_job In_input))"
  using par_map_in_order [OF one_returns [OF one_in_order [of In_input]]] by (simp add: snap_ops)

theorem par_map_as_ready_witness:
  "mset (to_outputs (written (snap Gone (Returned (Inr ())) 2 [] Map.empty 0 [0] [To_output 7] True True False))) = mset (map (runs (one_job As_ready)) (items (one_job As_ready)))"
  using par_map_as_ready [OF one_returns [OF one_ready [of As_ready]]] by (simp add: snap_ops)

lemma items_begin_once_witness: "begun (snap Gone (Returned (Inr ())) 2 [] Map.empty 1 [0] [To_output 7] True True False) = [0..<length (items (one_job In_input))]"
  using items_begin_once [OF one_returns [OF one_in_order [of In_input]]] by (simp add: snap_ops)

lemma call_not_stuck_witness:
  "\<exists>a s'. call_step (one_job In_input) (snap (Gone) (Writing Map.empty 1 []) 2 [] Map.empty 1 [0] [To_output 7] True False True) a s' \<and> (a = Pipeline \<or> a = Coordinator \<or> (\<exists>t. a = Pool t))"
  by (rule call_not_stuck [OF one_in_order [of In_input]]) (simp_all add: snap_def)

end
