(* ===== verification/Gf2_Sums.thy ===== *)
theory Gf2_Sums
  imports Prelude
begin

unbundle bit_operations_syntax

text \<open>
  Words as vectors over GF(2): sums with XOR, functions that keep XOR, and the sum of weights over the set bits of
  a word. The kernels of \<open>simd/gf256.rs\<close> and \<open>simd/checksums.rs\<close> are linear in this sense.
\<close>

section \<open>Sums\<close>

definition xor_sum :: "(nat \<Rightarrow> 'a :: len word) \<Rightarrow> nat list \<Rightarrow> 'a word" where
  "xor_sum g is = foldr (\<lambda>i acc. g i XOR acc) is 0"

lemma xor_sum_simps [simp]: "xor_sum g [] = 0" "xor_sum g (i # is) = g i XOR xor_sum g is"
  by (simp_all add: xor_sum_def)

lemma xor_sum_append [simp]: "xor_sum g (is @ js) = xor_sum g is XOR xor_sum g js"
  by (induction "is") (simp_all add: xor.assoc)

lemma xor_sum_cong: "(\<And>i. i \<in> set is \<Longrightarrow> g i = h i) \<Longrightarrow> xor_sum g is = xor_sum h is"
  by (induction "is") simp_all

lemma xor_sum_zero: "(\<And>i. i \<in> set is \<Longrightarrow> g i = 0) \<Longrightarrow> xor_sum g is = 0"
  by (induction "is") simp_all

lemma xor_sum_xor: "xor_sum (\<lambda>i. g i XOR h i) is = xor_sum g is XOR xor_sum h is"
  by (induction "is") (simp_all add: ac_simps)

lemma xor_sum_one: "xor_sum (\<lambda>k. if k = i then g k else 0) [0..<m] = (if i < m then g i else 0)"
  by (induction m) (auto simp: less_Suc_eq)

lemma xor_sum_shift: "xor_sum g [k..<k + n] = xor_sum (\<lambda>i. g (k + i)) [0..<n]"
  by (induction n) simp_all

lemma xor_zero_eq: "a XOR b = 0 \<Longrightarrow> a = b" for a b :: "'a :: len word"
proof -
  assume "a XOR b = 0"
  moreover have "a = (a XOR b) XOR b"
    by (simp add: xor.assoc)
  ultimately show "a = b"
    by simp
qed

lemma xor_cancel:
  fixes a b c :: "'a :: len word"
  shows "a XOR c = b XOR c \<longleftrightarrow> a = b" and "c XOR a = c XOR b \<longleftrightarrow> a = b"
proof -
  have "(a XOR c) XOR c = a" "(b XOR c) XOR c = b"
    by (simp_all add: xor.assoc)
  then show "a XOR c = b XOR c \<longleftrightarrow> a = b"
    by metis
  then show "c XOR a = c XOR b \<longleftrightarrow> a = b"
    by (simp only: xor.commute [of c])
qed

section \<open>Functions that keep XOR\<close>

definition additive :: "('a :: len word \<Rightarrow> 'b :: len word) \<Rightarrow> bool" where
  "additive f \<longleftrightarrow> (\<forall>a b. f (a XOR b) = f a XOR f b)"

lemma additiveD: "additive f \<Longrightarrow> f (a XOR b) = f a XOR f b"
  by (simp add: additive_def)

lemma additive_zero: "additive f \<Longrightarrow> f 0 = 0"
  unfolding additive_def by (metis xor_self_eq)

lemma additive_sum: "additive f \<Longrightarrow> f (xor_sum g is) = xor_sum (\<lambda>i. f (g i)) is"
  by (induction "is") (simp_all add: additive_zero, simp add: additive_def)

lemma additive_id: "additive (\<lambda>a. a)"
  by (simp add: additive_def)

lemma additive_xor: "additive f \<Longrightarrow> additive g \<Longrightarrow> additive (\<lambda>a. f a XOR g a)"
  by (simp add: additive_def xor.left_commute xor.assoc)

lemma additive_comp: "additive f \<Longrightarrow> additive g \<Longrightarrow> additive (\<lambda>a. f (g a))"
  by (simp add: additive_def)

lemma additive_funpow:
  fixes f :: "'a :: len word \<Rightarrow> 'a word"
  shows "additive f \<Longrightarrow> additive (f ^^ n)"
  by (induction n) (simp_all add: additive_def)

section \<open>Weights of bits\<close>

text \<open>The sum of the weights of a word's set bits.\<close>

definition weigh :: "(nat \<Rightarrow> 'b :: len word) \<Rightarrow> 'a :: len word \<Rightarrow> 'b word" where
  "weigh c w = xor_sum (\<lambda>i. if bit w i then c i else 0) [0..<LENGTH('a)]"

lemma weigh_zero [simp]: "weigh c 0 = 0"
  by (simp add: weigh_def xor_sum_zero)

lemma additive_weigh: "additive (weigh c)"
proof -
  have "xor_sum (\<lambda>i. if bit (a XOR b) i then c i else 0) is
      = xor_sum (\<lambda>i. if bit a i then c i else 0) is XOR xor_sum (\<lambda>i. if bit b i then c i else 0) is"
    for a b :: "'a word" and "is"
    by (induction "is") (auto simp: bit_xor_iff ac_simps)
  then show ?thesis
    by (simp add: additive_def weigh_def)
qed

lemmas weigh_xor = additiveD [OF additive_weigh]

lemma additive_of_weigh: "additive f \<Longrightarrow> f (weigh c w) = weigh (\<lambda>i. f (c i)) w"
  unfolding weigh_def by (simp add: additive_sum) (rule xor_sum_cong, simp add: additive_zero)

lemma weigh_cong:
  assumes "\<And>i. i < LENGTH('a) \<Longrightarrow> bit w i \<Longrightarrow> c i = d i"
  shows "weigh c w = weigh d (w :: 'a :: len word)"
  unfolding weigh_def by (rule xor_sum_cong) (simp add: assms)

lemma weigh_cut:
  fixes w :: "'a :: len word"
  assumes "\<And>i. bit w i \<Longrightarrow> i < n" and "n \<le> LENGTH('a)"
  shows "weigh c w = xor_sum (\<lambda>i. if bit w i then c i else 0) [0..<n]"
proof -
  have "[0..<LENGTH('a)] = [0..<n] @ [n..<LENGTH('a)]"
    using upt_add_eq_append [of 0 n "LENGTH('a) - n"] assms(2) by simp
  moreover have "xor_sum (\<lambda>i. if bit w i then c i else 0) [n..<LENGTH('a)] = 0"
    by (rule xor_sum_zero) (use assms(1) in fastforce)
  ultimately show ?thesis
    by (simp add: weigh_def)
qed

lemma weigh_ucast:
  fixes w :: "'a :: len word"
  assumes "\<And>i. bit w i \<Longrightarrow> i < LENGTH('b)"
  shows "weigh c (ucast w :: 'b :: len word) = weigh c w"
proof -
  let ?n = "min LENGTH('a) LENGTH('b)"
  have small: "bit w i \<Longrightarrow> i < LENGTH('a)" for i
    by (rule bit_imp_le_length)
  have "weigh c (ucast w :: 'b word) = xor_sum (\<lambda>i. if bit (ucast w :: 'b word) i then c i else 0) [0..<?n]"
    by (rule weigh_cut) (auto simp: bit_ucast_iff dest: small)
  also have "\<dots> = xor_sum (\<lambda>i. if bit w i then c i else 0) [0..<?n]"
    by (rule xor_sum_cong) (auto simp: bit_ucast_iff)
  also have "\<dots> = weigh c w"
    by (rule weigh_cut [symmetric]) (auto dest: assms small)
  finally show ?thesis .
qed

lemma weigh_push_bit:
  fixes w :: "'a :: len word"
  assumes "\<And>i. bit w i \<Longrightarrow> k + i < LENGTH('a)"
  shows "weigh c (push_bit k w) = weigh (\<lambda>i. c (k + i)) w"
proof (cases "k < LENGTH('a)")
  case True
  have "[0..<LENGTH('a)] = [0..<k] @ [k..<k + (LENGTH('a) - k)]"
    using upt_add_eq_append [of 0 k "LENGTH('a) - k"] True by simp
  then have "weigh c (push_bit k w)
      = xor_sum (\<lambda>i. if bit (push_bit k w) i then c i else 0) [0..<k]
        XOR xor_sum (\<lambda>i. if bit (push_bit k w) (k + i) then c (k + i) else 0) [0..<LENGTH('a) - k]"
    by (simp only: weigh_def xor_sum_append xor_sum_shift)
  also have "xor_sum (\<lambda>i. if bit (push_bit k w) i then c i else 0) [0..<k] = 0"
    by (rule xor_sum_zero) (simp add: bit_push_bit_iff)
  also have "xor_sum (\<lambda>i. if bit (push_bit k w) (k + i) then c (k + i) else 0) [0..<LENGTH('a) - k]
      = xor_sum (\<lambda>i. if bit w i then c (k + i) else 0) [0..<LENGTH('a) - k]"
    by (rule xor_sum_cong) (auto simp: bit_push_bit_iff)
  also have "\<dots> = weigh (\<lambda>i. c (k + i)) w"
    by (rule weigh_cut [symmetric]) (use assms in fastforce)+
  finally show ?thesis by simp
next
  case False
  then have "\<not> bit w i" for i
    using assms by fastforce
  then show ?thesis
    by (simp add: weigh_def bit_push_bit_iff xor_sum_zero)
qed

lemma weigh_split:
  "weigh c w = weigh c (take_bit k w) XOR weigh (\<lambda>i. c (k + i)) (drop_bit k w)" for w :: "'a :: len word"
proof -
  have "w = take_bit k w XOR push_bit k (drop_bit k w)"
    by (rule bit_word_eqI) (auto simp: bit_simps)
  then have "weigh c w = weigh c (take_bit k w) XOR weigh c (push_bit k (drop_bit k w))"
    by (metis weigh_xor)
  also have "weigh c (push_bit k (drop_bit k w)) = weigh (\<lambda>i. c (k + i)) (drop_bit k w)"
    by (rule weigh_push_bit) (auto simp: bit_drop_bit_eq dest: bit_imp_le_length)
  finally show ?thesis .
qed

lemma weigh_bit: "weigh c (push_bit i 1 :: 'a :: len word) = (if i < LENGTH('a) then c i else 0)"
proof -
  have "weigh c (push_bit i 1 :: 'a word) = xor_sum (\<lambda>k. if k = i then c k else 0) [0..<LENGTH('a)]"
    unfolding weigh_def by (rule xor_sum_cong) (auto simp: bit_simps)
  then show ?thesis
    by (simp add: xor_sum_one)
qed

lemma weigh_powers: "weigh (\<lambda>i. push_bit i 1) w = (ucast w :: 'a :: len word)"
proof (rule bit_word_eqI)
  fix n assume n: "n < LENGTH('a)"
  have "bit (xor_sum (\<lambda>i. if bit (w :: 'b word) i then push_bit i 1 else 0 :: 'a word) [0..<m]) n \<longleftrightarrow> n < m \<and> bit w n" for m
    by (induction m) (use n in \<open>auto simp: bit_simps less_Suc_eq\<close>)
  from this [of "LENGTH('b)"]
  show "bit (weigh (\<lambda>i. push_bit i 1) w :: 'a word) n = bit (ucast w :: 'a word) n"
    unfolding weigh_def by (auto simp: n bit_ucast_iff dest: bit_imp_le_length)
qed

lemma word_is_its_bits: "weigh (\<lambda>i. push_bit i 1) w = w"
  unfolding weigh_powers by simp

text \<open>A function that keeps XOR is known by its values at the powers of two.\<close>

lemma additive_bits: "additive f \<Longrightarrow> f w = weigh (\<lambda>i. f (push_bit i 1)) w"
  using additive_of_weigh [of f "\<lambda>i. push_bit i 1" w] unfolding word_is_its_bits .

lemma additive_eq:
  assumes "additive f" and "additive g"
    and "\<And>i. i < LENGTH('a) \<Longrightarrow> f (push_bit i 1) = g (push_bit i 1)"
  shows "f (a :: 'a :: len word) = g a"
  unfolding additive_bits [OF assms(1), of a] additive_bits [OF assms(2), of a]
  by (rule weigh_cong) (rule assms(3))

end
