(* ===== verification/Gf256.thy ===== *)
theory Gf256
  imports Cpu_Features Gf2_Sums
begin

unbundle bit_operations_syntax

text \<open>
  \<open>crates/pwrs/src/simd/gf256.rs\<close>: the tables, \<open>mul\<close> and the scalar \<open>mul_add\<close>, and that \<open>mul\<close> is the
  product of polynomials over GF(2) modulo \<open>x^8 + x^4 + x^3 + x^2 + 1\<close>.
\<close>

section \<open>The tables\<close>

text \<open>The step of the loop of \<open>tables\<close>: times \<open>x\<close>, on a \<open>u16\<close> below \<open>0x100\<close>.\<close>

definition next_power :: "u16 \<Rightarrow> u16" where
  "next_power x =
     (let y = push_bit 1 x in if y AND 0x100 \<noteq> 0 then y XOR 0x11D else y)"

fun power_loop :: "nat \<Rightarrow> nat \<Rightarrow> u16 \<Rightarrow> u8 list \<Rightarrow> u8 list \<Rightarrow> u8 list \<times> u8 list" where
  "power_loop 0 i x exps logs = (exps, logs)"
| "power_loop (Suc n) i x exps logs =
     power_loop n (i + 1) (next_power x) (exps[i := ucast x]) (logs[unat x := of_nat i])"

fun repeat_loop :: "nat \<Rightarrow> nat \<Rightarrow> u8 list \<Rightarrow> u8 list" where
  "repeat_loop 0 i exps = exps"
| "repeat_loop (Suc n) i exps = repeat_loop n (i + 1) (exps[i := exps ! (i - 255)])"

definition tables :: "u8 list \<times> u8 list" where
  "tables =
     (let (exps, logs) = power_loop 255 0 1 (replicate 512 0) (replicate 256 0)
      in (repeat_loop 257 255 exps, logs))"

definition gf_mul :: "u8 \<Rightarrow> u8 \<Rightarrow> u8" where
  "gf_mul a b =
     (if a = 0 \<or> b = 0 then 0
      else (let (exps, logs) = tables in exps ! (unat (logs ! unat a) + unat (logs ! unat b))))"

definition mul_add_scalar :: "u8 list \<Rightarrow> u8 list \<Rightarrow> u8 \<Rightarrow> u8 list" where
  "mul_add_scalar out src coef =
     map2 (\<lambda>o' s. o' XOR gf_mul coef s) out src @ drop (length src) out"

section \<open>The field\<close>

text \<open>A byte is a polynomial of degree below 8; times \<open>x\<close>, and the product.\<close>

definition times_x :: "u8 \<Rightarrow> u8" where
  "times_x a = (if bit a 7 then push_bit 1 a XOR 0x1D else push_bit 1 a)"

definition field_mul :: "u8 \<Rightarrow> u8 \<Rightarrow> u8" where
  "field_mul a b = xor_sum (\<lambda>i. if bit b i then (times_x ^^ i) a else 0) [0..<8]"

lemma less_8: "n < 8 \<longleftrightarrow> n = 0 \<or> n = 1 \<or> n = 2 \<or> n = 3 \<or> n = 4 \<or> n = 5 \<or> n = 6 \<or> n = (7::nat)"
  by auto

lemma funpow_numeral: "(f ^^ numeral k) a = f ((f ^^ pred_numeral k) a)"
  by (simp add: numeral_eq_Suc)

section \<open>Times \<open>x\<close>\<close>

lemma additive_eq_u8:
  fixes a :: u8
  assumes "additive f" and "additive g" and "\<And>i. i < 8 \<Longrightarrow> f (push_bit i 1) = g (push_bit i 1)"
  shows "f a = g a"
  by (rule additive_eq [OF assms(1,2)]) (rule assms(3), simp)

lemma additive_times_x: "additive times_x"
  unfolding additive_def times_x_def
  by (auto simp: bit_simps push_bit_xor ac_simps)

lemma times_x_eighth:
  "(times_x ^^ 8) a = a XOR (times_x ^^ 2) a XOR (times_x ^^ 3) a XOR (times_x ^^ 4) a"
proof (rule additive_eq_u8 [of "times_x ^^ 8"])
  show "(times_x ^^ 8) (push_bit i 1) =
      push_bit i 1 XOR (times_x ^^ 2) (push_bit i 1) XOR (times_x ^^ 3) (push_bit i 1) XOR (times_x ^^ 4) (push_bit i 1)"
    if "i < 8" for i
    using that unfolding less_8 by (elim disjE) (simp_all add: times_x_def funpow_numeral)
qed (intro additive_xor additive_id additive_funpow additive_times_x)+

section \<open>The product\<close>

lemma field_mul_weigh: "field_mul a b = weigh (\<lambda>i. (times_x ^^ i) a) b"
  by (simp add: field_mul_def weigh_def)

lemma additive_field_mul: "additive (field_mul a)"
  unfolding field_mul_weigh [abs_def] by (rule additive_weigh)

lemma field_mul_power: "i < 8 \<Longrightarrow> field_mul a (push_bit i 1) = (times_x ^^ i) a"
  unfolding field_mul_weigh weigh_bit by simp

lemma field_mul_times_x: "field_mul a (times_x b) = times_x (field_mul a b)"
proof (rule additive_eq_u8 [of "\<lambda>b. field_mul a (times_x b)" "\<lambda>b. times_x (field_mul a b)"])
  show "additive (\<lambda>b. field_mul a (times_x b))" "additive (\<lambda>b. times_x (field_mul a b))"
    by (rule additive_comp [OF additive_field_mul additive_times_x]
        additive_comp [OF additive_times_x additive_field_mul])+
  fix i :: nat assume i: "i < 8"
  show "field_mul a (times_x (push_bit i 1)) = times_x (field_mul a (push_bit i 1))"
  proof (cases "i = 7")
    case True
    have "times_x (push_bit 7 1) = push_bit 0 1 XOR push_bit 2 1 XOR push_bit 3 1 XOR push_bit 4 1"
      by (simp add: times_x_def)
    moreover have "field_mul a (p XOR q XOR r XOR s)
        = field_mul a p XOR field_mul a q XOR field_mul a r XOR field_mul a s" for p q r s
      using additive_field_mul [of a] by (simp add: additive_def)
    moreover have small: "0 < (8::nat)" "2 < (8::nat)" "3 < (8::nat)" "4 < (8::nat)"
      by simp_all
    ultimately have "field_mul a (times_x (push_bit 7 1)) = (times_x ^^ 0) a XOR (times_x ^^ 2) a
        XOR (times_x ^^ 3) a XOR (times_x ^^ 4) a"
      by (simp only: small [THEN field_mul_power])
    also have "\<dots> = a XOR (times_x ^^ 2) a XOR (times_x ^^ 3) a XOR (times_x ^^ 4) a"
      by simp
    also have "\<dots> = times_x ((times_x ^^ 7) a)"
      unfolding times_x_eighth [symmetric] by (simp add: eval_nat_numeral)
    finally show ?thesis
      using True field_mul_power [of 7 a] by simp
  next
    case False
    have "times_x (push_bit i 1) = push_bit (Suc i) 1"
      using False i unfolding less_8 by (elim disjE) (simp_all add: times_x_def)
    then show ?thesis
      using False i field_mul_power [of i a] field_mul_power [of "Suc i" a] by simp
  qed
qed

definition gf_power :: "nat \<Rightarrow> u8" where
  "gf_power i = (times_x ^^ i) 1"

lemma field_mul_gf_power: "field_mul a (gf_power j) = (times_x ^^ j) a"
proof (induction j)
  case 0
  show ?case
    using field_mul_power [of 0 a] by (simp add: gf_power_def)
next
  case (Suc j)
  then show ?case
    by (simp add: gf_power_def field_mul_times_x)
qed

lemma gf_power_add: "field_mul (gf_power i) (gf_power j) = gf_power (i + j)"
  unfolding field_mul_gf_power by (simp add: gf_power_def funpow_add add.commute [of i])

lemma field_mul_zero: "field_mul 0 b = 0" "field_mul a 0 = 0"
proof -
  show "field_mul a 0 = 0"
    by (rule additive_zero [OF additive_field_mul])
  have "(times_x ^^ i) 0 = 0" for i
    by (rule additive_zero [OF additive_funpow [OF additive_times_x]])
  then have "xor_sum (\<lambda>i. if bit b i then (times_x ^^ i) 0 else 0) is = 0" for "is"
    by (induction "is") auto
  then show "field_mul 0 b = 0"
    by (simp only: field_mul_def)
qed

section \<open>Powers of two\<close>

text \<open>The powers of 2 repeat after 255, and no sooner.\<close>

lemma times_x_inj: "inj times_x"
proof (rule injI)
  fix a b assume "times_x a = times_x b"
  then have zero: "times_x (a XOR b) = 0"
    using additive_times_x by (simp add: additive_def)
  have "c = 0" if "times_x c = 0" for c
  proof -
    have "bit (times_x c) 0 \<longleftrightarrow> bit c 7"
      unfolding times_x_def by (simp only: bit_push_bit_iff bit_xor_iff split: if_split) simp
    then have top: "\<not> bit c 7"
      using that by simp
    then have low: "push_bit 1 c = 0"
      using that by (simp add: times_x_def)
    show ?thesis
    proof (rule bit_word_eqI)
      fix n assume n: "n < LENGTH(8)"
      show "bit c n \<longleftrightarrow> bit 0 n"
      proof (cases "n = 7")
        case False
        then have "bit (push_bit 1 c) (Suc n) \<longleftrightarrow> bit c n"
          using n by (simp only: bit_push_bit_iff) simp
        then show ?thesis
          using low by simp
      qed (use top in simp)
    qed
  qed
  then have "a XOR b = 0"
    using zero .
  moreover have "a = (a XOR b) XOR b"
    by (simp add: xor.assoc)
  ultimately show "a = b"
    by simp
qed

text \<open>The powers the proof needs, each from two smaller ones.\<close>

lemma upto_8: "[0..<8] = [0, 1, 2, 3, 4, 5, 6, 7]"
  by code_simp

lemma gf_small: "gf_power 3 = 8" "gf_power 5 = 32" "gf_power 7 = 128" "gf_power 8 = 0x1D"
  by (simp_all add: gf_power_def times_x_def funpow_numeral)

lemma gf_power_15: "gf_power 15 = 38"
  using gf_power_add [of 8 7]
  by (simp add: gf_small field_mul_def upto_8 times_x_def funpow_numeral)

lemma gf_power_16: "gf_power 16 = 76"
  using gf_power_add [of 8 8]
  by (simp add: gf_small field_mul_def upto_8 times_x_def funpow_numeral)

lemma gf_power_32: "gf_power 32 = 157"
  using gf_power_add [of 16 16]
  by (simp add: gf_small gf_power_16 field_mul_def upto_8 times_x_def funpow_numeral)

lemma gf_power_48: "gf_power 48 = 70"
  using gf_power_add [of 32 16]
  by (simp add: gf_small gf_power_16 gf_power_32 field_mul_def upto_8 times_x_def funpow_numeral)

lemma gf_power_51: "gf_power 51 = 10"
  using gf_power_add [of 48 3]
  by (simp add: gf_small gf_power_48 field_mul_def upto_8 times_x_def funpow_numeral)

lemma gf_power_64: "gf_power 64 = 95"
  using gf_power_add [of 32 32]
  by (simp add: gf_small gf_power_32 field_mul_def upto_8 times_x_def funpow_numeral)

lemma gf_power_80: "gf_power 80 = 253"
  using gf_power_add [of 64 16]
  by (simp add: gf_small gf_power_16 gf_power_64 field_mul_def upto_8 times_x_def funpow_numeral)

lemma gf_power_85: "gf_power 85 = 214"
  using gf_power_add [of 80 5]
  by (simp add: gf_small gf_power_80 field_mul_def upto_8 times_x_def funpow_numeral)

lemma gf_power_128: "gf_power 128 = 133"
  using gf_power_add [of 64 64]
  by (simp add: gf_small gf_power_64 field_mul_def upto_8 times_x_def funpow_numeral)

lemma gf_power_208: "gf_power 208 = 81"
  using gf_power_add [of 128 80]
  by (simp add: gf_small gf_power_128 gf_power_80 field_mul_def upto_8 times_x_def funpow_numeral)

lemma gf_power_240: "gf_power 240 = 44"
  using gf_power_add [of 208 32]
  by (simp add: gf_small gf_power_208 gf_power_32 field_mul_def upto_8 times_x_def funpow_numeral)

lemma gf_power_255: "gf_power 255 = 1"
  using gf_power_add [of 240 15]
  by (simp add: gf_small gf_power_15 gf_power_240 field_mul_def upto_8 times_x_def funpow_numeral)

lemma gf_power_values: "gf_power 255 = 1" "gf_power 85 \<noteq> 1" "gf_power 51 \<noteq> 1" "gf_power 15 \<noteq> 1"
  by (simp_all add: gf_power_255 gf_power_85 gf_power_51 gf_power_15)

definition period :: "nat \<Rightarrow> bool" where
  "period d \<longleftrightarrow> gf_power d = 1"

lemma gf_power_plus: "gf_power (i + j) = (times_x ^^ i) (gf_power j)"
  by (simp add: gf_power_def funpow_add)

lemma period_diff: "period a \<Longrightarrow> period b \<Longrightarrow> a \<le> b \<Longrightarrow> period (b - a)"
  using gf_power_plus [of "b - a" a] by (simp add: period_def gf_power_def)

lemma period_times: "period d \<Longrightarrow> period (k * d)"
proof (induction k)
  case (Suc k)
  then show ?case
    using gf_power_plus [of d "k * d"] by (simp add: period_def gf_power_def)
qed (simp add: period_def gf_power_def)

lemma period_gcd: "period a \<Longrightarrow> period b \<Longrightarrow> period (gcd a b)"
proof (induction a b rule: gcd_nat_induct)
  case (step m n)
  have "period (m mod n)"
    using period_diff [OF period_times [OF step(4), of "m div n"] step(3)]
    by (simp add: minus_div_mult_eq_mod)
  then have "period (gcd n (m mod n))"
    by (rule step(2) [OF step(4)])
  then show ?case
    by (simp only: gcd_red_nat [of m n])
qed simp

text \<open>The proper divisors of 255, which is 3 times 5 times 17.\<close>

lemma divisors_255:
  assumes "d dvd 255" and "d < (255::nat)"
  shows "d dvd 85 \<or> d dvd 51 \<or> d dvd 15"
proof -
  from assms(1) obtain k where k: "255 = d * k"
    by (auto simp: dvd_def)
  show ?thesis
  proof (cases "d < 16")
    case True
    then have "d \<in> set [0..<16]" by simp
    moreover have "\<forall>d \<in> set [0..<16]. d dvd 255 \<longrightarrow> d dvd 85 \<or> d dvd 51 \<or> d dvd (15::nat)"
      by code_simp
    ultimately show ?thesis using assms by blast
  next
    case False
    have "k < 16" 
    proof (rule ccontr)
      assume "\<not> k < 16"
      with False have "16 * 16 \<le> d * k" by (intro mult_le_mono) auto
      with k show False by simp
    qed
    then have "k \<in> set [0..<16]" by simp
    moreover have "\<forall>k \<in> set [0..<16]. k dvd 255 \<longrightarrow> k = 1 \<or> 3 dvd k \<or> 5 dvd (k::nat)"
      by code_simp
    moreover have "k dvd 255" using k by (metis dvd_triv_right)
    ultimately have "k = 1 \<or> 3 dvd k \<or> 5 dvd k" by blast
    then have "k = 1 \<or> d dvd 85 \<or> d dvd 51"
      using k by (auto elim!: dvdE simp: dvd_def ac_simps)
    then show ?thesis
      using k assms by auto
  qed
qed

lemma no_period:
  assumes "0 < d" and "d < 255"
  shows "\<not> period d"
proof
  assume "period d"
  then have g: "period (gcd d 255)"
    using period_gcd gf_power_values(1) by (simp add: period_def)
  have dvd: "gcd d 255 dvd 255" and small: "gcd d 255 < 255"
    using assms le_less_trans [OF gcd_le1_nat [of d 255]] by simp_all
  have "gcd d 255 dvd 85 \<or> gcd d 255 dvd 51 \<or> gcd d 255 dvd (15::nat)"
    by (rule divisors_255 [OF dvd small])
  then obtain n where n: "n \<in> {85, 51, 15}" "gcd d 255 dvd n"
    by auto
  then obtain k where "n = k * gcd d 255"
    by (metis dvd_def mult.commute)
  then have "period n"
    using period_times [OF g] by simp
  then show False
    using n(1) gf_power_values by (auto simp: period_def)
qed

lemma gf_power_distinct:
  assumes "i < 255" and "j < 255" and "gf_power i = gf_power j"
  shows "i = j"
proof -
  have less: "i = j" if "i \<le> j" "j < 255" "gf_power i = gf_power j" for i j
  proof (rule ccontr)
    assume "i \<noteq> j"
    have "(times_x ^^ i) (gf_power (j - i)) = (times_x ^^ i) 1"
      using that gf_power_plus [of i "j - i"] by (simp add: gf_power_def)
    then have "period (j - i)"
      using inj_fn [OF times_x_inj, of i] by (simp add: period_def inj_eq)
    then show False
      using no_period [of "j - i"] that \<open>i \<noteq> j\<close> by simp
  qed
  show ?thesis
    using less [of i j] less [of j i] assms by (cases "i \<le> j") simp_all
qed

lemma gf_power_nonzero: "gf_power i \<noteq> 0"
proof (induction i)
  case (Suc i)
  have "times_x 0 = 0"
    by (rule additive_zero [OF additive_times_x])
  then show ?case
    using Suc inj_eq [OF times_x_inj, of "gf_power i" 0] by (simp add: gf_power_def)
qed (simp add: gf_power_def)

lemma gf_power_onto:
  assumes "a \<noteq> 0"
  obtains i where "i < 255" and "a = gf_power i"
proof -
  have "inj_on gf_power {0..<255}"
    using gf_power_distinct by (auto simp: inj_on_def)
  then have "card (gf_power ` {0..<255}) = 255"
    by (simp add: card_image)
  moreover have "card (UNIV - {0 :: u8}) = 255"
    by (simp add: card_Diff_subset card_word)
  moreover have "gf_power ` {0..<255} \<subseteq> UNIV - {0}"
    using gf_power_nonzero by auto
  ultimately have "gf_power ` {0..<255} = UNIV - {0}"
    by (intro card_subset_eq) simp_all
  then have "a \<in> gf_power ` {0..<255}"
    using assms by simp
  then show ?thesis
    using that by auto
qed

lemma gf_power_repeats: "gf_power (k + 255) = gf_power k"
  using gf_power_plus [of k 255] gf_power_values(1) by (simp add: gf_power_def)

section \<open>What the tables hold\<close>

lemma next_power_times_x: "next_power (ucast a) = ucast (times_x a)"
proof -
  have top: "push_bit 1 (ucast a :: u16) AND 0x100 \<noteq> 0 \<longleftrightarrow> bit a 7"
  proof -
    have "(0x100 :: u16) = push_bit 8 1"
      by simp
    then have "push_bit 1 (ucast a :: u16) AND 0x100 \<noteq> 0 \<longleftrightarrow> bit (push_bit 1 (ucast a :: u16)) 8"
      by (simp only: bit_iff_and_push_bit_not_eq_0)
    then show ?thesis
      by (simp only: bit_push_bit_iff bit_ucast_iff) simp
  qed
  have poly: "(0x11D :: u16) = push_bit 8 1 XOR ucast (0x1D :: u8)"
    by simp
  show ?thesis
  proof (rule bit_word_eqI)
    fix n assume n: "n < LENGTH(16)"
    show "bit (next_power (ucast a)) n \<longleftrightarrow> bit (ucast (times_x a) :: u16) n"
      unfolding next_power_def times_x_def Let_def top poly
      using n bit_imp_le_length [of a n] bit_imp_le_length [of a "n - 1"] bit_imp_le_length [of "0x1D :: u8" n]
      by (cases "n = 8") (auto simp only: bit_xor_iff bit_push_bit_iff bit_ucast_iff bit_1_iff
          split: if_splits, auto)
  qed
qed

definition tables_hold :: "nat \<Rightarrow> u8 list \<Rightarrow> u8 list \<Rightarrow> bool" where
  "tables_hold i exps logs \<longleftrightarrow> length exps = 512 \<and> length logs = 256
     \<and> (\<forall>k<i. exps ! k = gf_power k) \<and> (\<forall>k<i. logs ! unat (gf_power k) = of_nat k)"

lemma unat_widened: "unat (ucast (a :: u8) :: u16) = unat a"
  using unat_byte [of a] by (simp add: unsigned_ucast_eq take_bit_nat_eq_self)

lemma widened_narrowed: "ucast (ucast (a :: u8) :: u16) = a"
  by (rule bit_word_eqI) (simp add: bit_ucast_iff)

lemma tables_hold_step:
  assumes "tables_hold i exps logs" and "i < 255"
  shows "tables_hold (i + 1) (exps[i := gf_power i]) (logs[unat (gf_power i) := of_nat i])"
proof -
  have "unat (gf_power k) \<noteq> unat (gf_power i)" "unat (gf_power i) \<noteq> unat (gf_power k)" if "k < i" for k
    using gf_power_distinct [of k i] that assms(2) by (auto dest: unsigned_word_eqI)
  then show ?thesis
    using assms unat_byte [of "gf_power i"] by (auto simp: tables_hold_def nth_list_update less_Suc_eq)
qed

lemma power_loop_holds:
  "tables_hold i exps logs \<Longrightarrow> i + n \<le> 255 \<Longrightarrow>
   (case power_loop n i (ucast (gf_power i)) exps logs of (exps', logs') \<Rightarrow> tables_hold (i + n) exps' logs')"
proof (induction n arbitrary: i exps logs)
  case (Suc n)
  have "next_power (ucast (gf_power i)) = ucast (gf_power (i + 1))"
    by (simp add: next_power_times_x gf_power_def)
  then show ?case
    using Suc.IH [OF tables_hold_step [OF Suc.prems(1)]] Suc.prems(2) by (simp add: unat_widened widened_narrowed)
qed simp

lemma repeat_loop_holds:
  "length exps = 512 \<Longrightarrow> i + n = 512 \<Longrightarrow> 255 \<le> i \<Longrightarrow> \<forall>k<i. exps ! k = gf_power k \<Longrightarrow>
   \<forall>k<512. repeat_loop n i exps ! k = gf_power k"
proof (induction n arbitrary: i exps)
  case (Suc n)
  have "exps ! (i - 255) = gf_power i"
    using Suc.prems gf_power_repeats [of "i - 255"] by simp
  then show ?case
    using Suc.IH [of "exps[i := exps ! (i - 255)]" "i + 1"] Suc.prems
    by (auto simp: nth_list_update less_Suc_eq)
qed simp

lemma tables_correct:
  obtains exps logs where "tables = (exps, logs)" and "\<And>k. k < 512 \<Longrightarrow> exps ! k = gf_power k"
    and "\<And>k. k < 255 \<Longrightarrow> logs ! unat (gf_power k) = of_nat k"
proof -
  obtain exps logs where loop: "power_loop 255 0 1 (replicate 512 0) (replicate 256 0) = (exps, logs)"
    by (cases "power_loop 255 0 1 (replicate 512 0) (replicate 256 0)")
  have "tables_hold 255 exps logs"
    using power_loop_holds [of 0 "replicate 512 0" "replicate 256 0" 255] loop
    by (simp add: tables_hold_def gf_power_def)
  then show ?thesis
    using that [of "repeat_loop 257 255 exps" logs] loop repeat_loop_holds [of exps 255 257]
    by (simp add: tables_hold_def tables_def)
qed

lemma gf_mul_field_mul: "gf_mul a b = field_mul a b"
proof (cases "a = 0 \<or> b = 0")
  case True
  then show ?thesis
    by (auto simp: gf_mul_def field_mul_zero)
next
  case False
  obtain exps logs where t: "tables = (exps, logs)" "\<And>k. k < 512 \<Longrightarrow> exps ! k = gf_power k"
      "\<And>k. k < 255 \<Longrightarrow> logs ! unat (gf_power k) = of_nat k"
    using tables_correct by blast
  obtain i j where ij: "i < 255" "a = gf_power i" "j < 255" "b = gf_power j"
    using False gf_power_onto [of a] gf_power_onto [of b] by metis
  have "unat (of_nat k :: u8) = k" if "k < 255" for k
    using that by (simp add: unat_of_nat take_bit_nat_eq_self)
  then have "exps ! (unat (logs ! unat a) + unat (logs ! unat b)) = gf_power (i + j)"
    using ij t(2,3) by simp
  moreover have "gf_mul a b = exps ! (unat (logs ! unat a) + unat (logs ! unat b))"
    using False by (simp add: gf_mul_def t(1))
  ultimately show ?thesis
    using ij by (simp add: gf_power_add)
qed

text \<open>Every product is zero or a power, so the laws of the field are those of the exponents.\<close>

lemma byte_cases:
  fixes a :: u8
  obtains "a = 0" | i where "a = gf_power i"
proof -
  have "a = 0 \<or> (\<exists>i. a = gf_power i)"
    using gf_power_onto [of a] by auto
  then show thesis
    using that by auto
qed

lemma gf_mul_power: "gf_mul (gf_power i) (gf_power j) = gf_power (i + j)"
  by (simp add: gf_mul_field_mul gf_power_add)

lemma gf_mul_zero [simp]: "gf_mul 0 b = 0" "gf_mul a 0 = 0"
  by (simp_all add: gf_mul_def)

lemma gf_mul_commute: "gf_mul a b = gf_mul b a"
  by (cases a rule: byte_cases; cases b rule: byte_cases) (simp_all add: gf_mul_power add.commute)

lemma gf_mul_assoc: "gf_mul a (gf_mul b c) = gf_mul (gf_mul a b) c"
  by (cases a rule: byte_cases; cases b rule: byte_cases; cases c rule: byte_cases)
    (simp_all add: gf_mul_power add.assoc)

lemma gf_mul_xor: "gf_mul a (b XOR c) = gf_mul a b XOR gf_mul a c"
  using additive_field_mul [of a] by (simp add: gf_mul_field_mul additive_def)

lemma gf_mul_one: "gf_mul 1 a = a"
  using gf_mul_power [of 0] by (cases a rule: byte_cases) (simp_all add: gf_power_def)

lemma gf_mul_inverse:
  assumes "a \<noteq> 0"
  shows "\<exists>b. gf_mul a b = 1"
proof -
  from assms obtain i where i: "i < 255" "a = gf_power i"
    using gf_power_onto by auto
  then have "gf_mul a (gf_power (255 - i)) = gf_power 255"
    by (simp add: gf_mul_power)
  then show ?thesis
    using gf_power_values(1) by auto
qed

text \<open>
  C14: the table lookups of \<open>mul\<close> give the product of the two polynomials modulo
  \<open>x^8 + x^4 + x^3 + x^2 + 1\<close> (for each bit \<open>i\<close> of \<open>b\<close>, \<open>a\<close> times \<open>x^i\<close>, added without carry), and
  with XOR as the sum they are a field: commutative, associative, distributive, with 1 neutral and
  an inverse of every byte but zero.
\<close>

theorem mul_is_field_product:
  "gf_mul a b = field_mul a b
   \<and> gf_mul a b = gf_mul b a \<and> gf_mul a (gf_mul b c) = gf_mul (gf_mul a b) c
   \<and> gf_mul a (b XOR c) = gf_mul a b XOR gf_mul a c \<and> gf_mul 1 a = a
   \<and> (a = 0 \<or> (\<exists>d. gf_mul a d = 1))"
  using gf_mul_field_mul gf_mul_commute gf_mul_assoc gf_mul_xor gf_mul_one gf_mul_inverse [of a] by blast

end
