(* ===== verification/Simd.thy ===== *)
theory Simd
  imports Prelude
begin

unbundle bit_operations_syntax

text \<open>
  The x86-64 and AArch64 vector instructions the \<open>simd\<close> modules use, on vectors as lists of their
  bytes in memory order. They are \<open>core::arch\<close> intrinsics, part of the language's library; each
  definition is the operation of the vendor's manual, lane by lane.
\<close>

section \<open>Bytes\<close>

definition vec_and :: "u8 list \<Rightarrow> u8 list \<Rightarrow> u8 list" where
  "vec_and a b = map2 (AND) a b"

definition vec_xor :: "u8 list \<Rightarrow> u8 list \<Rightarrow> u8 list" where
  "vec_xor a b = map2 (XOR) a b"

definition set1_epi8 :: "nat \<Rightarrow> u8 \<Rightarrow> u8 list" where
  "set1_epi8 width b = replicate width b"

text \<open>A 16-byte lane repeated through the vector.\<close>

definition broadcast :: "nat \<Rightarrow> u8 list \<Rightarrow> u8 list" where
  "broadcast lanes v = concat (replicate lanes v)"

text \<open>
  PSHUFB and its wider forms: byte \<open>j\<close> is the byte of its own 16-byte lane of the table that the low
  nibble of the index names, or 0 where the index has its top bit set.
\<close>

definition shuffle_epi8 :: "u8 list \<Rightarrow> u8 list \<Rightarrow> u8 list" where
  "shuffle_epi8 t v =
     map (\<lambda>j. if bit (v ! j) 7 then 0 else t ! (16 * (j div 16) + unat ((v ! j) AND 0x0F))) [0..<length v]"

text \<open>PSRLW by 4: each pair of bytes is a little-endian \<open>u16\<close>.\<close>

fun srli_epi16_4 :: "u8 list \<Rightarrow> u8 list" where
  "srli_epi16_4 (lo # hi # v) =
     (let w = drop_bit 4 (ucast lo OR push_bit 8 (ucast hi) :: u16)
      in ucast w # ucast (drop_bit 8 w) # srli_epi16_4 v)"
| "srli_epi16_4 v = v"

text \<open>USHR by 4 on bytes, and TBL on one table register.\<close>

definition vshrq_n_u8_4 :: "u8 list \<Rightarrow> u8 list" where
  "vshrq_n_u8_4 v = map (drop_bit 4) v"

definition vqtbl1q_u8 :: "u8 list \<Rightarrow> u8 list \<Rightarrow> u8 list" where
  "vqtbl1q_u8 t v = map (\<lambda>k. if unat k < 16 then t ! unat k else 0) v"

section \<open>GFNI\<close>

definition parity :: "u8 \<Rightarrow> bool" where
  "parity b = foldr (\<lambda>i p. bit b i \<noteq> p) [0..<8] False"

definition qword_byte :: "u64 \<Rightarrow> nat \<Rightarrow> u8" where
  "qword_byte q i = ucast (drop_bit (8 * i) q)"

text \<open>Bit \<open>i\<close> of the result is the parity of the matrix's byte \<open>7 - i\<close> and the byte.\<close>

definition affine_byte :: "u64 \<Rightarrow> u8 \<Rightarrow> u8" where
  "affine_byte matrix x =
     foldr (\<lambda>i acc. if parity (qword_byte matrix (7 - i) AND x) then push_bit i 1 OR acc else acc) [0..<8] 0"

definition gf2p8affine_0 :: "u8 list \<Rightarrow> u64 list \<Rightarrow> u8 list" where
  "gf2p8affine_0 v matrix = map (\<lambda>j. affine_byte (matrix ! (j div 8)) (v ! j)) [0..<length v]"

section \<open>Memory\<close>

definition load :: "nat \<Rightarrow> nat \<Rightarrow> 'a list \<Rightarrow> 'a list" where
  "load width i xs = take width (drop i xs)"

definition store :: "nat \<Rightarrow> 'a list \<Rightarrow> 'a list \<Rightarrow> 'a list" where
  "store i v xs = take i xs @ v @ drop (i + length v) xs"

section \<open>Laws\<close>

lemma length_vec [simp]:
  "length (vec_and a b) = min (length a) (length b)" "length (vec_xor a b) = min (length a) (length b)"
  "length (set1_epi8 n c) = n" "length (shuffle_epi8 t v) = length v" "length (vshrq_n_u8_4 v) = length v"
  "length (vqtbl1q_u8 t v) = length v" "length (gf2p8affine_0 v q) = length v"
  by (simp_all add: vec_and_def vec_xor_def set1_epi8_def shuffle_epi8_def vshrq_n_u8_4_def
      vqtbl1q_u8_def gf2p8affine_0_def)

lemma length_srli [simp]: "length (srli_epi16_4 v) = length v"
  by (induction v rule: srli_epi16_4.induct) (simp_all add: Let_def)

lemma length_broadcast [simp]: "length (broadcast n v) = n * length v"
  by (simp add: broadcast_def length_concat sum_list_replicate)

lemma nth_broadcast: "j < n \<Longrightarrow> k < length v \<Longrightarrow> broadcast n v ! (length v * j + k) = v ! k"
proof (induction n arbitrary: j)
  case (Suc n)
  then show ?case
    by (cases j) (auto simp: broadcast_def nth_append algebra_simps)
qed simp

lemma nibble_less: "unat ((b :: u8) AND 0x0F) < 16"
proof -
  have "b AND 0x0F = take_bit 4 b"
    by (simp add: take_bit_eq_mask mask_eq_exp_minus_1)
  then show ?thesis
    using take_bit_nat_less_exp [of 4 "unat b"] by (simp add: unsigned_take_bit_eq)
qed

lemma bit_0x0F: "bit (0x0F :: u8) n \<longleftrightarrow> n < 4"
proof -
  have "(0x0F :: u8) = Bit_Operations.mask 4"
    by (simp add: mask_eq_exp_minus_1)
  then show ?thesis
    by (simp only: bit_mask_iff) auto
qed

text \<open>The mask keeps the four bits of each byte's own shift, as the byte shift of NEON does.\<close>

lemma srli_masked:
  "even (length v) \<Longrightarrow> map (\<lambda>b. b AND 0x0F) (srli_epi16_4 v) = map (drop_bit 4) v"
proof (induction v rule: srli_epi16_4.induct)
  case (1 lo hi v)
  have "ucast (drop_bit 4 (ucast lo OR push_bit 8 (ucast hi) :: u16)) AND 0x0F = drop_bit 4 lo"
    by (rule bit_word_eqI)
      (auto simp only: bit_0x0F bit_and_iff bit_or_iff bit_ucast_iff bit_push_bit_iff bit_drop_bit_eq comp_apply,
        auto dest: bit_imp_le_length)
  moreover have "ucast (drop_bit 8 (drop_bit 4 (ucast lo OR push_bit 8 (ucast hi) :: u16))) AND 0x0F = drop_bit 4 hi"
    by (rule bit_word_eqI)
      (auto simp only: bit_0x0F bit_and_iff bit_or_iff bit_ucast_iff bit_push_bit_iff bit_drop_bit_eq comp_apply,
        auto dest: bit_imp_le_length)
  ultimately show ?case
    using 1 by (simp only: srli_epi16_4.simps Let_def list.map) simp
qed simp_all

lemma bit_affine_byte:
  "bit (affine_byte m x) i \<longleftrightarrow> i < 8 \<and> parity (qword_byte m (7 - i) AND x)"
proof -
  have "bit (foldr (\<lambda>i acc. if P i then push_bit i 1 OR acc else acc) is 0 :: u8) i
      \<longleftrightarrow> i \<in> set is \<and> i < 8 \<and> P i" for P "is"
    by (induction "is") (auto simp: bit_or_iff bit_exp_iff)
  then show ?thesis
    by (simp add: affine_byte_def del: upt_rec_numeral)
qed

lemma load_rest: "load width i xs @ drop (i + width) xs = drop i xs"
  using append_take_drop_id [of width "drop i xs"] by (simp add: load_def add.commute)

section \<open>Table lookups by nibble\<close>

lemma high_nibble_less: "unat (drop_bit 4 (b :: u8)) < 16"
proof -
  have "drop_bit 4 (unat b) < 16"
    using unat_byte [of b] by (simp add: drop_bit_eq_div)
  then show ?thesis
    using unat_byte [of b] by (simp add: unsigned_drop_bit_eq take_bit_nat_eq_self)
qed

lemma shuffle_nibbles:
  assumes "length t = 16" and "length v = 16 * n" and "\<And>b. b \<in> set v \<Longrightarrow> \<not> bit b 7"
  shows "shuffle_epi8 (broadcast n t) v = map (\<lambda>b. t ! unat (b AND 0x0F)) v"
proof (rule nth_equalityI)
  fix j assume "j < length (shuffle_epi8 (broadcast n t) v)"
  then have j: "j < 16 * n"
    using assms(2) by simp
  then have "j div 16 < n"
    by (simp add: div_less_iff_less_mult mult.commute)
  then show "shuffle_epi8 (broadcast n t) v ! j = map (\<lambda>b. t ! unat (b AND 0x0F)) v ! j"
    using nth_broadcast [of "j div 16" n "unat (v ! j AND 0x0F)" t] nibble_less [of "v ! j"] assms j
    by (simp add: shuffle_epi8_def)
qed simp

lemma nibble_top: "\<not> bit (b AND 0x0F :: u8) 7" "(b AND 0x0F) AND 0x0F = (b AND 0x0F :: u8)"
  by (simp_all add: bit_and_iff bit_0x0F and.assoc)

lemma vec_and_low: "vec_and v (set1_epi8 (length v) 0x0F) = map (\<lambda>b. b AND 0x0F) v"
  by (rule nth_equalityI) (simp_all add: vec_and_def set1_epi8_def)

lemma high_nibble: "\<not> bit (drop_bit 4 b :: u8) 7" "drop_bit 4 b AND 0x0F = (drop_bit 4 b :: u8)"
proof -
  show "\<not> bit (drop_bit 4 b :: u8) 7"
    by (auto simp: bit_drop_bit_eq dest: bit_imp_le_length)
  show "drop_bit 4 b AND 0x0F = (drop_bit 4 b :: u8)"
    by (rule bit_word_eqI)
      (auto simp only: bit_drop_bit_eq bit_and_iff bit_0x0F comp_apply, auto dest: bit_imp_le_length)
qed

text \<open>The two lookups of a byte, by its low nibble and by its high one.\<close>

lemma shuffle_low:
  assumes "length t = 16" and "length v = 16 * n"
  shows "shuffle_epi8 (broadcast n t) (vec_and v (set1_epi8 (16 * n) 0x0F)) = map (\<lambda>b. t ! unat (b AND 0x0F)) v"
proof -
  have "vec_and v (set1_epi8 (16 * n) 0x0F) = map (\<lambda>b. b AND 0x0F) v"
    using vec_and_low [of v] assms(2) by simp
  then show ?thesis
    by (simp only:, subst shuffle_nibbles) (use assms in \<open>auto simp: nibble_top\<close>)
qed

lemma shuffle_high:
  assumes "length t = 16" and "length v = 16 * n"
  shows "shuffle_epi8 (broadcast n t) (vec_and (srli_epi16_4 v) (set1_epi8 (16 * n) 0x0F))
    = map (\<lambda>b. t ! unat (drop_bit 4 b)) v"
proof -
  have "vec_and (srli_epi16_4 v) (set1_epi8 (16 * n) 0x0F) = map (drop_bit 4) v"
    using vec_and_low [of "srli_epi16_4 v"] srli_masked [of v] assms(2) by simp
  then show ?thesis
    by (simp only:, subst shuffle_nibbles) (use assms in \<open>auto simp: high_nibble\<close>)
qed

end
