(* ===== verification/Gf256_Tiers.thy ===== *)
theory Gf256_Tiers
  imports Gf256 Simd Cpu_Laws
begin

unbundle bit_operations_syntax

text \<open>
  \<open>mul_add\<close> of \<open>crates/pwrs/src/simd/gf256.rs\<close>: the bodies for SSSE3, AVX2, AVX-512BW, GFNI at two
  widths and NEON, and the choice among them. A slice the code writes through is a list the body
  returns.
\<close>

section \<open>Tables of a constant\<close>

definition nibble_tables :: "u8 \<Rightarrow> u8 list \<times> u8 list" where
  "nibble_tables coef =
     (map (\<lambda>i. gf_mul coef (of_nat i)) [0..<16], map (\<lambda>i. gf_mul coef (push_bit 4 (of_nat i))) [0..<16])"

definition matrix_row :: "u8 \<Rightarrow> nat \<Rightarrow> u8" where
  "matrix_row coef i =
     foldl (\<lambda>row j. if drop_bit i (gf_mul coef (push_bit j 1)) AND 1 = 1 then row OR push_bit j 1 else row)
       0 [0..<8]"

definition affine_matrix :: "u8 \<Rightarrow> u64" where
  "affine_matrix coef =
     foldl (\<lambda>m i. m OR push_bit (8 * (7 - i)) (ucast (matrix_row coef i))) 0 [0..<8]"

section \<open>The bodies\<close>

text \<open>The loop every body has: a block loaded from each slice, multiplied, added and stored back.\<close>

function block_loop ::
  "nat \<Rightarrow> (u8 list \<Rightarrow> u8 list) \<Rightarrow> u8 list \<Rightarrow> nat \<Rightarrow> u8 list \<Rightarrow> nat \<times> u8 list"
where
  "block_loop width product src i out =
     (if 0 < width \<and> i + width \<le> length out
      then block_loop width product src (i + width)
             (store i (vec_xor (load width i out) (product (load width i src))) out)
      else (i, out))"
  by pat_completeness auto

termination
  by (relation "measure (\<lambda>(width, product, src, i, out). length out - i)") (auto simp: store_def load_def)

text \<open>What is left of a block goes to the scalar form.\<close>

definition finish :: "u8 list \<Rightarrow> u8 \<Rightarrow> nat \<times> u8 list \<Rightarrow> u8 list" where
  "finish src coef io =
     (case io of (i, out) \<Rightarrow> take i out @ mul_add_scalar (drop i out) (drop i src) coef)"

definition shuffle_product :: "u8 list \<Rightarrow> u8 list \<Rightarrow> u8 list \<Rightarrow> u8 list \<Rightarrow> u8 list" where
  "shuffle_product lo hi low s =
     vec_xor (shuffle_epi8 lo (vec_and s low)) (shuffle_epi8 hi (vec_and (srli_epi16_4 s) low))"

definition mul_add_ssse3 :: "u8 list \<Rightarrow> u8 list \<Rightarrow> u8 \<Rightarrow> u8 list" where
  "mul_add_ssse3 out src coef =
     (let (lo, hi) = nibble_tables coef
      in finish src coef (block_loop 16 (shuffle_product lo hi (set1_epi8 16 0x0F)) src 0 out))"

definition mul_add_avx2 :: "u8 list \<Rightarrow> u8 list \<Rightarrow> u8 \<Rightarrow> u8 list" where
  "mul_add_avx2 out src coef =
     (let (lo, hi) = nibble_tables coef
      in finish src coef
           (block_loop 32 (shuffle_product (broadcast 2 lo) (broadcast 2 hi) (set1_epi8 32 0x0F)) src 0 out))"

definition mul_add_avx512 :: "u8 list \<Rightarrow> u8 list \<Rightarrow> u8 \<Rightarrow> u8 list" where
  "mul_add_avx512 out src coef =
     (let (lo, hi) = nibble_tables coef
      in finish src coef
           (block_loop 64 (shuffle_product (broadcast 4 lo) (broadcast 4 hi) (set1_epi8 64 0x0F)) src 0 out))"

definition mul_add_gfni256 :: "u8 list \<Rightarrow> u8 list \<Rightarrow> u8 \<Rightarrow> u8 list" where
  "mul_add_gfni256 out src coef =
     (let matrix = replicate 4 (affine_matrix coef)
      in finish src coef (block_loop 32 (\<lambda>s. gf2p8affine_0 s matrix) src 0 out))"

definition mul_add_gfni512 :: "u8 list \<Rightarrow> u8 list \<Rightarrow> u8 \<Rightarrow> u8 list" where
  "mul_add_gfni512 out src coef =
     (let matrix = replicate 8 (affine_matrix coef)
      in finish src coef (block_loop 64 (\<lambda>s. gf2p8affine_0 s matrix) src 0 out))"

definition mul_add_neon :: "u8 list \<Rightarrow> u8 list \<Rightarrow> u8 \<Rightarrow> u8 list" where
  "mul_add_neon out src coef =
     (let (lo, hi) = nibble_tables coef; low = replicate 16 0x0F
      in finish src coef
           (block_loop 16
              (\<lambda>s. vec_xor (vqtbl1q_u8 lo (vec_and s low)) (vqtbl1q_u8 hi (vshrq_n_u8_4 s))) src 0 out))"

section \<open>The choice\<close>

datatype body = Gfni512 | Gfni256 | Avx512_body | Avx2_body | Ssse3_body | Neon_body | Scalar

text \<open>The match of each \<open>tiered\<close> module, by the architecture it is compiled for.\<close>

definition body_of :: "target \<Rightarrow> machine \<Rightarrow> string option \<Rightarrow> body" where
  "body_of t m env =
     (case t_arch t of
        Arch_x86_64 \<Rightarrow>
          (case cpu_level t m env of
             V4 \<Rightarrow> if has t m env Gfni then Gfni512 else Avx512_body
           | V3 \<Rightarrow> if has t m env Gfni then Gfni256 else Avx2_body
           | V2 \<Rightarrow> Ssse3_body
           | _ \<Rightarrow> Scalar)
      | Arch_aarch64 \<Rightarrow> Neon_body
      | Arch_other \<Rightarrow> Scalar)"

primrec run_body :: "body \<Rightarrow> u8 list \<Rightarrow> u8 list \<Rightarrow> u8 \<Rightarrow> u8 list" where
  "run_body Gfni512 = mul_add_gfni512"
| "run_body Gfni256 = mul_add_gfni256"
| "run_body Avx512_body = mul_add_avx512"
| "run_body Avx2_body = mul_add_avx2"
| "run_body Ssse3_body = mul_add_ssse3"
| "run_body Neon_body = mul_add_neon"
| "run_body Scalar = mul_add_scalar"

text \<open>The \<open>target_feature\<close> attributes: what a caller must have found.\<close>

primrec enabled_for :: "body \<Rightarrow> isa list" where
  "enabled_for Gfni512 = [Gfni, Avx512f, Avx512bw]"
| "enabled_for Gfni256 = [Gfni, Avx2]"
| "enabled_for Avx512_body = [Avx512f, Avx512bw]"
| "enabled_for Avx2_body = [Avx2]"
| "enabled_for Ssse3_body = [Ssse3]"
| "enabled_for Neon_body = []"
| "enabled_for Scalar = []"

definition mul_add ::
  "target \<Rightarrow> machine \<Rightarrow> string option \<Rightarrow> u8 list \<Rightarrow> u8 list \<Rightarrow> u8 \<Rightarrow> u8 list"
where
  "mul_add t m env out src coef =
     (let n = min (length out) (length src)
      in if coef = 0 \<or> n = 0 then out
         else run_body (body_of t m env) (take n out) (take n src) coef @ drop n out)"

section \<open>A block multiplies as the scalar form\<close>

lemma length_mul_add_scalar [simp]: "length (mul_add_scalar out src coef) = length out"
  by (simp add: mul_add_scalar_def)

lemma nth_mul_add_scalar:
  "j < length out \<Longrightarrow> mul_add_scalar out src coef ! j
     = (if j < length src then out ! j XOR gf_mul coef (src ! j) else out ! j)"
  by (simp add: mul_add_scalar_def nth_append)

lemma mul_add_scalar_append:
  assumes "length a = length b"
  shows "mul_add_scalar (a @ c) (b @ d) coef = mul_add_scalar a b coef @ mul_add_scalar c d coef"
  using assms by (simp add: mul_add_scalar_def)

locale block_kernel =
  fixes width :: nat and product :: "u8 list \<Rightarrow> u8 list" and coef :: u8
  assumes width_pos: "0 < width"
    and product_pointwise: "length s = width \<Longrightarrow> product s = map (gf_mul coef) s"
begin

lemma block_step:
  assumes "i + width \<le> length out" and "length src = length out"
  shows "vec_xor (load width i out) (product (load width i src))
    = mul_add_scalar (load width i out) (load width i src) coef"
proof -
  have "length (load width i src) = width" "length (load width i out) = width"
    using assms by (simp_all add: load_def)
  then show ?thesis
    by (simp add: product_pointwise vec_xor_def mul_add_scalar_def zip_map2 case_prod_beta')
qed

lemma blocks_from:
  "length src = length out \<Longrightarrow> i \<le> length out \<Longrightarrow>
   finish src coef (block_loop width product src i out)
   = take i out @ mul_add_scalar (drop i out) (drop i src) coef"
proof (induction "length out - i" arbitrary: i out rule: less_induct)
  case less
  show ?case
  proof (cases "i + width \<le> length out")
    case False
    then show ?thesis
      by (subst block_loop.simps) (simp add: finish_def)
  next
    case True
    let ?v = "mul_add_scalar (load width i out) (load width i src) coef"
    let ?out = "store i ?v out"
    have v: "length ?v = width"
      using True by (simp add: load_def)
    have parts: "length ?out = length out" "take (i + width) ?out = take i out @ ?v"
        "drop (i + width) ?out = drop (i + width) out"
      using True v by (simp_all add: store_def)
    have "finish src coef (block_loop width product src i out)
        = finish src coef (block_loop width product src (i + width) ?out)"
      using True less.prems by (subst block_loop.simps) (simp add: width_pos block_step)
    also have "\<dots> = take i out @ ?v @ mul_add_scalar (drop (i + width) out) (drop (i + width) src) coef"
      using less.hyps [of ?out "i + width"] True less.prems parts width_pos by simp
    also have "?v @ mul_add_scalar (drop (i + width) out) (drop (i + width) src) coef
        = mul_add_scalar (load width i out @ drop (i + width) out) (load width i src @ drop (i + width) src) coef"
      using True less.prems by (subst mul_add_scalar_append) (simp_all add: load_def)
    finally show ?thesis
      by (simp only: load_rest)
  qed
qed

lemma body_is_scalar:
  "length src = length out \<Longrightarrow>
   finish src coef (block_loop width product src 0 out) = mul_add_scalar out src coef"
  using blocks_from [of src out 0] by simp

end

section \<open>The kernels\<close>

text \<open>A byte is its low nibble and its high one, and the product of each is in a table.\<close>

lemma nibbles: "(b AND 0x0F) XOR push_bit 4 (drop_bit 4 b) = (b :: u8)"
  by (rule bit_word_eqI) (auto simp only: bit_0x0F bit_and_iff bit_xor_iff bit_push_bit_iff bit_drop_bit_eq
      comp_apply, auto)

lemma product_of_nibbles:
  assumes "nibble_tables c = (lo, hi)"
  shows "lo ! unat (b AND 0x0F) XOR hi ! unat (drop_bit 4 b) = gf_mul c b"
proof -
  have "lo ! unat (b AND 0x0F) = gf_mul c (b AND 0x0F)"
    using assms nibble_less [of b] by (auto simp: nibble_tables_def)
  moreover have "hi ! unat (drop_bit 4 b) = gf_mul c (push_bit 4 (drop_bit 4 b))"
    using assms high_nibble_less [of b] by (auto simp: nibble_tables_def)
  ultimately show ?thesis
    by (simp only: gf_mul_xor [symmetric] nibbles)
qed

lemma nibble_tables_length:
  "nibble_tables c = (lo, hi) \<Longrightarrow> length lo = 16 \<and> length hi = 16"
  by (auto simp: nibble_tables_def)

lemma shuffle_product_pointwise:
  assumes t: "nibble_tables c = (lo, hi)" and s: "length s = 16 * n"
  shows "shuffle_product (broadcast n lo) (broadcast n hi) (set1_epi8 (16 * n) 0x0F) s = map (gf_mul c) s"
proof -
  show ?thesis
    unfolding shuffle_product_def
    by (simp add: shuffle_low [where v = s] shuffle_high nibble_tables_length [OF t] s vec_xor_def product_of_nibbles [OF t]
        map2_map_map)
qed

text \<open>The matrix of a constant: byte \<open>7 - i\<close> is row \<open>i\<close>, whose bit \<open>j\<close> is bit \<open>i\<close> of its product with \<open>x^j\<close>.\<close>

lemma bit_matrix_row: "bit (matrix_row c i) j \<longleftrightarrow> j < 8 \<and> bit (gf_mul c (push_bit j 1)) i"
proof -
  have "bit (foldl (\<lambda>row j. if P j then row OR push_bit j 1 else row) r is :: u8) j
      \<longleftrightarrow> bit r j \<or> j \<in> set is \<and> j < 8 \<and> P j" for P r "is"
    by (induction "is" arbitrary: r) (auto simp: bit_or_iff bit_exp_iff)
  then show ?thesis
    by (simp add: matrix_row_def tested_bit del: upt_rec_numeral)
qed

lemma bit_affine_matrix:
  "bit (affine_matrix c) k \<longleftrightarrow> (\<exists>i<8. bit (push_bit (8 * (7 - i)) (ucast (matrix_row c i) :: u64)) k)"
proof -
  have "bit (foldl (\<lambda>m i. m OR f i) r is) k \<longleftrightarrow> bit r k \<or> (\<exists>i \<in> set is. bit (f i) k)" for f :: "nat \<Rightarrow> u64" and r "is"
    by (induction "is" arbitrary: r) (auto simp: bit_or_iff)
  then show ?thesis
    by (auto simp: affine_matrix_def simp del: upt_rec_numeral)
qed

lemma qword_byte_matrix:
  assumes "i < 8"
  shows "qword_byte (affine_matrix c) (7 - i) = matrix_row c i"
proof (rule bit_word_eqI)
  fix n assume "n < LENGTH(8)"
  then have n: "n < 8" by simp
  have "bit (qword_byte (affine_matrix c) (7 - i)) n \<longleftrightarrow> bit (affine_matrix c) (8 * (7 - i) + n)"
    using n by (simp add: qword_byte_def bit_ucast_iff bit_drop_bit_eq)
  also have "\<dots> \<longleftrightarrow> (\<exists>k<8. 8 * (7 - k) \<le> 8 * (7 - i) + n \<and> bit (matrix_row c k) (8 * (7 - i) + n - 8 * (7 - k)))"
    unfolding bit_affine_matrix using n assms
    by (auto simp: bit_push_bit_iff bit_ucast_iff dest: bit_imp_le_length)
  also have "\<dots> \<longleftrightarrow> bit (matrix_row c i) n"
  proof
    assume "\<exists>k<8. 8 * (7 - k) \<le> 8 * (7 - i) + n \<and> bit (matrix_row c k) (8 * (7 - i) + n - 8 * (7 - k))"
    then obtain k where k: "k < 8" "8 * (7 - k) \<le> 8 * (7 - i) + n"
        "bit (matrix_row c k) (8 * (7 - i) + n - 8 * (7 - k))"
      by blast
    then have "8 * (7 - i) + n - 8 * (7 - k) < 8"
      by (simp add: bit_matrix_row)
    then have "k = i"
      using k(1,2) n assms by linarith
    then show "bit (matrix_row c i) n"
      using k(3) by simp
  qed (use assms in \<open>auto intro!: exI [of _ i]\<close>)
  finally show "bit (qword_byte (affine_matrix c) (7 - i)) n \<longleftrightarrow> bit (matrix_row c i) n" .
qed

lemma bit_xor_sum: "bit (xor_sum g is) n \<longleftrightarrow> foldr (\<lambda>i p. bit (g i) n \<noteq> p) is False"
  by (induction "is") (auto simp: bit_xor_iff)

lemma affine_multiplies: "affine_byte (affine_matrix c) x = gf_mul c x"
proof (rule bit_word_eqI)
  fix i assume i: "i < LENGTH(8)"
  have "gf_mul c x = xor_sum (\<lambda>j. if bit x j then gf_mul c (push_bit j 1) else 0) [0..<8]"
    using additive_bits [of "gf_mul c" x] by (simp add: additive_def gf_mul_xor weigh_def del: upt_rec_numeral push_bit_of_1)
  then have "bit (gf_mul c x) i \<longleftrightarrow> foldr (\<lambda>j p. bit (if bit x j then gf_mul c (push_bit j 1) else 0) i \<noteq> p) [0..<8] False"
    by (simp only: bit_xor_sum)
  also have "\<dots> \<longleftrightarrow> foldr (\<lambda>j p. bit (matrix_row c i AND x) j \<noteq> p) [0..<8] False"
    by (intro foldr_cong) (auto simp: bit_matrix_row bit_and_iff)
  finally show "bit (affine_byte (affine_matrix c) x) i \<longleftrightarrow> bit (gf_mul c x) i"
    using i by (simp add: bit_affine_byte qword_byte_matrix parity_def)
qed

interpretation pshufb: block_kernel "16 * Suc n"
  "shuffle_product (broadcast (Suc n) (fst (nibble_tables c))) (broadcast (Suc n) (snd (nibble_tables c)))
     (set1_epi8 (16 * Suc n) 0x0F)" c for n c
  by unfold_locales (simp_all only: shuffle_product_pointwise [OF surjective_pairing], simp)

interpretation gfni: block_kernel "8 * Suc n" "\<lambda>s. gf2p8affine_0 s (replicate (Suc n) (affine_matrix c))" c for n c
proof
  fix s :: "u8 list" assume s: "length s = 8 * Suc n"
  show "gf2p8affine_0 s (replicate (Suc n) (affine_matrix c)) = map (gf_mul c) s"
    using s by (intro nth_equalityI)
      (simp_all add: gf2p8affine_0_def affine_multiplies div_less_iff_less_mult mult.commute del: replicate_Suc)
qed simp

interpretation tbl: block_kernel 16
  "\<lambda>s. vec_xor (vqtbl1q_u8 (fst (nibble_tables c)) (vec_and s (replicate 16 0x0F)))
        (vqtbl1q_u8 (snd (nibble_tables c)) (vshrq_n_u8_4 s))" c for c
proof
  fix s :: "u8 list" assume s: "length s = 16"
  have "vec_and s (replicate 16 0x0F) = map (\<lambda>b. b AND 0x0F) s"
    using vec_and_low [of s] s by (simp add: set1_epi8_def)
  then show "vec_xor (vqtbl1q_u8 (fst (nibble_tables c)) (vec_and s (replicate 16 0x0F)))
      (vqtbl1q_u8 (snd (nibble_tables c)) (vshrq_n_u8_4 s)) = map (gf_mul c) s"
    by (simp add: vec_xor_def vqtbl1q_u8_def vshrq_n_u8_4_def map2_map_map nibble_less high_nibble_less
        product_of_nibbles [OF surjective_pairing])
qed simp

section \<open>Every tier\<close>

lemma bodies_are_scalar:
  assumes "length src = length out"
  shows "run_body b out src coef = mul_add_scalar out src coef"
proof -
  have one: "broadcast (Suc 0) v = v" for v
    by (simp add: broadcast_def)
  show ?thesis
    using pshufb.body_is_scalar [OF assms, where n = 0 and c = coef] pshufb.body_is_scalar [OF assms, where n = 1 and c = coef]
      pshufb.body_is_scalar [OF assms, where n = 3 and c = coef] gfni.body_is_scalar [OF assms, where n = 3 and c = coef]
      gfni.body_is_scalar [OF assms, where n = 7 and c = coef] tbl.body_is_scalar [OF assms, where c = coef]
    by (cases b) (simp_all add: mul_add_ssse3_def mul_add_avx2_def mul_add_avx512_def mul_add_gfni256_def
        mul_add_gfni512_def mul_add_neon_def case_prod_beta one eval_nat_numeral
        del: block_loop.simps replicate_Suc)
qed

text \<open>
  C15: on every target, machine and \<open>PWRS_CPU_MAX\<close>, \<open>mul_add\<close> leaves the bytes its scalar form leaves:
  each byte of the shorter length has its product added, and the rest is as it was.
\<close>

theorem mul_add_is_scalar: "mul_add t m env out src coef = mul_add_scalar out src coef"
proof -
  have "mul_add t m env out src coef = mul_add_scalar (take n out) (take n src) coef @ drop n out"
    if n: "n = min (length out) (length src)" for n
  proof (cases "coef = 0 \<or> n = 0")
    case True
    then have "mul_add_scalar (take n out) (take n src) coef = take n out"
      using n by (intro nth_equalityI) (auto simp: nth_mul_add_scalar)
    then show ?thesis
      using True n by (simp add: mul_add_def)
  next
    case False
    then show ?thesis
      using n by (auto simp: mul_add_def bodies_are_scalar Let_def mul_add_scalar_def)
  qed
  moreover have "mul_add_scalar (take n out) (take n src) coef @ drop n out = mul_add_scalar out src coef"
    if "n = min (length out) (length src)" for n
    using that by (intro nth_equalityI) (auto simp: nth_mul_add_scalar nth_append)
  ultimately show ?thesis
    by simp
qed

lemma level_features:
  "f_level (feature_of t Ssse3) = (if ''ssse3'' \<in> set (TARGET_FLOOR t) then L_X86_64 else V2)"
  "f_level (feature_of t Avx2) = V3" "f_level (feature_of t Avx512f) = V4"
  "f_level (feature_of t Avx512bw) = V4" "isa_name t Ssse3 = ''ssse3''"
  by (simp_all add: isa_name_def feature_of_def isa_index_def all_isas_def FEATURES_def row_def
      floor_level_def TARGET_FLOOR_def same_def)

lemma level_offers:
  assumes "l \<in> {V2, V3, V4}" and "l \<le> cpu_level t m env" and "f_level (feature_of t i) = l"
  shows "detected t m i"
proof -
  have "\<forall>f \<in> set (FEATURES t). f_level f \<in> set [V2, V3, V4] \<longrightarrow> f_level f \<le> l \<longrightarrow> has t m env (f_isa f)"
    using levels.reaches [of l t m env] assms(1,2) unfolding cpu_level_reached by auto
  then have "has t m env i"
    using feature_in [of t i] isa_of_feature [of t i] assms(1,3) by auto
  then show ?thesis
    by (simp add: has_def)
qed

text \<open>
  C16: every extension the \<open>target_feature\<close> attribute of the chosen body enables is detected on the machine, or
  is in the floor the target is compiled for, \<open>TARGET_FLOOR\<close>, which is not detected (SSSE3 on macOS).
\<close>

theorem body_instructions_offered:
  "list_all (\<lambda>i. isa_name t i \<in> set (TARGET_FLOOR t) \<or> detected t m i) (enabled_for (body_of t m env))"
proof (cases "t_arch t")
  case Arch_x86_64
  note offers = level_offers [where t = t and m = m and env = env]
  show ?thesis
    using Arch_x86_64 offers [of V2 Ssse3] offers [of V3 Avx2] offers [of V4 Avx512f] offers [of V4 Avx512bw]
    by (cases "''ssse3'' \<in> set (TARGET_FLOOR t)"; cases "cpu_level t m env")
      (auto simp: body_of_def has_def level_features)
qed (simp_all add: body_of_def)

end
