(* ===== verification/Fallible.thy ===== *)
theory Fallible
  imports Ps_Records
begin

text \<open>
  \<open>crates/pwrs/src/fallible.rs\<close>: allocations sized by managed input. A \<open>Vec\<close> is its elements and its
  capacity, and the allocator is a function from the size asked for to the message of its refusal.
\<close>

type_synonym allocator = "nat \<Rightarrow> string option"

record 'a vec =
  elems :: "'a list"
  capacity :: nat

definition new_vec :: "'a vec" where
  "new_vec = \<lparr>elems = [], capacity = 0\<rparr>"

definition clear :: "'a vec \<Rightarrow> 'a vec" where
  "clear v = v\<lparr>elems := []\<rparr>"

text \<open>\<open>try_reserve_exact\<close>: nothing to do, or a larger allocation, or an error and the same vector.\<close>

definition try_reserve_exact :: "allocator \<Rightarrow> nat \<Rightarrow> 'a vec \<Rightarrow> ps_error + 'a vec" where
  "try_reserve_exact alloc additional v =
     (let needed = length (elems v) + additional
      in if needed \<le> capacity v then Inr v
         else (case alloc needed of
                 Some refusal \<Rightarrow> Inl (error_of_reserve refusal)
               | None \<Rightarrow> Inr (v\<lparr>capacity := needed\<rparr>)))"

definition extend :: "'a list \<Rightarrow> 'a vec \<Rightarrow> 'a vec" where
  "extend xs v = v\<lparr>elems := elems v @ xs\<rparr>"

definition vec_with_capacity :: "allocator \<Rightarrow> nat \<Rightarrow> ps_error + 'a vec" where
  "vec_with_capacity alloc len = try_reserve_exact alloc len new_vec"

definition copy_of :: "allocator \<Rightarrow> 'a list \<Rightarrow> ps_error + 'a vec" where
  "copy_of alloc items =
     and_then (vec_with_capacity alloc (length items)) (\<lambda>v. Inr (extend items v))"

definition grow_to :: "allocator \<Rightarrow> 'a vec \<Rightarrow> nat \<Rightarrow> 'a \<Rightarrow> ps_error + 'a vec" where
  "grow_to alloc v len fill =
     (if len > length (elems v)
      then and_then (try_reserve_exact alloc (len - length (elems v)) v)
             (\<lambda>w. Inr (extend (replicate (len - length (elems v)) fill) w))
      else Inr v)"

section \<open>Laws\<close>

text \<open>What is in a vector is in the memory it has.\<close>

definition fits :: "'a vec \<Rightarrow> bool" where
  "fits v \<longleftrightarrow> length (elems v) \<le> capacity v"

lemma fits_new [simp]: "fits new_vec"
  by (simp add: fits_def new_vec_def)

lemma fits_clear [simp]: "fits (clear v)" "elems (clear v) = []" "capacity (clear v) = capacity v"
  by (simp_all add: fits_def clear_def)

lemma try_reserve_exact_cases:
  obtains "length (elems v) + additional \<le> capacity v" "try_reserve_exact alloc additional v = Inr v"
  | refusal where "capacity v < length (elems v) + additional"
      "alloc (length (elems v) + additional) = Some refusal"
      "try_reserve_exact alloc additional v = Inl (error_of_reserve refusal)"
  | "capacity v < length (elems v) + additional" "alloc (length (elems v) + additional) = None"
      "try_reserve_exact alloc additional v = Inr (v\<lparr>capacity := length (elems v) + additional\<rparr>)"
  by (cases "length (elems v) + additional \<le> capacity v"; cases "alloc (length (elems v) + additional)")
    (auto simp: try_reserve_exact_def not_le)

lemma reserved_room:
  "try_reserve_exact alloc (length xs) v = Inr w \<Longrightarrow> elems w = elems v \<and> fits (extend xs w)"
  by (cases alloc "length xs" v rule: try_reserve_exact_cases) (auto simp: fits_def extend_def)

lemma elems_extend [simp]: "elems (extend xs v) = elems v @ xs" "capacity (extend xs v) = capacity v"
  by (simp_all add: extend_def)

text \<open>
  An allocation sized by managed input gives the elements asked for, in memory that has room for
  them, or the \<open>PwrsOutOfMemory\<close> error; growing keeps the elements there, adds only the fill, and never
  shrinks.
\<close>

lemma fallible_allocations:
  "(case copy_of alloc items of
      Inr v \<Rightarrow> elems v = items \<and> fits v
    | Inl e \<Rightarrow> error_id e = ''PwrsOutOfMemory'' \<and> alloc (length items) \<noteq> None)
   \<and> (case grow_to alloc v len fill of
        Inr w \<Rightarrow> elems w = elems v @ replicate (len - length (elems v)) fill \<and> (fits w \<or> w = v)
      | Inl e \<Rightarrow> error_id e = ''PwrsOutOfMemory'' \<and> capacity v < len \<and> alloc len \<noteq> None)"
proof
  have e: "error_id (error_of_reserve r) = ''PwrsOutOfMemory''" for r
    by (simp add: error_of_reserve_def new_error_def)
  show "case copy_of alloc items of
      Inr v \<Rightarrow> elems v = items \<and> fits v
    | Inl e \<Rightarrow> error_id e = ''PwrsOutOfMemory'' \<and> alloc (length items) \<noteq> None"
    by (cases alloc "length items" "new_vec :: 'a vec" rule: try_reserve_exact_cases)
      (auto simp: copy_of_def vec_with_capacity_def e fits_def extend_def new_vec_def)
  show "case grow_to alloc v len fill of
        Inr w \<Rightarrow> elems w = elems v @ replicate (len - length (elems v)) fill \<and> (fits w \<or> w = v)
      | Inl e \<Rightarrow> error_id e = ''PwrsOutOfMemory'' \<and> capacity v < len \<and> alloc len \<noteq> None"
    by (cases alloc "len - length (elems v)" v rule: try_reserve_exact_cases)
      (auto simp: grow_to_def e fits_def extend_def)
qed

end
