(* ===== verification/Utf16.thy ===== *)
theory Utf16
  imports Fallible
begin

unbundle bit_operations_syntax

text \<open>
  \<open>crates/pwrs/src/text.rs\<close>: conversions between UTF-8 and UTF-16 on the parameter and output path. A
  \<open>&str\<close> to convert is its list of Unicode scalar values, and its bytes are their encodings; a string
  that is read is its bytes. A null pointer is \<open>None\<close>.
\<close>

section \<open>UTF-16 in the standard library\<close>

definition str_bytes :: "nat list \<Rightarrow> string" where
  "str_bytes s = concat (map encode_utf8 s)"

definition code_units :: "nat \<Rightarrow> u16 list" where
  "code_units c =
     (if c < 0x10000 then [of_nat c]
      else [of_nat (0xD800 + (c - 0x10000) div 1024), of_nat (0xDC00 + (c - 0x10000) mod 1024)])"

definition encode_utf16 :: "nat list \<Rightarrow> u16 list" where
  "encode_utf16 s = concat (map code_units s)"

text \<open>\<open>char::decode_utf16\<close>: a unit that is half of no pair is \<open>Inl\<close>.\<close>

fun decode_utf16 :: "u16 list \<Rightarrow> (u16 + nat) list" where
  "decode_utf16 [] = []"
| "decode_utf16 [u] = [if 0xD800 \<le> unat u \<and> unat u < 0xE000 then Inl u else Inr (unat u)]"
| "decode_utf16 (u # v # us) =
     (if \<not> (0xD800 \<le> unat u \<and> unat u < 0xE000) then Inr (unat u) # decode_utf16 (v # us)
      else if unat u < 0xDC00 \<and> 0xDC00 \<le> unat v \<and> unat v < 0xE000
      then Inr (0x10000 + (unat u - 0xD800) * 1024 + (unat v - 0xDC00)) # decode_utf16 us
      else Inl u # decode_utf16 (v # us))"

definition from_utf16_lossy :: "u16 list \<Rightarrow> string" where
  "from_utf16_lossy units = str_bytes (map (case_sum (\<lambda>_. 0xFFFD) id) (decode_utf16 units))"

section \<open>Writing strings\<close>

definition is_ascii :: "string \<Rightarrow> bool" where
  "is_ascii bytes = list_all (\<lambda>b. code b < 0x80) bytes"

definition widen :: "char \<Rightarrow> u16" where
  "widen b = of_nat (code b)"

definition to_utf16_into :: "nat list \<Rightarrow> u16 list \<Rightarrow> u16 list" where
  "to_utf16_into s out =
     (let bytes = str_bytes s
      in if \<not> is_ascii bytes then out @ encode_utf16 s else out @ map widen bytes)"

definition to_utf16 :: "nat list \<Rightarrow> u16 list" where
  "to_utf16 s = to_utf16_into s []"

definition INLINE_UTF16 :: nat where
  "INLINE_UTF16 = 512"

text \<open>
  The buffer on the stack: a slot is \<open>None\<close> until it is written. \<open>iter_mut().zip(..)\<close> writes no more
  slots than there are.
\<close>

definition write_slots :: "'a option list \<Rightarrow> 'a list \<Rightarrow> 'a option list" where
  "write_slots buf xs = map Some (take (length buf) xs) @ drop (length xs) buf"

text \<open>\<open>from_raw_parts\<close> on the first \<open>n\<close> slots is defined when there are as many, each written.\<close>

definition read_slots :: "'a option list \<Rightarrow> nat \<Rightarrow> 'a list option" where
  "read_slots buf n =
     (if n \<le> length buf \<and> None \<notin> set (take n buf) then Some (map the (take n buf)) else None)"

definition with_utf16_inline :: "nat list \<Rightarrow> (u16 list \<Rightarrow> 'r) \<Rightarrow> 'r option" where
  "with_utf16_inline s f =
     (let buf = replicate INLINE_UTF16 None;
          bytes = str_bytes s;
          (buf, n) = (if is_ascii bytes then (write_slots buf (map widen bytes), length bytes)
                      else (write_slots buf (encode_utf16 s), min INLINE_UTF16 (length (encode_utf16 s))))
      in map_option f (read_slots buf n))"

text \<open>
  The callee is given the units and what the slot holds meanwhile, and leaves something in the slot.
  The result is \<open>None\<close> where the code would read memory it did not write.
\<close>

definition with_utf16_in ::
  "u16 list \<Rightarrow> nat list \<Rightarrow> (u16 list \<Rightarrow> u16 list \<Rightarrow> 'r \<times> u16 list) \<Rightarrow> ('r \<times> u16 list) option"
where
  "with_utf16_in slot s f =
     (if length (str_bytes s) \<le> INLINE_UTF16 then with_utf16_inline s (\<lambda>units. f units slot)
      else (let buf = to_utf16_into s []; (r, slot') = f buf [] in Some (r, buf)))"

definition with_utf16 ::
  "u16 list \<Rightarrow> nat list \<Rightarrow> (u16 list \<Rightarrow> u16 list \<Rightarrow> 'r \<times> u16 list) \<Rightarrow> ('r \<times> u16 list) option"
where
  "with_utf16 scratch s f =
     (if length (str_bytes s) \<le> INLINE_UTF16 then with_utf16_inline s (\<lambda>units. f units scratch)
      else with_utf16_in scratch s f)"

section \<open>Reading strings\<close>

definition is_ascii_utf16 :: "u16 list \<Rightarrow> bool" where
  "is_ascii_utf16 units = (foldl (OR) 0 units < (0x80 :: u16))"

definition narrow :: "u16 \<Rightarrow> char" where
  "narrow u = char_of (unat u mod 256)"

definition from_utf16 :: "u16 list \<Rightarrow> string" where
  "from_utf16 units =
     (if \<not> is_ascii_utf16 units then from_utf16_lossy units else map narrow units)"

definition decoded :: "u16 list \<Rightarrow> nat list" where
  "decoded units = map (\<lambda>r. case r of Inl _ \<Rightarrow> 0xFFFD | Inr c \<Rightarrow> c) (decode_utf16 units)"

definition len_utf8 :: "nat \<Rightarrow> nat" where
  "len_utf8 c = (if c < 0x80 then 1 else if c < 0x800 then 2 else if c < 0x10000 then 3 else 4)"

definition try_from_utf16 :: "allocator \<Rightarrow> u16 list \<Rightarrow> ps_error + char vec" where
  "try_from_utf16 alloc units =
     (if \<not> is_ascii_utf16 units
      then (let bytes = sum_list (map len_utf8 (decoded units))
            in and_then (try_reserve_exact alloc bytes new_vec)
                 (\<lambda>out. Inr (extend (str_bytes (decoded units)) out)))
      else and_then (try_reserve_exact alloc (length units) new_vec)
             (\<lambda>out. Inr (extend (map narrow units) out)))"

definition from_str16 :: "u16 list option \<Rightarrow> string" where
  "from_str16 src = (case src of None \<Rightarrow> [] | Some units \<Rightarrow> if units = [] then [] else from_utf16 units)"

definition try_from_str16 :: "allocator \<Rightarrow> u16 list option \<Rightarrow> ps_error + char vec" where
  "try_from_str16 alloc src =
     (case src of
        None \<Rightarrow> Inr new_vec
      | Some units \<Rightarrow> if units = [] then Inr new_vec else try_from_utf16 alloc units)"

text \<open>\<open>saturating_mul\<close> on a 64-bit \<open>usize\<close>.\<close>

definition saturating_mul :: "nat \<Rightarrow> nat \<Rightarrow> nat" where
  "saturating_mul a b = min (a * b) (2 ^ 64 - 1)"

definition try_assign_str16 ::
  "allocator \<Rightarrow> char vec \<Rightarrow> u16 list option \<Rightarrow> (ps_error + unit) \<times> char vec"
where
  "try_assign_str16 alloc dst src =
     (let dst = clear dst
      in case src of
           None \<Rightarrow> (Inr (), dst)
         | Some units \<Rightarrow>
             if units = [] then (Inr (), dst)
             else
               (let ascii = is_ascii_utf16 units;
                    bytes = (if ascii then length units else sum_list (map len_utf8 (decoded units)));
                    dst = (if capacity dst > max (saturating_mul bytes 4) 4096 then new_vec else dst)
                in case try_reserve_exact alloc bytes dst of
                     Inl e \<Rightarrow> (Inl e, dst)
                   | Inr dst \<Rightarrow>
                       (Inr (), extend (if ascii then map narrow units else str_bytes (decoded units)) dst)))"

section \<open>ASCII\<close>

lemma is_scalar_less: "is_scalar c \<Longrightarrow> c < 0x110000"
  by (auto simp: is_scalar_def)

lemma ascii_scalar: "is_scalar c \<Longrightarrow> is_ascii (encode_utf8 c) \<longleftrightarrow> c < 0x80"
  using is_scalar_less [of c]
  by (auto simp: is_ascii_def encode_utf8_def code_char_of)

lemma is_ascii_append [simp]: "is_ascii (a @ b) \<longleftrightarrow> is_ascii a \<and> is_ascii b" "is_ascii []"
  by (simp_all add: is_ascii_def)

lemma str_bytes_simps [simp]: "str_bytes [] = []" "str_bytes (c # s) = encode_utf8 c @ str_bytes s"
  by (simp_all add: str_bytes_def)

lemma encode_utf16_simps [simp]: "encode_utf16 [] = []" "encode_utf16 (c # s) = code_units c @ encode_utf16 s"
  by (simp_all add: encode_utf16_def)

lemma widened_char:
  assumes "is_scalar c" and "is_ascii (encode_utf8 c)"
  shows "map widen (encode_utf8 c) = code_units c"
proof -
  have "c < 0x80"
    using assms by (simp add: ascii_scalar)
  then show ?thesis
    by (simp add: encode_utf8_def code_units_def widen_def code_char_of)
qed

lemma widened_ascii:
  "list_all is_scalar s \<Longrightarrow> is_ascii (str_bytes s) \<Longrightarrow> map widen (str_bytes s) = encode_utf16 s"
  by (induction s) (simp_all add: widened_char)

lemma to_utf16_encodes: "list_all is_scalar s \<Longrightarrow> to_utf16_into s out = out @ encode_utf16 s"
  by (simp add: to_utf16_into_def Let_def widened_ascii)

lemma units_le_bytes: "length (code_units c) \<le> length (encode_utf8 c)"
  by (simp add: code_units_def encode_utf8_def)

lemma utf16_le_utf8: "length (encode_utf16 s) \<le> length (str_bytes s)"
  by (induction s) (simp_all add: add_mono units_le_bytes)

lemma slots_read: "length xs \<le> length buf \<Longrightarrow> read_slots (write_slots buf xs) (length xs) = Some xs"
  by (auto simp: read_slots_def write_slots_def)

lemma inline_gives:
  assumes "list_all is_scalar s" and "length (str_bytes s) \<le> INLINE_UTF16"
  shows "with_utf16_inline s f = Some (f (encode_utf16 s))"
proof -
  have "length (encode_utf16 s) \<le> INLINE_UTF16"
    using utf16_le_utf8 [of s] assms(2) by simp
  then have "min INLINE_UTF16 (length (encode_utf16 s)) = length (encode_utf16 s)"
    by simp
  moreover have "is_ascii (str_bytes s) \<Longrightarrow> length (str_bytes s) = length (encode_utf16 s)"
    using widened_ascii [OF assms(1)] by (metis length_map)
  ultimately show ?thesis
    using widened_ascii [OF assms(1)] slots_read [of "encode_utf16 s" "replicate INLINE_UTF16 None"]
      \<open>length (encode_utf16 s) \<le> INLINE_UTF16\<close>
    by (simp add: with_utf16_inline_def Let_def)
qed

text \<open>
  C17: the code that writes a string is given its UTF-16, whole, whichever buffer it is in: the buffer
  on the stack holds every unit of a string that is sent to it, and only slots the conversion wrote
  are read. A callee that converts again meanwhile finds the slot empty and cannot disturb the
  buffer, which goes back into the slot after.
\<close>

theorem with_utf16_gives:
  assumes "list_all is_scalar s"
  shows "with_utf16_in slot s f =
      (if length (str_bytes s) \<le> 512 then Some (f (encode_utf16 s) slot)
       else Some (fst (f (encode_utf16 s) []), encode_utf16 s))
    \<and> with_utf16 slot s f = with_utf16_in slot s f
    \<and> length (encode_utf16 s) \<le> length (str_bytes s)"
proof -
  show ?thesis
    using utf16_le_utf8 [of s] inline_gives [OF assms, of "\<lambda>units. f units slot"] to_utf16_encodes [OF assms]
    by (auto simp: with_utf16_in_def with_utf16_def INLINE_UTF16_def Let_def split: prod.split)
qed

lemma with_utf16_gives_witness:
  "with_utf16_in [7] [0x48, 0x1F600] (\<lambda>units slot. (units, slot)) = Some ([0x48, 0xD83D, 0xDE00], [7])"
proof -
  have "encode_utf16 [0x48, 0x1F600] = [0x48, 0xD83D, 0xDE00]" "length (str_bytes [0x48, 0x1F600]) = 5"
    by (simp_all add: code_units_def encode_utf8_def)
  then show ?thesis
    using with_utf16_gives [of "[0x48, 0x1F600]" "[7]" "\<lambda>units slot. (units, slot)"]
    by (simp add: is_scalar_def)
qed

section \<open>Reading\<close>

lemma below_0x80: "(a :: u16) < 0x80 \<longleftrightarrow> drop_bit 7 a = 0"
proof -
  have "drop_bit 7 a = 0 \<longleftrightarrow> unat (drop_bit 7 a) = 0"
    by (metis unsigned_0 unsigned_word_eqI)
  also have "\<dots> \<longleftrightarrow> unat a div 128 = 0"
  proof -
    have "unat a < 2 ^ 16"
      using unsigned_less [of a] by simp
    then show ?thesis
      by (simp only: unsigned_drop_bit_eq) (simp add: drop_bit_eq_div take_bit_nat_eq_self)
  qed
  finally have "drop_bit 7 a = 0 \<longleftrightarrow> unat a div 128 = 0" .
  then show ?thesis
    by (simp add: word_less_nat_alt div_eq_0_iff)
qed

lemma is_ascii_utf16_iff: "is_ascii_utf16 units \<longleftrightarrow> list_all (\<lambda>u. unat u < 0x80) units"
proof -
  have "foldl (OR) a us < (0x80 :: u16) \<longleftrightarrow> a < 0x80 \<and> list_all (\<lambda>u. u < 0x80) us" for a us
    by (induction us arbitrary: a) (auto simp: below_0x80 or_eq_0_iff)
  then show ?thesis
    by (simp add: is_ascii_utf16_def word_less_nat_alt)
qed

lemma decode_ascii:
  "list_all (\<lambda>u. unat u < 0x80) units \<Longrightarrow> decode_utf16 units = map (\<lambda>u. Inr (unat u)) units"
  by (induction units rule: decode_utf16.induct) auto

lemma lossy_decoded: "from_utf16_lossy units = str_bytes (decoded units)"
  by (simp add: from_utf16_lossy_def decoded_def comp_def id_def cong: sum.case_cong)

lemma narrowed_ascii:
  assumes "is_ascii_utf16 units"
  shows "map narrow units = str_bytes (decoded units)"
proof -
  have "decoded units = map unat units"
    using assms by (simp add: decoded_def is_ascii_utf16_iff decode_ascii comp_def)
  moreover have "list_all (\<lambda>u. unat u < 0x80) units \<Longrightarrow> map narrow units = str_bytes (map unat units)" for units
    by (induction units) (simp_all add: narrow_def encode_utf8_def)
  ultimately show ?thesis
    using assms by (simp add: is_ascii_utf16_iff)
qed

lemma from_utf16_is_lossy: "from_utf16 units = str_bytes (decoded units)"
  by (simp add: from_utf16_def lossy_decoded narrowed_ascii)

lemma length_str_bytes: "length (str_bytes s) = sum_list (map len_utf8 s)"
  by (induction s) (simp_all add: encode_utf8_def len_utf8_def)

text \<open>The bytes asked of the allocator are those of the text, on either path.\<close>

lemma reserved_bytes:
  "(if is_ascii_utf16 units then length units else sum_list (map len_utf8 (decoded units)))
     = length (from_utf16 units)"
  by (auto simp: from_utf16_def lossy_decoded length_str_bytes)

lemma try_from_utf16_steps:
  "try_from_utf16 alloc units =
     and_then (try_reserve_exact alloc (length (from_utf16 units)) new_vec)
       (\<lambda>out. Inr (extend (from_utf16 units) out))"
  using reserved_bytes [of units]
  by (auto simp: try_from_utf16_def from_utf16_is_lossy narrowed_ascii Let_def)

text \<open>The state of the buffer when its room is reserved.\<close>

definition kept :: "char vec \<Rightarrow> nat \<Rightarrow> char vec" where
  "kept dst bytes = (if capacity dst > max (saturating_mul bytes 4) 4096 then new_vec else clear dst)"

lemma kept_facts: "elems (kept dst n) = []" "capacity (kept dst n) \<le> max (saturating_mul n 4) 4096"
  "fits (kept dst n)"
  by (auto simp: kept_def new_vec_def fits_def)

lemma try_assign_steps:
  assumes "units \<noteq> []"
  shows "try_assign_str16 alloc dst (Some units) =
     (case try_reserve_exact alloc (length (from_utf16 units)) (kept dst (length (from_utf16 units))) of
        Inl e \<Rightarrow> (Inl e, kept dst (length (from_utf16 units)))
      | Inr w \<Rightarrow> (Inr (), extend (from_utf16 units) w))"
proof -
  have read: "(if is_ascii_utf16 units then map narrow units else str_bytes (decoded units)) = from_utf16 units"
    by (simp add: from_utf16_is_lossy narrowed_ascii)
  show ?thesis
    using assms unfolding try_assign_str16_def kept_def Let_def
    by (simp only: option.case if_False reserved_bytes read fits_clear)
qed

lemma decode_unit:
  "\<not> (0xD800 \<le> unat u \<and> unat u < 0xE000) \<Longrightarrow> decode_utf16 (u # us) = Inr (unat u) # decode_utf16 us"
  by (cases us) auto

lemma unat_small: "n < 0x10000 \<Longrightarrow> unat (of_nat n :: u16) = n"
  by (simp add: unat_of_nat take_bit_nat_eq_self)

lemma decode_code_units:
  assumes "is_scalar c"
  shows "decode_utf16 (code_units c @ us) = Inr c # decode_utf16 us"
proof (cases "c < 0x10000")
  case True
  then show ?thesis
    using assms by (auto simp: code_units_def unat_small decode_unit is_scalar_def)
next
  case False
  define h where "h = (c - 0x10000) div 1024"
  define l where "l = (c - 0x10000) mod 1024"
  have small: "h < 0x400" "l < 0x400" and c: "c = 0x10000 + h * 1024 + l"
    using False is_scalar_less [OF assms] by (auto simp: h_def l_def)
  obtain hi lo where units: "code_units c = [hi, lo]" "unat hi = 0xD800 + h" "unat lo = 0xDC00 + l"
    using False small unat_small [of "0xD800 + h"] unat_small [of "0xDC00 + l"]
    by (simp add: code_units_def flip: h_def l_def)
  then show ?thesis
    using small c by simp
qed

lemma decode_encode: "list_all is_scalar s \<Longrightarrow> decode_utf16 (encode_utf16 s) = map Inr s"
  by (induction s) (simp_all add: decode_code_units)

lemma written_reads_back: "list_all is_scalar s \<Longrightarrow> from_utf16 (to_utf16 s) = str_bytes s"
  by (simp add: from_utf16_is_lossy to_utf16_def to_utf16_encodes decoded_def decode_encode comp_def)

lemma try_from_reads:
  "case try_from_str16 alloc src of
     Inr out \<Rightarrow> elems out = from_str16 src \<and> capacity out = length (from_str16 src)
   | Inl e \<Rightarrow> error_id e = ''PwrsOutOfMemory'' \<and> alloc (length (from_str16 src)) \<noteq> None"
proof (cases "src = None \<or> src = Some []")
  case True
  then show ?thesis
    by (auto simp: try_from_str16_def from_str16_def new_vec_def)
next
  case False
  then obtain units where u: "src = Some units" "units \<noteq> []"
    by auto
  then show ?thesis
    by (cases alloc "length (from_utf16 units)" "new_vec :: char vec" rule: try_reserve_exact_cases)
      (auto simp: try_from_str16_def from_str16_def try_from_utf16_steps new_vec_def error_of_reserve_def
        new_error_def)
qed

lemma try_assign_reads:
  "case try_assign_str16 alloc dst src of
     (Inr _, out) \<Rightarrow> elems out = from_str16 src \<and> (length (from_str16 src) \<le> capacity out)
   | (Inl e, out) \<Rightarrow> try_from_str16 alloc src = Inl e \<and> elems out = []"
proof (cases "src = None \<or> src = Some []")
  case True
  then show ?thesis
    by (auto simp: try_assign_str16_def from_str16_def)
next
  case False
  then obtain units where u: "src = Some units" "units \<noteq> []"
    by auto
  then show ?thesis
    using kept_facts [of dst "length (from_utf16 units)"]
    by (cases alloc "length (from_utf16 units)" "kept dst (length (from_utf16 units))" rule: try_reserve_exact_cases)
      (auto simp: try_assign_steps from_str16_def try_from_str16_def try_from_utf16_steps
        try_reserve_exact_def new_vec_def Let_def)
qed

lemma try_assign_capacity:
  assumes "units \<noteq> []"
  shows "capacity (snd (try_assign_str16 alloc dst (Some units)))
      \<le> max (max (saturating_mul (length (from_utf16 units)) 4) 4096) (length (from_utf16 units))"
  using kept_facts [of dst "length (from_utf16 units)"] unfolding try_assign_steps [OF assms]
  by (cases alloc "length (from_utf16 units)" "kept dst (length (from_utf16 units))" rule: try_reserve_exact_cases)
    auto

lemma try_assign_in_place:
  assumes "units \<noteq> []" and "length (from_utf16 units) \<le> capacity dst" and "capacity dst \<le> 4096"
  shows "try_assign_str16 alloc dst (Some units) = (Inr (), dst\<lparr>elems := from_utf16 units\<rparr>)"
proof -
  have "kept dst (length (from_utf16 units)) = clear dst"
    using assms by (auto simp: kept_def)
  then show ?thesis
    using assms(2) unfolding try_assign_steps [OF assms(1)]
    by (simp add: try_reserve_exact_def clear_def extend_def)
qed

text \<open>
  C18: reading a string gives what the standard library's decoding gives, with U+FFFD for each unit of
  no pair: the ASCII path, the fallible form and the form that reuses a buffer return the same text,
  in the memory reserved for it, and the last two fail only when the allocator refuses that much.
\<close>

theorem utf16_reads:
  "from_utf16 units = from_utf16_lossy units
   \<and> (case try_from_str16 alloc src of
        Inr out \<Rightarrow> elems out = from_str16 src \<and> capacity out = length (from_str16 src)
      | Inl e \<Rightarrow> error_id e = ''PwrsOutOfMemory'' \<and> alloc (length (from_str16 src)) \<noteq> None)
   \<and> (case try_assign_str16 alloc dst src of
        (Inr _, out) \<Rightarrow> elems out = from_str16 src \<and> length (from_str16 src) \<le> capacity out
      | (Inl e, out) \<Rightarrow> try_from_str16 alloc src = Inl e \<and> elems out = [])"
  using try_from_reads try_assign_reads by (simp add: from_utf16_is_lossy lossy_decoded)

text \<open>
  A buffer bound again is kept in bounds: after the call it holds at most four times the text and
  4 KiB, and one that has room for the text and is no larger than that is not allocated again. A
  string that was written reads back through it.
\<close>

lemma assign_keeps_buffer:
  assumes "list_all is_scalar s" and "s \<noteq> []"
  shows "capacity (snd (try_assign_str16 alloc dst (Some (to_utf16 s))))
      \<le> max (max (saturating_mul (length (str_bytes s)) 4) 4096) (length (str_bytes s))
    \<and> (length (str_bytes s) \<le> capacity dst \<longrightarrow> capacity dst \<le> 4096 \<longrightarrow>
        try_assign_str16 alloc dst (Some (to_utf16 s)) = (Inr (), dst\<lparr>elems := str_bytes s\<rparr>))"
proof -
  have "to_utf16 s \<noteq> []"
    using assms by (cases s) (auto simp: to_utf16_def to_utf16_encodes code_units_def)
  then show ?thesis
    using try_assign_capacity [of "to_utf16 s" alloc dst] try_assign_in_place [of "to_utf16 s" dst alloc]
      written_reads_back [OF assms(1)] by simp
qed

lemma assign_keeps_buffer_witness:
  "try_assign_str16 (\<lambda>_. Some ''no memory'') \<lparr>elems = ''old'', capacity = 16\<rparr> (Some (to_utf16 [0xE9, 0x41]))
     = (Inr (), \<lparr>elems = str_bytes [0xE9, 0x41], capacity = 16\<rparr>)"
  using assign_keeps_buffer [of "[0xE9, 0x41]" "\<lambda>_. Some ''no memory''" "\<lparr>elems = ''old'', capacity = 16\<rparr>"]
  by (simp add: is_scalar_def encode_utf8_def)

end
