(* ===== verification/Json.thy ===== *)
theory Json
  imports Prelude
begin

text \<open>
  \<open>crates/pwrs-macros/src/json.rs\<close>: the writer of descriptors, and the split of a descriptor at its
  sentinels. Strings are their UTF-8 bytes: the characters the code escapes are all ASCII. The reader
  of objects is the reference the writer is measured by; the program has none.
\<close>

section \<open>The writer\<close>

abbreviation backslash :: char where
  "backslash \<equiv> CHR 0x5C"

definition hex_digit :: "nat \<Rightarrow> char" where
  "hex_digit d = char_of (if d < 10 then 48 + d else 87 + d)"

fun hex :: "nat \<Rightarrow> string" where
  "hex n = (if n < 16 then [hex_digit n] else hex (n div 16) @ [hex_digit (n mod 16)])"

declare hex.simps [simp del]

text \<open>\<open>{:04x}\<close>.\<close>

definition hex4 :: "nat \<Rightarrow> string" where
  "hex4 n = replicate (4 - length (hex n)) (CHR ''0'') @ hex n"

definition escape_char :: "char \<Rightarrow> string" where
  "escape_char ch =
     (if ch = quote then [backslash, quote]
      else if ch = backslash then [backslash, backslash]
      else if ch = CHR 0x0A then [backslash, CHR ''n'']
      else if ch = CHR 0x0D then [backslash, CHR ''r'']
      else if ch = CHR 0x09 then [backslash, CHR ''t'']
      else if code ch < 0x20 then backslash # CHR ''u'' # hex4 (code ch)
      else [ch])"

definition escape :: "string \<Rightarrow> string" where
  "escape s = quoted (concat (map escape_char s))"

record obj =
  buf :: string
  first :: bool

definition new_obj :: obj where
  "new_obj = \<lparr>buf = ''{'', first = True\<rparr>"

definition push_str :: "string \<Rightarrow> obj \<Rightarrow> obj" where
  "push_str s w = w\<lparr>buf := buf w @ s\<rparr>"

definition key :: "string \<Rightarrow> obj \<Rightarrow> obj" where
  "key k w = \<lparr>buf = buf w @ (if first w then [] else '','') @ escape k @ '':'', first = False\<rparr>"

definition obj_str :: "string \<Rightarrow> string \<Rightarrow> obj \<Rightarrow> obj" where
  "obj_str k v w = push_str (escape v) (key k w)"

definition opt_str :: "string \<Rightarrow> string option \<Rightarrow> obj \<Rightarrow> obj" where
  "opt_str k v w = push_str (case v of Some s \<Rightarrow> escape s | None \<Rightarrow> ''null'') (key k w)"

definition obj_bool :: "string \<Rightarrow> bool \<Rightarrow> obj \<Rightarrow> obj" where
  "obj_bool k v w = push_str (if v then ''true'' else ''false'') (key k w)"

text \<open>\<open>i64::to_string\<close>.\<close>

definition int_text :: "int \<Rightarrow> string" where
  "int_text n = (if n < 0 then CHR ''-'' # decimal (nat (- n)) else decimal (nat n))"

definition opt_num :: "string \<Rightarrow> int option \<Rightarrow> obj \<Rightarrow> obj" where
  "opt_num k v w = push_str (case v of Some n \<Rightarrow> int_text n | None \<Rightarrow> ''null'') (key k w)"

definition obj_num :: "string \<Rightarrow> int \<Rightarrow> obj \<Rightarrow> obj" where
  "obj_num k v w = push_str (int_text v) (key k w)"

fun push_items :: "(string \<Rightarrow> string) \<Rightarrow> nat \<Rightarrow> string list \<Rightarrow> string" where
  "push_items f i [] = []"
| "push_items f i (s # ss) = (if i > 0 then '','' else []) @ f s @ push_items f (i + 1) ss"

definition strs :: "string \<Rightarrow> string list \<Rightarrow> obj \<Rightarrow> obj" where
  "strs k v w = push_str (''['' @ push_items escape 0 v @ '']'') (key k w)"

definition raw :: "string \<Rightarrow> string \<Rightarrow> obj \<Rightarrow> obj" where
  "raw k v w = push_str v (key k w)"

definition finish :: "obj \<Rightarrow> string" where
  "finish w = buf w @ ''}''"

definition array_text :: "string list \<Rightarrow> string" where
  "array_text items = ''['' @ push_items (\<lambda>it. it) 0 items @ '']''"

definition clr_sentinel :: "nat \<Rightarrow> string" where
  "clr_sentinel i = ''@@PWRS_CLR_'' @ decimal i @ ''@@''"

definition value_type_sentinel :: "nat \<Rightarrow> string" where
  "value_type_sentinel i = ''@@PWRS_VT_'' @ decimal i @ ''@@''"

definition methods_sentinel :: string where
  "methods_sentinel = ''@@PWRS_METHODS@@''"

definition custom_clr :: "string \<Rightarrow> nat \<Rightarrow> string \<Rightarrow> obj \<Rightarrow> obj" where
  "custom_clr k i suf w = push_str (quoted (clr_sentinel i @ suf)) (key k w)"

definition custom_value_type :: "string \<Rightarrow> nat \<Rightarrow> obj \<Rightarrow> obj" where
  "custom_value_type k i w = push_str (value_type_sentinel i) (key k w)"

section \<open>A reader of objects\<close>

fun hex_value :: "string \<Rightarrow> nat \<Rightarrow> nat option" where
  "hex_value [] acc = Some acc"
| "hex_value (c # cs) acc =
     (if is_ascii_digit c then hex_value cs (acc * 16 + (code c - 48))
      else if 97 \<le> code c \<and> code c \<le> 102 then hex_value cs (acc * 16 + (code c - 87))
      else None)"

definition simple_escapes :: "(char \<times> char) list" where
  "simple_escapes =
     [(quote, quote), (backslash, backslash), (CHR ''n'', CHR 0x0A), (CHR ''r'', CHR 0x0D),
      (CHR ''t'', CHR 0x09)]"

text \<open>One character of a string: itself, or an escape.\<close>

definition read_one :: "string \<Rightarrow> (string \<times> string) option" where
  "read_one s =
     (case s of
        [] \<Rightarrow> None
      | c # cs \<Rightarrow>
          if c \<noteq> backslash then (if code c < 0x20 then None else Some ([c], cs))
          else
            (case cs of
               [] \<Rightarrow> None
             | e # es \<Rightarrow>
                 if e = CHR ''u'' \<and> 4 \<le> length es
                 then map_option (\<lambda>n. (encode_utf8 n, drop 4 es)) (hex_value (take 4 es) 0)
                 else map_option (\<lambda>c. ([c], es)) (map_of simple_escapes e)))"

lemma read_one_shorter: "read_one s = Some (x, r) \<Longrightarrow> length r < length s"
  by (auto simp: read_one_def split: list.splits if_splits)

text \<open>The rest of a string, after its opening quotation mark.\<close>

function read_string :: "string \<Rightarrow> (string \<times> string) option" where
  "read_string s =
     (if s \<noteq> [] \<and> hd s = quote then Some ([], tl s)
      else (case read_one s of
              None \<Rightarrow> None
            | Some (x, r) \<Rightarrow> map_option (\<lambda>(y, r'). (x @ y, r')) (read_string r)))"
  by pat_completeness auto
termination
  by (relation "measure length") (auto dest: read_one_shorter)

declare read_string.simps [simp del]

datatype json = Str string | Null | Bool bool | Num int | Strs "string list"

definition read_number :: "string \<Rightarrow> (json \<times> string) option" where
  "read_number s =
     map_option (\<lambda>n. (Num (int n), dropWhile is_ascii_digit s)) (digits_value 0 (takeWhile is_ascii_digit s))"

text \<open>The items of an array of strings, after the bracket; the fuel is more than the items.\<close>

fun read_items :: "nat \<Rightarrow> string \<Rightarrow> (string list \<times> string) option" where
  "read_items 0 s = None"
| "read_items (Suc n) s =
     (if s = [] \<or> hd s \<noteq> quote then None
      else (case read_string (tl s) of
              Some (x, c # r) \<Rightarrow>
                if c = CHR '']'' then Some ([x], r)
                else if c = CHR '','' then map_option (\<lambda>(xs, r). (x # xs, r)) (read_items n r)
                else None
            | _ \<Rightarrow> None))"

definition read_value :: "string \<Rightarrow> (json \<times> string) option" where
  "read_value s =
     (case s of
        [] \<Rightarrow> None
      | c # cs \<Rightarrow>
          if c = quote then map_option (\<lambda>(x, r). (Str x, r)) (read_string cs)
          else if c = CHR ''['' then
            (if cs \<noteq> [] \<and> hd cs = CHR '']'' then Some (Strs [], tl cs)
             else map_option (\<lambda>(xs, r). (Strs xs, r)) (read_items (length s) cs))
          else if c = CHR ''n'' then map_option (\<lambda>r. (Null, r)) (strip_prefix ''null'' s)
          else if c = CHR ''t'' then map_option (\<lambda>r. (Bool True, r)) (strip_prefix ''true'' s)
          else if c = CHR ''f'' then map_option (\<lambda>r. (Bool False, r)) (strip_prefix ''false'' s)
          else if c = CHR ''-'' then
            (case read_number cs of Some (Num n, r) \<Rightarrow> Some (Num (- n), r) | _ \<Rightarrow> None)
          else if is_ascii_digit c then read_number s
          else None)"

text \<open>The members of an object, after the brace; the fuel is more than the members.\<close>

fun read_members :: "nat \<Rightarrow> string \<Rightarrow> (string \<times> json) list option" where
  "read_members 0 s = None"
| "read_members (Suc n) s =
     (if s = [] \<or> hd s \<noteq> quote then None
      else (case read_string (tl s) of
              Some (k, c # r) \<Rightarrow>
                if c \<noteq> CHR '':'' then None
                else (case read_value r of
                        Some (v, d # r) \<Rightarrow>
                          if d = CHR ''}'' \<and> r = [] then Some [(k, v)]
                          else if d = CHR '','' then map_option ((#) (k, v)) (read_members n r)
                          else None
                      | _ \<Rightarrow> None)
            | _ \<Rightarrow> None))"

definition read_object :: "string \<Rightarrow> (string \<times> json) list option" where
  "read_object s =
     (if s = ''{}'' then Some [] else if prefix ''{'' s then read_members (length s) (tl s) else None)"

section \<open>What is written is read\<close>

lemma hex4_reads:
  "n < 32 \<Longrightarrow> length (hex4 n) = 4 \<and> hex_value (hex4 n) 0 = Some n"
proof -
  have "list_all (\<lambda>n. length (hex4 n) = 4 \<and> hex_value (hex4 n) 0 = Some n) [0..<32]"
    by code_simp
  then show "n < 32 \<Longrightarrow> ?thesis"
    by (simp add: list_all_iff)
qed

lemma read_escaped: "read_one (escape_char c @ r) = Some ([c], r)"
proof (cases "c = quote \<or> c = backslash \<or> c = CHR 0x0A \<or> c = CHR 0x0D \<or> c = CHR 0x09 \<or> \<not> code c < 0x20")
  case True
  then show ?thesis
    by (auto simp: read_one_def escape_char_def simple_escapes_def)
next
  case False
  then have "read_one (escape_char c @ r) = Some (encode_utf8 (code c), r)"
    using hex4_reads [of "code c"] by (simp add: read_one_def escape_char_def)
  then show ?thesis
    using False by (simp add: encode_utf8_def)
qed

lemma escape_char_start: "\<exists>x xs. escape_char c = x # xs \<and> x \<noteq> quote"
  by (simp add: escape_char_def)

lemma read_string_escaped: "read_string (concat (map escape_char s) @ quote # r) = Some (s, r)"
proof (induction s)
  case Nil
  show ?case by (simp add: read_string.simps)
next
  case (Cons c s)
  then show ?case
    using escape_char_start [of c] read_escaped [of c "concat (map escape_char s) @ quote # r"]
    by (subst read_string.simps) auto
qed

lemma read_number_text: "r = [] \<or> \<not> is_ascii_digit (hd r) \<Longrightarrow> read_number (decimal n @ r) = Some (Num (int n), r)"
proof -
  have "list_all is_ascii_digit (decimal n)"
    using decimal_digits [of _ n] by (auto simp: list_all_iff is_ascii_digit_def)
  then show "r = [] \<or> \<not> is_ascii_digit (hd r) \<Longrightarrow> ?thesis"
    by (simp add: read_number_def takeWhile_all_append dropWhile_all_append digits_value_decimal)
qed

text \<open>Text that follows a value: a comma, a bracket or a brace.\<close>

definition delimited :: "string \<Rightarrow> bool" where
  "delimited r \<longleftrightarrow> r \<noteq> [] \<and> hd r \<in> {CHR '','', CHR '']'', CHR ''}''}"

lemma delimited_not_digit: "delimited r \<Longrightarrow> \<not> is_ascii_digit (hd r)"
  by (auto simp: delimited_def is_ascii_digit_def)

lemma push_items_joined: "0 < i \<Longrightarrow> push_items f i ss = concat (map (\<lambda>s. '','' @ f s) ss)"
  by (induction f i ss rule: push_items.induct) simp_all

lemma push_items_Cons: "push_items f 0 (s # ss) = f s @ concat (map (\<lambda>s. '','' @ f s) ss)"
  by (simp add: push_items_joined)

lemma read_items_text:
  "length ss < n \<Longrightarrow>
   read_items n (escape s @ concat (map (\<lambda>s. '','' @ escape s) ss) @ CHR '']'' # r) = Some (s # ss, r)"
proof (induction ss arbitrary: s n)
  case Nil
  then obtain m where "n = Suc m" by (cases n) auto
  then show ?case
    by (simp add: escape_def read_string_escaped)
next
  case (Cons u ss)
  then obtain m where m: "n = Suc m" "length ss < m" by (cases n) auto
  then show ?case
    using Cons.IH [OF m(2), of u] by (simp add: escape_def read_string_escaped)
qed

fun value_text :: "json \<Rightarrow> string" where
  "value_text (Str v) = escape v"
| "value_text Null = ''null''"
| "value_text (Bool b) = (if b then ''true'' else ''false'')"
| "value_text (Num n) = int_text n"
| "value_text (Strs ss) = ''['' @ push_items escape 0 ss @ '']''"

lemma read_int_text: "delimited r \<Longrightarrow> read_value (int_text n @ r) = Some (Num n, r)"
proof (cases "n < 0")
  case True
  show ?thesis if "delimited r"
    using True read_number_text [OF disjI2 [OF delimited_not_digit [OF that]], of "nat (- n)"]
    by (simp add: int_text_def read_value_def is_ascii_digit_def)
next
  case False
  obtain d ds where d: "decimal (nat n) = d # ds" "is_ascii_digit d"
    using decimal_Cons by blast
  then have "d \<notin> {quote, CHR ''['', CHR ''n'', CHR ''t'', CHR ''f'', CHR ''-''}"
    by (auto simp: is_ascii_digit_def)
  then show ?thesis if "delimited r"
    using False read_number_text [OF disjI2 [OF delimited_not_digit [OF that]], of "nat n"] d
    by (simp add: int_text_def read_value_def)
qed

lemma items_length: "length ss \<le> length (concat (map (\<lambda>s. '','' @ escape s) ss))"
  by (induction ss) simp_all

lemma read_value_text: "delimited r \<Longrightarrow> read_value (value_text v @ r) = Some (v, r)"
proof (induction v rule: value_text.induct)
  case (1 v)
  then show ?case by (simp add: escape_def read_value_def read_string_escaped)
next
  case 2
  then show ?case by (simp add: read_value_def strip_prefix_def)
next
  case (3 b)
  then show ?case by (simp add: read_value_def strip_prefix_def)
next
  case (4 n)
  then show ?case by (simp add: read_int_text)
next
  case (5 ss)
  show ?case
  proof (cases ss)
    case Nil
    then show ?thesis by (simp add: read_value_def)
  next
    case (Cons u us)
    have "read_items n (escape u @ concat (map (\<lambda>s. '','' @ escape s) us) @ CHR '']'' # r) = Some (ss, r)"
      if "length us < n" for n
      using read_items_text [OF that] Cons by simp
    then show ?thesis
      using Cons items_length [of us]
      by (simp add: read_value_def push_items_Cons escape_def del: read_items.simps push_items.simps)
  qed
qed

text \<open>A member put by the method for its kind of value, and the text of the whole object.\<close>

fun put :: "string \<times> json \<Rightarrow> obj \<Rightarrow> obj" where
  "put (k, Str v) = obj_str k v"
| "put (k, Null) = opt_str k None"
| "put (k, Bool b) = obj_bool k b"
| "put (k, Num n) = obj_num k n"
| "put (k, Strs ss) = strs k ss"

definition member_text :: "string \<times> json \<Rightarrow> string" where
  "member_text m = escape (fst m) @ '':'' @ value_text (snd m)"

lemma put_text: "put m w = \<lparr>buf = buf w @ (if first w then [] else '','') @ member_text m, first = False\<rparr>"
  by (cases m rule: put.cases)
    (simp_all add: obj_str_def opt_str_def obj_bool_def obj_num_def strs_def key_def push_str_def member_text_def)

lemma put_members:
  "buf (fold put ms w) =
     buf w @ (if first w then joined '','' (map member_text ms) else concat (map (\<lambda>m. '','' @ member_text m) ms))"
  by (induction ms arbitrary: w) (auto simp: put_text joined_Cons comp_def)

lemma read_member:
  "delimited r \<Longrightarrow> read_members (Suc n) (member_text (k, v) @ r) =
     (if r = ''}'' then Some [(k, v)]
      else if hd r = CHR '','' then map_option ((#) (k, v)) (read_members n (tl r)) else None)"
  using read_value_text [of r v]
  by (cases r) (auto simp: member_text_def escape_def read_string_escaped delimited_def)

lemma read_members_text:
  "length ms < n \<Longrightarrow>
   read_members n (member_text m @ concat (map (\<lambda>m. '','' @ member_text m) ms) @ ''}'') = Some (m # ms)"
proof (induction ms arbitrary: m n)
  case Nil
  then obtain l where "n = Suc l" by (cases n) auto
  then show ?case
    using read_member [of "''}''" l "fst m" "snd m"] by (simp add: delimited_def)
next
  case (Cons u ms)
  then obtain l where l: "n = Suc l" "length ms < l" by (cases n) auto
  then show ?case
    using Cons.IH [OF l(2), of u]
      read_member [of "concat (map (\<lambda>m. '','' @ member_text m) (u # ms)) @ ''}''" l "fst m" "snd m"]
    by (simp add: delimited_def)
qed

text \<open>
  C19: an object written member by member is read back as those members, in that order, whatever
  characters are in their keys and texts.
\<close>

theorem object_reads_back: "read_object (finish (fold put ms new_obj)) = Some ms"
proof (cases ms)
  case Nil
  then show ?thesis by (simp add: finish_def new_obj_def read_object_def)
next
  case (Cons m ms')
  have more: "length ms' \<le> length (concat (map (\<lambda>m. '','' @ member_text m) ms'))"
    by (induction ms') simp_all
  have "finish (fold put ms new_obj) = CHR ''{'' # member_text m @ concat (map (\<lambda>m. '','' @ member_text m) ms') @ ''}''"
    by (simp only: finish_def put_members) (simp add: new_obj_def Cons joined_Cons comp_def)
  moreover have "member_text m \<noteq> []" "hd (member_text m) = quote"
    by (simp_all add: member_text_def escape_def)
  ultimately show ?thesis
    using Cons more read_members_text [where ms = ms' and m = m]
    by (auto simp: read_object_def simp del: read_members.simps)
qed

end
