(* ===== verification/Json_Pieces.thy ===== *)
theory Json_Pieces
  imports Json
begin

text \<open>
  \<open>pieces\<close> of \<open>crates/pwrs-macros/src/json.rs\<close>: a descriptor split at its sentinels. An index that does
  not parse fails the compile: the panic is a value.
\<close>

datatype piece = Text string | ClrName nat | ValueType nat | Methods

datatype panic = Malformed_type string | Malformed_value_type string

definition piece_of :: "string \<Rightarrow> panic + piece" where
  "piece_of token =
     (case strip_prefix ''PWRS_CLR_'' token of
        Some n \<Rightarrow> (case parse_usize n of Some i \<Rightarrow> Inr (ClrName i) | None \<Rightarrow> Inl (Malformed_type token))
      | None \<Rightarrow>
          (case strip_prefix ''PWRS_VT_'' token of
             Some n \<Rightarrow>
               (case parse_usize n of Some i \<Rightarrow> Inr (ValueType i) | None \<Rightarrow> Inl (Malformed_value_type token))
           | None \<Rightarrow>
               if token = ''PWRS_METHODS'' then Inr Methods else Inr (Text (''@@'' @ token @ ''@@''))))"

function pieces_loop :: "string \<Rightarrow> piece list \<Rightarrow> panic + piece list" where
  "pieces_loop rest out =
     (case find_sub ''@@PWRS_'' rest of
        None \<Rightarrow> Inr (if rest \<noteq> [] then out @ [Text rest] else out)
      | Some start \<Rightarrow>
          (let out = (if start > 0 then out @ [Text (take start rest)] else out);
               after = drop (start + 2) rest
           in case find_sub ''@@'' after of
                None \<Rightarrow> Inr (out @ [Text (drop start rest)])
              | Some e \<Rightarrow>
                  (case piece_of (take e after) of
                     Inl p \<Rightarrow> Inl p
                   | Inr piece \<Rightarrow> pieces_loop (drop (e + 2) after) (out @ [piece]))))"
  by pat_completeness auto
termination
  by (relation "measure (\<lambda>(rest, out). length rest)") (auto dest: find_sub_less)

declare pieces_loop.simps [simp del]

definition pieces :: "string \<Rightarrow> panic + piece list" where
  "pieces json = pieces_loop json []"

section \<open>A descriptor from its pieces\<close>

primrec piece_text :: "piece \<Rightarrow> string" where
  "piece_text (Text t) = t"
| "piece_text (ClrName i) = clr_sentinel i"
| "piece_text (ValueType i) = value_type_sentinel i"
| "piece_text Methods = methods_sentinel"

definition is_text :: "piece \<Rightarrow> bool" where
  "is_text p = (case p of Text _ \<Rightarrow> True | _ \<Rightarrow> False)"

text \<open>Text without the start of a sentinel, no two texts together, and indices that are a \<open>usize\<close>.\<close>

fun separated :: "piece list \<Rightarrow> bool" where
  "separated [] = True"
| "separated (p # ps) =
     ((case p of
         Text t \<Rightarrow> t \<noteq> [] \<and> find_sub ''@@PWRS_'' t = None \<and> (ps = [] \<or> \<not> is_text (hd ps))
       | ClrName i \<Rightarrow> i < 2 ^ 64
       | ValueType i \<Rightarrow> i < 2 ^ 64
       | Methods \<Rightarrow> True) \<and> separated ps)"

text \<open>A needle whose proper ends are no starts of it is found first where it was put.\<close>

lemma find_sub_put:
  assumes "list_all (\<lambda>k. drop (length needle - k) needle \<noteq> take k needle) [1..<length needle]"
    and "needle \<noteq> []" and "find_sub needle t = None"
  shows "find_sub needle (t @ needle @ r) = Some (length t)"
  using assms(3)
proof (induction t)
  case Nil
  then show ?case
    using assms(2) by (cases needle) (simp_all add: prefix_def)
next
  case (Cons x t)
  have "\<not> prefix needle (x # t @ needle @ r)"
  proof
    assume "prefix needle (x # t @ needle @ r)"
    then have p: "prefix needle ((x # t) @ needle @ r)"
      by simp
    have "\<not> prefix needle (x # t)"
      using Cons.prems by (auto split: if_splits)
    then obtain u where u: "needle = (x # t) @ u" "prefix u (needle @ r)"
      using p [unfolded prefix_append [of needle "x # t"]] by blast
    define k where "k = length u"
    have "k \<noteq> 0"
      using u(1) \<open>\<not> prefix needle (x # t)\<close> by (auto simp: k_def)
    moreover have "k < length needle"
      using u(1) by (metis append_Cons k_def length_append length_Cons less_add_Suc2 add.commute)
    moreover have "drop (length needle - k) needle = u"
      using u(1) by (simp add: k_def)
    moreover have "take k needle = u"
      using take_length_prefix [OF u(2)] calculation(2) by (simp add: k_def)
    moreover have "drop (length needle - k) needle \<noteq> take k needle" if "0 < k" "k < length needle"
      using assms(1) that by (auto simp: list_all_iff)
    ultimately show False
      by simp
  qed
  then show ?case
    using Cons by (auto split: if_splits)
qed

lemma find_sub_at_token: "CHR ''@'' \<notin> set t \<Longrightarrow> find_sub ''@@'' (t @ ''@@'' @ r) = Some (length t)"
  by (induction t) auto

lemma find_start:
  "find_sub ''@@PWRS_'' t = None \<Longrightarrow> find_sub ''@@PWRS_'' (t @ ''@@PWRS_'' @ r) = Some (length t)"
  by (rule find_sub_put) simp_all

lemma decimal_no_at: "CHR ''@'' \<notin> set (decimal n)"
  using decimal_digits [of "CHR ''@''" n] by auto

text \<open>What a sentinel holds between its marks.\<close>

definition token_of :: "piece \<Rightarrow> string" where
  "token_of p =
     (case p of
        ClrName i \<Rightarrow> ''CLR_'' @ decimal i
      | ValueType i \<Rightarrow> ''VT_'' @ decimal i
      | _ \<Rightarrow> ''METHODS'')"

lemma sentinel_text: "\<not> is_text p \<Longrightarrow> piece_text p = ''@@PWRS_'' @ token_of p @ ''@@''"
  by (cases p)
    (simp_all add: is_text_def token_of_def clr_sentinel_def value_type_sentinel_def methods_sentinel_def)

lemma token_no_at: "CHR ''@'' \<notin> set (token_of p)"
  by (cases p) (simp_all add: token_of_def decimal_no_at)

lemma token_parses: "\<not> is_text p \<Longrightarrow> separated [p] \<Longrightarrow> piece_of (''PWRS_'' @ token_of p) = Inr p"
  by (cases p) (simp_all add: is_text_def token_of_def piece_of_def strip_prefix_def parse_usize_decimal)

lemma pieces_loop_sentinel:
  assumes "\<not> is_text p" and "separated [p]" and "find_sub ''@@PWRS_'' t = None"
  shows "pieces_loop (t @ piece_text p @ r) out
    = pieces_loop r (out @ (if t = [] then [] else [Text t]) @ [p])"
proof -
  have start: "find_sub ''@@PWRS_'' (t @ piece_text p @ r) = Some (length t)"
    using find_start [OF assms(3), of "token_of p @ ''@@'' @ r"] by (simp add: sentinel_text assms(1))
  have after: "drop (length t + 2) (t @ piece_text p @ r) = (''PWRS_'' @ token_of p) @ ''@@'' @ r"
    by (simp add: sentinel_text assms(1))
  have "find_sub ''@@'' ((''PWRS_'' @ token_of p) @ ''@@'' @ r) = Some (length (''PWRS_'' @ token_of p))"
    by (rule find_sub_at_token) (simp add: token_no_at)
  then show ?thesis
    by (subst pieces_loop.simps)
      (simp only: start after option.case Let_def, simp add: token_parses [OF assms(1,2), simplified])
qed

lemma separated_one: "separated (p # ps) \<Longrightarrow> \<not> is_text p \<Longrightarrow> separated [p]"
  by (cases p) (simp_all add: is_text_def)

lemma pieces_loop_texts: "separated ps \<Longrightarrow> pieces_loop (concat (map piece_text ps)) out = Inr (out @ ps)"
proof (induction ps arbitrary: out rule: induct_list012)
  case 1
  show ?case by (simp add: pieces_loop.simps)
next
  case (2 p)
  show ?case
  proof (cases "is_text p")
    case True
    then obtain t where "p = Text t" "t \<noteq> []" "find_sub ''@@PWRS_'' t = None"
      using 2 by (cases p) (auto simp: is_text_def)
    then show ?thesis by (simp add: pieces_loop.simps [of t])
  next
    case False
    then show ?thesis
      using pieces_loop_sentinel [OF False 2, of "[]" "[]" out] by (simp add: pieces_loop.simps [of "[]"])
  qed
next
  case (3 p q ps)
  show ?case
  proof (cases "is_text p")
    case True
    then obtain t where p: "p = Text t" "t \<noteq> []" "find_sub ''@@PWRS_'' t = None" "\<not> is_text q"
      using 3(3) by (cases p) (auto simp: is_text_def)
    then show ?thesis
      using pieces_loop_sentinel [OF p(4) separated_one p(3), of ps "concat (map piece_text ps)" out] 3 p by simp
  next
    case False
    then show ?thesis
      using pieces_loop_sentinel [OF False separated_one, of "q # ps" "[]" "concat (map piece_text (q # ps))" out] 3 False by simp
  qed
qed

text \<open>
  A descriptor is split into exactly the pieces it was put together from: each sentinel becomes the
  reference it stands for, with its index, and the text between them is kept.
\<close>

lemma pieces_of_texts: "separated ps \<Longrightarrow> pieces (concat (map piece_text ps)) = Inr ps"
  by (simp add: pieces_def pieces_loop_texts)

lemma pieces_of_texts_witness:
  "pieces ''{@@PWRS_CLR_12@@:@@PWRS_METHODS@@'' = Inr [Text ''{'', ClrName 12, Text '':'', Methods]"
proof -
  have "decimal 12 = ''12''"
    by code_simp
  then show ?thesis
    using pieces_of_texts [of "[Text ''{'', ClrName 12, Text '':'', Methods]"]
    by (simp add: is_text_def clr_sentinel_def methods_sentinel_def)
qed

end
