(* ===== verification/Jobs.thy ===== *)
theory Jobs
  imports Ps_Records Transitions
begin

text \<open>
  \<open>crates/pwrs/src/job.rs\<close>: the job of a cmdlet declared \<open>as_job = "runtime"\<close>. The pipeline thread runs
  \<open>JobLink::phase\<close> for each phase the engine calls and sends the records over a channel; the job's
  thread runs the invocation's phases; a stop comes from any other thread. A cmdlet's own phases
  return what they like: their results are the steps' choice. \<open>'r\<close> is a record's parameters.
\<close>

section \<open>State\<close>

datatype ps_phase = Begin_phase | Process_phase | End_phase

datatype 'r invoked = Begin_job | Process_job 'r | End_job

text \<open>
  Where the job's thread is: not made; made; in \<open>begin_job\<close>; before the load of the flag at the top of
  the loop; in \<open>recv_timeout\<close>; in \<open>process_job\<close>; after the loop; in \<open>end_job\<close>; writing an error of a phase
  before it goes on; back from the work, with its failure; and with the job ended.
\<close>

datatype 'r job_at =
    Unmade | Spawned | Beginning | Polling | Receiving | Processing 'r | Leaving | Closing
  | Reporting ps_error "'r job_at" | Returned "ps_error option" | Finished "ps_error option"

text \<open>
  Where the pipeline thread is in \<open>phase\<close>: outside; at its start; with the job just started and not yet
  written; at its match on the phase; and done with the instance. The record is the cmdlet's parameters at the call.
\<close>

datatype 'r link_at = Outside | Entered ps_phase 'r | Showing ps_phase 'r | Feeding ps_phase 'r | Dropped

record 'r job_state =
  link_started :: bool
  records_open :: bool
  link :: "'r link_at"
  queue :: "'r list"
  stop_flag :: bool
  thread_at :: "'r job_at"
  invoked :: "'r invoked list"
  results :: "(ps_error + unit) list"
  error_stream :: "ps_error list"
  sent :: "'r list"

definition fresh_link :: "'r job_state" where
  "fresh_link =
     \<lparr>link_started = False, records_open = False, link = Outside, queue = [], stop_flag = False,
      thread_at = Unmade, invoked = [], results = [], error_stream = [], sent = []\<rparr>"

text \<open>The receiver lives in the work: from the thread's making to the work's return.\<close>

fun receives :: "'r job_at \<Rightarrow> bool" where
  "receives Unmade = False"
| "receives (Returned f) = False"
| "receives (Finished f) = False"
| "receives p = True"

section \<open>Operations\<close>

text \<open>\<open>asked\<close>: what the caller gave, read once.\<close>

definition asked :: "bool option \<Rightarrow> ps_error + bool \<Rightarrow> (ps_error + bool) \<times> bool option" where
  "asked known read_switch =
     (case known of
        Some b \<Rightarrow> (Inr b, known)
      | None \<Rightarrow> (case read_switch of Inl e \<Rightarrow> (Inl e, None) | Inr b \<Rightarrow> (Inr b, Some b)))"

definition details_text :: "ps_error \<Rightarrow> string" where
  "details_text e = (case details e of Some d \<Rightarrow> d | None \<Rightarrow> [])"

text \<open>What \<open>finish\<close> passes to the engine: failed or not, the message and the details.\<close>

definition finish_args :: "ps_error option \<Rightarrow> bool \<times> string \<times> string" where
  "finish_args failure =
     (case failure of
        None \<Rightarrow> (False, [], [])
      | Some e \<Rightarrow> (True, show_error e, details_text e))"

definition panic_error :: "string \<Rightarrow> ps_error" where
  "panic_error m = new_error NotSpecified ''PwrsJobPanic'' (''the job''@ [CHR 0x27] @ ''s work panicked: '' @ m)"

definition thread_error :: "string \<Rightarrow> ps_error" where
  "thread_error e =
     new_error ResourceUnavailable ''PwrsJobThread'' (''the job''@ [CHR 0x27] @ ''s thread could not start: '' @ e)"

definition goes :: "'r job_at \<Rightarrow> 'r job_state \<Rightarrow> 'r job_state" where
  "goes p s = s\<lparr>thread_at := p\<rparr>"

definition invokes :: "'r invoked \<Rightarrow> 'r job_state \<Rightarrow> 'r job_state" where
  "invokes c s = s\<lparr>invoked := invoked s @ [c]\<rparr>"

text \<open>\<open>phase\<close>: a phase's result, and where the thread goes on unless it ends the job.\<close>

definition phase :: "'r job_at \<Rightarrow> ps_error + unit \<Rightarrow> 'r job_state \<Rightarrow> 'r job_state" where
  "phase onward res s =
     (let s = s\<lparr>results := results s @ [res]\<rparr>
      in case res of
           Inr _ \<Rightarrow> goes onward s
         | Inl e \<Rightarrow> if is_terminating e then goes (Returned (Some e)) s else goes (Reporting e onward) s)"

text \<open>\<open>send_record\<close>: the channel takes a record while the work has its receiver.\<close>

definition send_record :: "'r \<Rightarrow> 'r job_state \<Rightarrow> bool \<times> 'r job_state" where
  "send_record r s =
     (if receives (thread_at s) then (True, s\<lparr>queue := queue s @ [r], sent := sent s @ [r]\<rparr>) else (False, s))"

text \<open>The match of \<open>JobLink::phase\<close>.\<close>

definition feed :: "ps_phase \<Rightarrow> 'r \<Rightarrow> 'r job_state \<Rightarrow> 'r job_state" where
  "feed ph r s =
     (case ph of
        Process_phase \<Rightarrow>
          if records_open s
          then (case send_record r s of (True, s') \<Rightarrow> s' | (False, s') \<Rightarrow> s'\<lparr>records_open := False\<rparr>)
          else s
      | End_phase \<Rightarrow> s\<lparr>records_open := False\<rparr>
      | Begin_phase \<Rightarrow> s)"

section \<open>Steps\<close>

datatype who = Pipeline_thread | Job_thread | Stopper

inductive link_step :: "'r job_state \<Rightarrow> 'r job_state \<Rightarrow> bool" where
  enter: "link s = Outside \<Longrightarrow> link_step s (s\<lparr>link := Entered ph r\<rparr>)"
| starts:
    "link s = Entered ph r \<Longrightarrow> \<not> link_started s \<Longrightarrow>
     link_step s (goes Spawned (s\<lparr>link_started := True, records_open := True, link := Showing ph r\<rparr>))"
| refused:
    "link s = Entered ph r \<Longrightarrow> \<not> link_started s \<Longrightarrow>
     link_step s (s\<lparr>link_started := True, link := Outside\<rparr>)"
| no_thread:
    "link s = Entered ph r \<Longrightarrow> \<not> link_started s \<Longrightarrow>
     link_step s (goes (Finished (Some (thread_error e))) (s\<lparr>link_started := True, link := Outside\<rparr>))"
| started_before: "link s = Entered ph r \<Longrightarrow> link_started s \<Longrightarrow> link_step s (s\<lparr>link := Feeding ph r\<rparr>)"
| shown: "link s = Showing ph r \<Longrightarrow> link_step s (s\<lparr>link := Feeding ph r\<rparr>)"
| not_shown: "link s = Showing ph r \<Longrightarrow> link_step s (s\<lparr>link := Outside\<rparr>)"
| feeds: "link s = Feeding ph r \<Longrightarrow> link_step s ((feed ph r s)\<lparr>link := Outside\<rparr>)"
| freed: "link s = Outside \<Longrightarrow> link_step s (s\<lparr>link := Dropped, records_open := False\<rparr>)"

inductive thread_step :: "'r job_state \<Rightarrow> 'r job_state \<Rightarrow> bool" where
  begins: "thread_at s = Spawned \<Longrightarrow> thread_step s (goes Beginning (invokes Begin_job s))"
| begun: "thread_at s = Beginning \<Longrightarrow> thread_step s (phase Polling res s)"
| stop_seen: "thread_at s = Polling \<Longrightarrow> stop_flag s \<Longrightarrow> thread_step s (goes (Returned None) s)"
| no_stop: "thread_at s = Polling \<Longrightarrow> \<not> stop_flag s \<Longrightarrow> thread_step s (goes Receiving s)"
| received:
    "thread_at s = Receiving \<Longrightarrow> queue s = r # rest \<Longrightarrow>
     thread_step s (goes (Processing r) (invokes (Process_job r) (s\<lparr>queue := rest\<rparr>)))"
| timed_out: "thread_at s = Receiving \<Longrightarrow> queue s = [] \<Longrightarrow> records_open s \<Longrightarrow> thread_step s (goes Polling s)"
| disconnected:
    "thread_at s = Receiving \<Longrightarrow> queue s = [] \<Longrightarrow> \<not> records_open s \<Longrightarrow> thread_step s (goes Leaving s)"
| processed: "thread_at s = Processing r \<Longrightarrow> thread_step s (phase Polling res s)"
| stopped_late: "thread_at s = Leaving \<Longrightarrow> stop_flag s \<Longrightarrow> thread_step s (goes (Returned None) s)"
| closes: "thread_at s = Leaving \<Longrightarrow> \<not> stop_flag s \<Longrightarrow> thread_step s (goes Closing (invokes End_job s))"
| closed: "thread_at s = Closing \<Longrightarrow> thread_step s (phase (Returned None) res s)"
| reported:
    "thread_at s = Reporting e p \<Longrightarrow> thread_step s (goes p (s\<lparr>error_stream := error_stream s @ [e]\<rparr>))"
| not_reported: "thread_at s = Reporting e p \<Longrightarrow> thread_step s (goes (Returned (Some e')) s)"
| panicked:
    "thread_at s = Beginning \<or> thread_at s = Processing r \<or> thread_at s = Closing \<Longrightarrow>
     thread_step s (goes (Returned (Some (panic_error m))) s)"
| finishes: "thread_at s = Returned f \<Longrightarrow> thread_step s (goes (Finished f) s)"

inductive job_step :: "'r job_state \<Rightarrow> who \<Rightarrow> 'r job_state \<Rightarrow> bool" where
  by_pipeline: "link_step s s' \<Longrightarrow> job_step s Pipeline_thread s'"
| by_job: "thread_step s s' \<Longrightarrow> job_step s Job_thread s'"
| by_stopper: "job_step s Stopper (s\<lparr>stop_flag := True\<rparr>)"

inductive_cases link_stepE: "link_step s s'"
inductive_cases thread_stepE: "thread_step s s'"
inductive_cases job_stepE: "job_step s t s'"

lemmas job_ops = goes_def invokes_def phase_def send_record_def feed_def Let_def

section \<open>What is invoked\<close>

fun records_of :: "'r invoked list \<Rightarrow> 'r list" where
  "records_of [] = []"
| "records_of (Process_job r # cs) = r # records_of cs"
| "records_of (c # cs) = records_of cs"

lemma records_of_append [simp]: "records_of (cs @ ds) = records_of cs @ records_of ds"
  by (induction cs rule: records_of.induct) simp_all

lemma records_of_map [simp]: "records_of (map Process_job rs) = rs"
  by (induction rs) simp_all

definition running :: "'r job_state \<Rightarrow> bool" where
  "running s \<longleftrightarrow> (\<exists>rs. invoked s = Begin_job # map Process_job rs)"

definition completed :: "'r job_state \<Rightarrow> bool" where
  "completed s \<longleftrightarrow> (\<exists>rs. invoked s = Begin_job # map Process_job rs @ [End_job]) \<and> queue s = []
     \<and> \<not> records_open s"

fun in_shape :: "'r job_at \<Rightarrow> 'r job_state \<Rightarrow> bool" where
  "in_shape Unmade s = (invoked s = [] \<and> queue s = [])"
| "in_shape Spawned s = (invoked s = [])"
| "in_shape Leaving s = (running s \<and> queue s = [] \<and> \<not> records_open s)"
| "in_shape Closing s = completed s"
| "in_shape (Reporting e p) s = ((p = Polling \<or> p = Returned None) \<and> in_shape p s)"
| "in_shape (Returned f) s =
     ((invoked s = [] \<or> running s \<or> completed s) \<and> (f = None \<longrightarrow> stop_flag s \<or> completed s))"
| "in_shape (Finished f) s =
     ((invoked s = [] \<or> running s \<or> completed s) \<and> (f = None \<longrightarrow> stop_flag s \<or> completed s))"
| "in_shape p s = running s"

definition order_inv :: "'r job_state \<Rightarrow> bool" where
  "order_inv s \<longleftrightarrow> sent s = records_of (invoked s) @ queue s \<and> in_shape (thread_at s) s
     \<and> (\<not> link_started s \<longrightarrow> thread_at s = Unmade \<and> \<not> records_open s)
     \<and> (thread_at s = Unmade \<longrightarrow> link_started s \<longrightarrow> \<not> records_open s)"

lemma in_shape_more:
  "in_shape p (s\<lparr>link := l\<rparr>) = in_shape p s"
  "in_shape p (s\<lparr>link_started := b\<rparr>) = in_shape p s"
  "in_shape p (s\<lparr>results := rs\<rparr>) = in_shape p s"
  "in_shape p (s\<lparr>error_stream := es\<rparr>) = in_shape p s"
  "in_shape p (s\<lparr>thread_at := q\<rparr>) = in_shape p s"
  by (induction p s rule: in_shape.induct) (simp_all add: running_def completed_def)

lemma in_shape_mono:
  "in_shape p s \<Longrightarrow> in_shape p (s\<lparr>records_open := False\<rparr>)" "in_shape p s \<Longrightarrow> in_shape p (s\<lparr>stop_flag := True\<rparr>)"
  by (induction p s rule: in_shape.induct) (auto simp: running_def completed_def)

lemma in_shape_sent:
  "in_shape p s \<Longrightarrow> receives p \<Longrightarrow> records_open s \<Longrightarrow> in_shape p (s\<lparr>queue := q, sent := rs\<rparr>)"
  by (induction p s rule: in_shape.induct) (auto simp: running_def completed_def)

lemma link_step_order:
  assumes "order_inv s" and "link_step s s'"
  shows "order_inv s'"
  using assms(2,1)
  by (cases rule: link_step.cases)
    (auto simp: order_inv_def job_ops in_shape_more in_shape_mono in_shape_sent running_def
      split: ps_phase.splits if_splits)

lemma thread_step_order:
  assumes "order_inv s" and "thread_step s s'"
  shows "order_inv s'"
  using assms(2,1)
  by (cases rule: thread_step.cases)
    (auto simp: order_inv_def job_ops in_shape_more running_def completed_def
      intro: exI [of _ "_ @ [_]"] split: sum.splits if_splits)

section \<open>The error stream\<close>

definition errors_of :: "(ps_error + unit) list \<Rightarrow> ps_error list" where
  "errors_of rs = concat (map (\<lambda>r. case r of Inl e \<Rightarrow> if is_terminating e then [] else [e] | Inr _ \<Rightarrow> []) rs)"

definition none_ends :: "(ps_error + unit) list \<Rightarrow> bool" where
  "none_ends rs = list_all (\<lambda>r. case r of Inl e \<Rightarrow> \<not> is_terminating e | Inr _ \<Rightarrow> True) rs"

fun errors_shape :: "'r job_at \<Rightarrow> 'r job_state \<Rightarrow> bool" where
  "errors_shape (Reporting e p) s =
     (errors_of (results s) = error_stream s @ [e] \<and> none_ends (results s) \<and> (p = Polling \<or> p = Returned None))"
| "errors_shape (Returned (Some e)) s = prefix (error_stream s) (errors_of (results s))"
| "errors_shape (Finished (Some e)) s = prefix (error_stream s) (errors_of (results s))"
| "errors_shape p s = (errors_of (results s) = error_stream s \<and> none_ends (results s))"

lemma errors_of_simps [simp]:
  "errors_of [] = []" "errors_of (rs @ qs) = errors_of rs @ errors_of qs"
  "errors_of [Inl e] = (if is_terminating e then [] else [e])" "errors_of [Inr u] = []"
  by (simp_all add: errors_of_def)

lemma none_ends_simps [simp]:
  "none_ends []" "none_ends (rs @ qs) \<longleftrightarrow> none_ends rs \<and> none_ends qs"
  "none_ends [Inl e] \<longleftrightarrow> \<not> is_terminating e" "none_ends [Inr u]"
  by (simp_all add: none_ends_def)

lemma errors_shape_more:
  "errors_shape p (s\<lparr>link := l\<rparr>) = errors_shape p s"
  "errors_shape p (s\<lparr>link_started := b\<rparr>) = errors_shape p s"
  "errors_shape p (s\<lparr>records_open := b\<rparr>) = errors_shape p s"
  "errors_shape p (s\<lparr>queue := q\<rparr>) = errors_shape p s"
  "errors_shape p (s\<lparr>sent := q\<rparr>) = errors_shape p s"
  "errors_shape p (s\<lparr>stop_flag := b\<rparr>) = errors_shape p s"
  "errors_shape p (s\<lparr>thread_at := a\<rparr>) = errors_shape p s"
  "errors_shape p (s\<lparr>invoked := cs\<rparr>) = errors_shape p s"
  by (induction p s rule: errors_shape.induct) simp_all

lemma errors_shape_finished: "errors_shape (Finished f) s = errors_shape (Returned f) s"
  by (cases f) simp_all

lemma errors_step:
  assumes "order_inv s" and "errors_shape (thread_at s) s" and "job_step s t s'"
  shows "errors_shape (thread_at s') s'"
  using assms(3,1,2)
proof (cases rule: job_step.cases)
  case by_pipeline
  show ?thesis
    using by_pipeline(2) assms(1,2) by (cases rule: link_step.cases)
      (auto simp: order_inv_def job_ops errors_shape_more split: ps_phase.splits)
next
  case by_job
  show ?thesis
    using by_job(2) assms(2) by (cases rule: thread_step.cases)
      (auto simp: job_ops errors_shape_more errors_shape_finished prefix_def split: sum.splits if_splits)
qed (simp add: errors_shape_more)

section \<open>Every run\<close>

definition job_inv :: "'r job_state \<Rightarrow> bool" where
  "job_inv s \<longleftrightarrow> order_inv s \<and> errors_shape (thread_at s) s"

lemma order_inv_stop: "order_inv s \<Longrightarrow> order_inv (s\<lparr>stop_flag := True\<rparr>)"
  by (simp add: order_inv_def in_shape_mono)

lemma job_inv_step:
  assumes "job_inv s" and "job_step s t s'"
  shows "job_inv s'"
proof -
  have "order_inv s'"
    using assms(2) assms(1) link_step_order [of s s'] thread_step_order [of s s'] order_inv_stop [of s]
    unfolding job_inv_def by (cases rule: job_step.cases) simp_all
  then show ?thesis
    using assms errors_step [of s t s'] by (simp add: job_inv_def)
qed

interpretation job: protocol fresh_link job_step job_inv
proof
  show "job_inv fresh_link"
    by (simp add: job_inv_def order_inv_def fresh_link_def)
qed (rule job_inv_step)

text \<open>
  C20: the job of an invocation runs its phases as the pipeline would: \<open>begin_job\<close> first, then \<open>process_job\<close>
  once for each record the pipeline sent, in the order sent, and \<open>end_job\<close> only after the last of
  them, once the input has ended.
\<close>

theorem phases_in_order:
  assumes "reaches job_step fresh_link s"
  shows "prefix (invoked s) (Begin_job # map Process_job (sent s) @ [End_job])"
proof -
  have inv: "sent s = records_of (invoked s) @ queue s" "in_shape (thread_at s) s"
    using job.inv_reached [OF assms] by (simp_all add: job_inv_def order_inv_def)
  have "in_shape p s \<Longrightarrow> invoked s = [] \<or> running s \<or> completed s" for p
    by (induction p s rule: in_shape.induct) auto
  then consider "invoked s = []" | "running s" | "completed s"
    using inv(2) by blast
  then show ?thesis
    using inv(1) by cases (auto simp: running_def completed_def)
qed

text \<open>
  C21: how a job ends. Completed, with no stop requested, it has run every phase for every record; no
  phase returned a terminating error, and the errors they returned are the job's error stream, in
  order. Failed, its error stream is still the first of those errors.
\<close>

theorem job_outcome:
  assumes "reaches job_step fresh_link s" and "thread_at s = Finished f"
  shows "case f of
      None \<Rightarrow> (if stop_flag s then True else invoked s = Begin_job # map Process_job (sent s) @ [End_job])
        \<and> none_ends (results s) \<and> error_stream s = errors_of (results s)
    | Some e \<Rightarrow> prefix (error_stream s) (errors_of (results s))"
proof -
  have inv: "sent s = records_of (invoked s) @ queue s" "in_shape (thread_at s) s" "errors_shape (thread_at s) s"
    using job.inv_reached [OF assms(1)] by (simp_all add: job_inv_def order_inv_def)
  show ?thesis
    using inv assms(2) by (cases f) (auto simp: completed_def)
qed

section \<open>The end of the job\<close>

text \<open>No record comes any more: the input is closed and no job can be started.\<close>

definition input_closed :: "'r job_state \<Rightarrow> bool" where
  "input_closed s \<longleftrightarrow> \<not> records_open s \<and> (link_started s \<or> link s = Dropped)"

fun rests :: "'r job_at \<Rightarrow> bool" where
  "rests Unmade = True"
| "rests (Finished f) = True"
| "rests p = False"

text \<open>The most steps the thread has left with \<open>n\<close> records in the channel.\<close>

fun work_left :: "'r job_at \<Rightarrow> nat \<Rightarrow> nat" where
  "work_left Spawned n = 4 * n + 10"
| "work_left Beginning n = 4 * n + 9"
| "work_left (Processing r) n = 4 * n + 9"
| "work_left Polling n = 4 * n + 7"
| "work_left Receiving n = 4 * n + 6"
| "work_left Leaving n = 5"
| "work_left Closing n = 4"
| "work_left (Reporting e p) n = Suc (work_left p n)"
| "work_left (Returned f) n = 2"
| "work_left p n = 0"

lemma closed_step: "input_closed s \<Longrightarrow> job_step s t s' \<Longrightarrow> input_closed s'"
  by (auto simp: input_closed_def job_ops elim!: job_stepE link_stepE thread_stepE
      split: ps_phase.splits sum.splits if_splits)

lemma closed_pipeline_step:
  "input_closed s \<Longrightarrow> link_step s s' \<Longrightarrow> thread_at s' = thread_at s \<and> queue s' = queue s"
  by (auto simp: input_closed_def job_ops elim!: link_stepE split: ps_phase.splits)

lemma thread_step_left:
  "input_closed s \<Longrightarrow> job_inv s \<Longrightarrow> thread_step s s' \<Longrightarrow> \<not> rests (thread_at s') \<Longrightarrow>
   work_left (thread_at s') (length (queue s')) < work_left (thread_at s) (length (queue s))"
  by (auto simp: input_closed_def job_inv_def order_inv_def job_ops elim!: thread_stepE
      split: sum.splits if_splits)

lemma thread_can_step: "\<not> rests (thread_at s) \<Longrightarrow> \<exists>s'. thread_step s s'"
proof (cases "thread_at s")
  case Receiving
  then show ?thesis
    by (cases "queue s"; cases "records_open s") (auto intro: thread_step.intros)
next
  case Polling
  then show ?thesis
    by (cases "stop_flag s") (auto intro: thread_step.intros)
next
  case Leaving
  then show ?thesis
    by (cases "stop_flag s") (auto intro: thread_step.intros)
qed (auto intro: thread_step.intros)

interpretation ending: wait_free "fresh_link\<lparr>link := Dropped\<rparr>" job_step "\<lambda>s. job_inv s \<and> input_closed s"
  "\<lambda>s t. t = Job_thread \<longrightarrow> rests (thread_at s)"
  "\<lambda>s t. if t = Job_thread then work_left (thread_at s) (length (queue s)) else 0"
proof
  show "job_inv (fresh_link\<lparr>link := Dropped\<rparr>) \<and> input_closed (fresh_link\<lparr>link := Dropped\<rparr>)"
    by (simp add: job_inv_def order_inv_def fresh_link_def input_closed_def)
next
  fix s t s'
  assume inv: "job_inv s \<and> input_closed s" and step: "job_step s t s'"
  show "job_inv s' \<and> input_closed s'"
    using inv step job_inv_step closed_step by blast
  show "(if t = Job_thread then work_left (thread_at s') (length (queue s')) else 0)
      < (if t = Job_thread then work_left (thread_at s) (length (queue s)) else 0)"
    if "\<not> (t = Job_thread \<longrightarrow> rests (thread_at s))" "\<not> (t = Job_thread \<longrightarrow> rests (thread_at s'))"
    using that inv step thread_step_left by (auto elim: job_stepE)
next
  fix s u s' t
  assume "job_inv s \<and> input_closed s" "job_step s u s'" "u \<noteq> t"
  then show "(if t = Job_thread then work_left (thread_at s') (length (queue s')) else 0)
      = (if t = Job_thread then work_left (thread_at s) (length (queue s)) else 0)
    \<and> (t = Job_thread \<longrightarrow> rests (thread_at s')) = (t = Job_thread \<longrightarrow> rests (thread_at s))"
    using closed_pipeline_step [of s s'] by (auto elim!: job_stepE)
next
  show "\<exists>s'. job_step s t s'" if "\<not> (t = Job_thread \<longrightarrow> rests (thread_at s))" for s t
    using that thread_can_step by (auto intro: by_job)
qed

text \<open>
  C22: the job's thread always has a step to make until the job has ended, and once no record can come
  it ends the job within \<open>4 n + 11\<close> of its own steps, where \<open>n\<close> records wait in the channel, whatever
  the other threads do: a phase that returns is one step.
\<close>

theorem job_ends:
  assumes "reaches job_step fresh_link s" and "\<not> rests (thread_at s)"
  shows "(\<exists>s'. job_step s Job_thread s')
    \<and> (input_closed s \<longrightarrow> path job_step s p \<longrightarrow> 4 * length (queue s) + 11 \<le> steps_of Job_thread p \<longrightarrow>
        (\<exists>m\<in>set p. rests (thread_at (snd m))))"
proof -
  have inv: "job_inv s"
    by (rule job.inv_reached [OF assms(1)])
  have "in_shape q s \<Longrightarrow> work_left q n \<le> 4 * n + 10" for q n
    by (induction q n rule: work_left.induct) auto
  then have "work_left (thread_at s) (length (queue s)) \<le> 4 * length (queue s) + 10"
    using inv by (simp add: job_inv_def order_inv_def)
  then show ?thesis
    using ending.ends_from [of s Job_thread p] inv assms(2) thread_can_step [OF assms(2)]
    by (auto intro: job_step.by_job)
qed

section \<open>A run\<close>

lemma pipeline_moves: "reaches job_step x s \<Longrightarrow> link_step s s' \<Longrightarrow> reaches job_step x s'"
  by (erule reaches_step) (rule by_pipeline)

lemma job_moves: "reaches job_step x s \<Longrightarrow> thread_step s s' \<Longrightarrow> reaches job_step x s'"
  by (erule reaches_step) (rule by_job)

text \<open>One record, whose phase fails without ending the job, and the end of the input.\<close>

definition one_record :: "nat job_state" where
  "one_record =
     \<lparr>link_started = True, records_open = False, link = Outside, queue = [7], stop_flag = False,
      thread_at = Spawned, invoked = [], results = [], error_stream = [], sent = [7]\<rparr>"

lemma one_record_reached: "reaches job_step fresh_link one_record"
proof -
  note more = pipeline_moves
  let ?a = "fresh_link\<lparr>link := Entered Process_phase (7 :: nat)\<rparr>"
  let ?b = "goes Spawned (?a\<lparr>link_started := True, records_open := True, link := Showing Process_phase (7 :: nat)\<rparr>)"
  let ?c = "?b\<lparr>link := Feeding Process_phase (7 :: nat)\<rparr>"
  let ?d = "(feed Process_phase (7 :: nat) ?c)\<lparr>link := Outside\<rparr>"
  let ?e = "?d\<lparr>link := Entered End_phase (7 :: nat)\<rparr>"
  let ?f = "?e\<lparr>link := Feeding End_phase (7 :: nat)\<rparr>"
  let ?g = "(feed End_phase (7 :: nat) ?f)\<lparr>link := Outside\<rparr>"
  have "reaches job_step fresh_link ?b"
    by (intro more [OF more [OF reaches_start enter] starts]) (simp_all add: fresh_link_def)
  then have "reaches job_step fresh_link ?d"
    by (intro more [OF more [OF _ shown] feeds]) (simp_all add: job_ops)
  then have "reaches job_step fresh_link ?g"
    by (intro more [OF more [OF more [OF _ enter] started_before] feeds]) (simp_all add: job_ops fresh_link_def)
  moreover have "?g = one_record"
    by (simp add: job_ops fresh_link_def one_record_def)
  ultimately show ?thesis by simp
qed

lemma job_ends_witness: "\<exists>s'. job_step one_record Job_thread s'"
  using job_ends [OF one_record_reached] by (simp add: one_record_def)

definition record_failed :: "nat job_state" where
  "record_failed =
     \<lparr>link_started = True, records_open = False, link = Outside, queue = [], stop_flag = False,
      thread_at = Finished None, invoked = [Begin_job, Process_job 7, End_job],
      results = [Inr (), Inl (thread_error []), Inr ()], error_stream = [thread_error []], sent = [7]\<rparr>"

lemma record_failed_reached: "reaches job_step fresh_link record_failed"
proof -
  note more = job_moves
  let ?a = "phase Polling (Inr ()) (goes Beginning (invokes Begin_job one_record))"
  let ?b = "goes (Processing 7) (invokes (Process_job 7) ((goes Receiving ?a)\<lparr>queue := []\<rparr>))"
  let ?c = "phase Polling (Inl (thread_error [])) ?b"
  let ?d = "goes Polling (?c\<lparr>error_stream := error_stream ?c @ [thread_error []]\<rparr>)"
  let ?e = "goes Leaving (goes Receiving ?d)"
  let ?f = "phase (Returned None) (Inr ()) (goes Closing (invokes End_job ?e))"
  have te: "\<not> is_terminating (thread_error [])"
    by (simp add: thread_error_def new_error_def)
  have "reaches job_step fresh_link ?a"
    by (intro more [OF more [OF one_record_reached begins] begun]) (simp_all add: job_ops one_record_def)
  then have "reaches job_step fresh_link ?b"
    by (intro more [OF more [OF _ no_stop] received]) (simp_all add: job_ops one_record_def)
  then have "reaches job_step fresh_link ?d"
    by (intro more [OF more [OF _ processed] reported]) (simp_all add: job_ops te)
  then have "reaches job_step fresh_link ?e"
    by (intro more [OF more [OF _ no_stop] disconnected]) (simp_all add: job_ops te one_record_def)
  then have "reaches job_step fresh_link (goes (Finished None) ?f)"
    by (intro more [OF more [OF more [OF _ closes] closed] finishes]) (simp_all add: job_ops te one_record_def)
  moreover have "goes (Finished None) ?f = record_failed"
    by (simp add: job_ops te one_record_def record_failed_def)
  ultimately show ?thesis by simp
qed

lemma phases_in_order_witness: "prefix (invoked record_failed) [Begin_job, Process_job 7, End_job]"
  using phases_in_order [OF record_failed_reached] by (simp add: record_failed_def)

lemma job_outcome_witness: "error_stream record_failed = errors_of (results record_failed)"
  using job_outcome [OF record_failed_reached, of None] by (simp add: record_failed_def)

end
