(* ===== verification/Bit_Masks.thy ===== *)
theory Bit_Masks
  imports Simd
begin

unbundle bit_operations_syntax

text \<open>
  Masks of vector compares: the positions of a \<open>u64\<close>'s set bits, the counts \<open>core\<close> gives of them, the
  steps that clear the lowest or the highest, and the instructions that pack a compare into a mask.
\<close>

section \<open>Set bits\<close>

definition ones :: "u64 \<Rightarrow> nat list" where
  "ones m = filter (bit m) [0..<64]"

definition count_ones :: "u64 \<Rightarrow> nat" where
  "count_ones m = length (filter (bit m) [0..<64])"

definition trailing_zeros :: "u64 \<Rightarrow> nat" where
  "trailing_zeros m = length (takeWhile (\<lambda>i. \<not> bit m i) [0..<64])"

definition leading_zeros :: "u64 \<Rightarrow> nat" where
  "leading_zeros m = length (takeWhile (\<lambda>i. \<not> bit m i) (rev [0..<64]))"

lemma ones_iff: "i \<in> set (ones m) \<longleftrightarrow> bit m i"
  by (auto simp: ones_def dest: bit_imp_le_length)

lemma sorted_filter_upt: "sorted (filter P [0..<n])"
  using sorted_filter [of id "[0..<n]" P] by simp

lemma ones_sorted [simp]: "sorted (ones m)" "distinct (ones m)"
  by (simp_all add: ones_def sorted_filter_upt del: upt_rec_numeral)

lemma ones_eqI: "set (ones m) = set js \<Longrightarrow> sorted js \<Longrightarrow> distinct js \<Longrightarrow> ones m = js"
  by (rule sorted_distinct_set_unique) simp_all

lemma ones_Nil: "ones m = [] \<longleftrightarrow> m = 0"
proof
  assume "ones m = []"
  then have "\<not> bit m i" for i
    using ones_iff [of i m] by simp
  then show "m = 0"
    by (intro bit_word_eqI) simp
qed (simp add: ones_def)

lemma count_ones: "count_ones m = length (ones m)"
  by (simp add: count_ones_def ones_def)

lemma length_takeWhile_filter:
  "filter p xs \<noteq> [] \<Longrightarrow> xs ! length (takeWhile (\<lambda>x. \<not> p x) xs) = hd (filter p xs)"
  by (induction xs) auto

lemma length_takeWhile_less: "filter p xs \<noteq> [] \<Longrightarrow> length (takeWhile (\<lambda>x. \<not> p x) xs) < length xs"
  by (induction xs) (auto split: if_splits)

lemma trailing_zeros_ones: "m \<noteq> 0 \<Longrightarrow> trailing_zeros m = hd (ones m)"
  using length_takeWhile_filter [of "bit m" "[0..<64]"] length_takeWhile_less [of "bit m" "[0..<64]"]
  by (simp add: trailing_zeros_def ones_Nil [symmetric] ones_def del: upt_rec_numeral)

lemma leading_zeros_ones: "m \<noteq> 0 \<Longrightarrow> 63 - leading_zeros m = last (ones m)"
proof -
  assume m: "m \<noteq> 0"
  have n: "filter (bit m) (rev [0..<64]) = rev (ones m)"
    by (simp add: ones_def rev_filter del: upt_rec_numeral)
  then have f: "filter (bit m) (rev [0..<64]) \<noteq> []"
    using m by (simp add: ones_Nil del: upt_rec_numeral)
  have "leading_zeros m < 64"
    using length_takeWhile_less [OF f] by (simp add: leading_zeros_def del: upt_rec_numeral)
  moreover have "rev [0..<64] ! leading_zeros m = last (ones m)"
    using length_takeWhile_filter [OF f] n m
    by (simp add: leading_zeros_def hd_rev ones_Nil del: upt_rec_numeral)
  ultimately show ?thesis
    by (simp add: rev_nth del: upt_rec_numeral)
qed

lemma shifted_filter: "map (\<lambda>j. i + j) (filter P [0..<w]) = filter (\<lambda>p. P (p - i)) [i..<i + w]"
  by (induction w) simp_all

section \<open>Clearing a bit\<close>

lemma minus_one_flips:
  fixes m :: u64
  assumes t: "bit m t" and low: "\<And>i. i < t \<Longrightarrow> \<not> bit m i"
  shows "bit (m - 1) k \<longleftrightarrow> k < 64 \<and> (if k \<le> t then k < t else bit m k)"
proof -
  have t64: "t < 64"
    using bit_imp_le_length [OF t] by simp
  define h where "h = push_bit (Suc t) (drop_bit (Suc t) m)"
  have hbit: "bit h i \<longleftrightarrow> t < i \<and> bit m i" for i
    by (simp only: h_def bit_push_bit_iff bit_drop_bit_eq comp_apply)
      (auto simp: Suc_le_eq dest: bit_imp_le_length)
  have "m = h OR push_bit t 1"
    by (rule bit_word_eqI)
      (use t low in \<open>auto simp: bit_or_iff hbit bit_exp_iff not_less_iff_gr_or_eq elim: linorder_neqE_nat\<close>)
  also have "\<dots> = h + push_bit t 1"
    by (rule disjunctive_add [symmetric]) (auto simp: hbit bit_exp_iff)
  finally have "m - 1 = h + (push_bit t 1 - 1)"
    by simp
  also have "push_bit t 1 - 1 = Bit_Operations.mask t"
    by (simp add: mask_eq_exp_minus_1)
  also have "h + Bit_Operations.mask t = h OR Bit_Operations.mask t"
    by (rule disjunctive_add) (auto simp: hbit bit_mask_iff)
  finally show ?thesis
    using t64 by (auto simp: bit_or_iff hbit bit_mask_iff dest: bit_imp_le_length)
qed

lemma clear_lowest: "ones (m AND (m - 1)) = tl (ones m)"
proof (cases "m = 0")
  case False
  then obtain t ts where o: "ones m = t # ts"
    using ones_Nil by (cases "ones m") auto
  have t: "bit m t" "\<And>i. i < t \<Longrightarrow> \<not> bit m i"
    using o ones_iff [of t m] ones_iff [of _ m] ones_sorted(1) [of m] by (simp, fastforce)
  have "bit (m AND (m - 1)) k \<longleftrightarrow> bit m k \<and> k \<noteq> t" for k
    using minus_one_flips [OF t, of k] t by (auto simp: bit_and_iff dest: bit_imp_le_length)
  then have "set (ones (m AND (m - 1))) = set ts"
    using o ones_iff [of _ m] ones_iff [of _ "m AND (m - 1)"] ones_sorted(2) [of m] by auto
  then show ?thesis
    using o ones_sorted [of m] by (intro ones_eqI) auto
qed (simp add: ones_def)

lemma clear_highest: "m \<noteq> 0 \<Longrightarrow> ones (m XOR push_bit (63 - leading_zeros m) 1) = butlast (ones m)"
proof -
  assume m: "m \<noteq> 0"
  define h where "h = last (ones m)"
  have o: "ones m = butlast (ones m) @ [h]"
    using m by (simp add: h_def ones_Nil)
  have h: "bit m h"
    using o ones_iff [of h m] by (metis in_set_conv_decomp)
  have "bit (m XOR push_bit h 1) k \<longleftrightarrow> bit m k \<and> k \<noteq> h" for k
    using h by (auto simp: bit_xor_iff bit_exp_iff dest: bit_imp_le_length)
  moreover have "h \<notin> set (butlast (ones m))"
    using o ones_sorted(2) [of m] by (metis distinct_append disjoint_iff list.set_intros(1))
  moreover have "set (ones m) = insert h (set (butlast (ones m)))"
    using arg_cong [OF o, of set] by simp
  ultimately have "set (ones (m XOR push_bit h 1)) = set (butlast (ones m))"
    using ones_iff by auto
  then have "ones (m XOR push_bit h 1) = butlast (ones m)"
    by (intro ones_eqI) (simp_all add: sorted_butlast distinct_butlast)
  then show ?thesis
    by (simp only: leading_zeros_ones [OF m] h_def)
qed

section \<open>Packing a compare\<close>

text \<open>PCMPEQB and PMOVMSKB, and the compare of AVX-512 into a mask register.\<close>

definition cmpeq_epi8 :: "u8 list \<Rightarrow> u8 list \<Rightarrow> u8 list" where
  "cmpeq_epi8 a b = map2 (\<lambda>x y. if x = y then 0xFF else 0) a b"

definition movemask_epi8 :: "u8 list \<Rightarrow> u64" where
  "movemask_epi8 v = foldr (\<lambda>j acc. if bit (v ! j) 7 then push_bit j 1 OR acc else acc) [0..<length v] 0"

definition cmpeq_epi8_mask :: "u8 list \<Rightarrow> u8 list \<Rightarrow> u64" where
  "cmpeq_epi8_mask a b =
     foldr (\<lambda>j acc. if a ! j = b ! j then push_bit j 1 OR acc else acc) [0..<length a] 0"

text \<open>SHRN by 4 on pairs of bytes, the eight bytes as a \<open>u64\<close>, AND, and the greatest lane.\<close>

fun vshrn_n_u16_4 :: "u8 list \<Rightarrow> u8 list" where
  "vshrn_n_u16_4 (lo # hi # v) = ucast (drop_bit 4 (ucast lo OR push_bit 8 (ucast hi) :: u16)) # vshrn_n_u16_4 v"
| "vshrn_n_u16_4 v = []"

fun u64_of_bytes :: "u8 list \<Rightarrow> u64" where
  "u64_of_bytes [] = 0"
| "u64_of_bytes (b # v) = ucast b OR push_bit 8 (u64_of_bytes v)"

definition vmaxvq_u8 :: "u8 list \<Rightarrow> u8" where
  "vmaxvq_u8 v = foldl max 0 v"

lemma bit_of_bytes:
  "bit (u64_of_bytes v) n \<longleftrightarrow> n < 64 \<and> n div 8 < length v \<and> bit (v ! (n div 8)) (n mod 8)"
proof (induction v arbitrary: n)
  case (Cons b v)
  show ?case
  proof (cases "n < 8")
    case False
    then have "n div 8 = Suc ((n - 8) div 8)" "n mod 8 = (n - 8) mod 8"
      by (simp_all add: le_div_geq le_mod_geq)
    moreover have "\<not> bit b n"
      using False by (auto dest: bit_imp_le_length)
    ultimately show ?thesis
      using False Cons.IH [of "n - 8"] by (auto simp: bit_or_iff bit_ucast_iff bit_push_bit_iff dest: bit_imp_le_length)
  qed (auto simp: bit_or_iff bit_ucast_iff bit_push_bit_iff)
qed simp

lemma bits_set:
  "bit (foldr (\<lambda>j acc. if P j then push_bit j 1 OR acc else acc) js 0 :: u64) k \<longleftrightarrow> k \<in> set js \<and> k < 64 \<and> P k"
  by (induction js) (auto simp: bit_or_iff bit_exp_iff)

lemma ones_foldr:
  "n \<le> 64 \<Longrightarrow> ones (foldr (\<lambda>j acc. if P j then push_bit j 1 OR acc else acc) [0..<n] 0) = filter P [0..<n]"
  by (rule ones_eqI) (auto simp: ones_iff bits_set sorted_filter_upt)

lemma ones_movemask:
  assumes "length a = n" and "n \<le> 64"
  shows "ones (movemask_epi8 (cmpeq_epi8 a (set1_epi8 n b))) = filter (\<lambda>j. a ! j = b) [0..<n]"
proof -
  have "bit (0xFF :: u8) 7"
    by simp
  then show ?thesis
    using assms by (auto simp: movemask_epi8_def ones_foldr cmpeq_epi8_def set1_epi8_def intro!: filter_cong split: if_splits)
qed

lemma ones_cmpeq_mask:
  assumes "length a = n" and "n \<le> 64"
  shows "ones (cmpeq_epi8_mask a (set1_epi8 n b)) = filter (\<lambda>j. a ! j = b) [0..<n]"
  using assms by (auto simp: cmpeq_epi8_mask_def ones_foldr set1_epi8_def intro!: filter_cong)

end
