(* ===== verification/Byte_Search.thy ===== *)
theory Byte_Search
  imports Bit_Masks Cpu_Features
begin

unbundle bit_operations_syntax

text \<open>
  \<open>find\<close>, \<open>count\<close>, \<open>nth_byte\<close> and \<open>nth_byte_back\<close> of \<open>crates/pwrs/src/simd/bytes.rs\<close>: the scalar forms,
  the bodies for SSE2, AVX2, AVX-512 and NEON, and the choice among them. Positions and totals are
  within a slice, so they are naturals.
\<close>

section \<open>Scalar forms\<close>

definition tail :: "u8 list \<Rightarrow> u8 list \<Rightarrow> nat \<Rightarrow> nat option" where
  "tail haystack needle start =
     (let final = length haystack - length needle
      in List.find (\<lambda>i. haystack ! i = needle ! 0 \<and> take (length needle) (drop i haystack) = needle)
           [start..<Suc final])"

definition find_scalar :: "u8 list \<Rightarrow> u8 list \<Rightarrow> nat option" where
  "find_scalar haystack needle =
     (if needle = [] then Some 0
      else if length haystack < length needle then None
      else tail haystack needle 0)"

definition count_scalar :: "u8 list \<Rightarrow> u8 \<Rightarrow> nat" where
  "count_scalar haystack byte = length (filter (\<lambda>b. b = byte) haystack)"

definition nth_item :: "'a list \<Rightarrow> nat \<Rightarrow> 'a option" where
  "nth_item xs k = (if k < length xs then Some (xs ! k) else None)"

definition nth_byte_scalar :: "u8 list \<Rightarrow> u8 \<Rightarrow> nat \<Rightarrow> nat option" where
  "nth_byte_scalar haystack byte n =
     (if n = 0 then None
      else map_option fst (nth_item (filter (\<lambda>(_, b). b = byte) (enumerate 0 haystack)) (n - 1)))"

definition nth_byte_back_scalar :: "u8 list \<Rightarrow> u8 \<Rightarrow> nat \<Rightarrow> nat option" where
  "nth_byte_back_scalar haystack byte n =
     (if n = 0 then None
      else map_option fst (nth_item (filter (\<lambda>(_, b). b = byte) (rev (enumerate 0 haystack))) (n - 1)))"

section \<open>Reading a mask\<close>

function verify :: "u8 list \<Rightarrow> u8 list \<Rightarrow> nat \<Rightarrow> u64 \<Rightarrow> nat \<Rightarrow> nat option" where
  "verify haystack needle at m shift =
     (if m = 0 then None
      else let pos = at + drop_bit shift (trailing_zeros m)
        in if length haystack - length needle < pos then None
           else if take (length needle) (drop pos haystack) = needle then Some pos
           else verify haystack needle at (m AND (m - 1)) shift)"
  by pat_completeness auto

termination
  by (relation "measure (\<lambda>(haystack, needle, at, m, shift). count_ones m)")
    (simp_all add: count_ones clear_lowest ones_Nil)

definition nth_set_bit :: "u64 \<Rightarrow> nat \<Rightarrow> nat" where
  "nth_set_bit m k = trailing_zeros (((\<lambda>m. m AND (m - 1)) ^^ (k - 1)) m)"

definition nth_set_bit_from_top :: "u64 \<Rightarrow> nat \<Rightarrow> nat" where
  "nth_set_bit_from_top m k =
     63 - leading_zeros (((\<lambda>m. m XOR push_bit (63 - leading_zeros m) 1) ^^ (k - 1)) m)"

section \<open>The loops\<close>

text \<open>
  Each body has the same loop at its own width; \<open>candidates\<close> and \<open>mask_of\<close> are the compares it makes
  and \<open>shift\<close> how far apart the lanes of its mask are.
\<close>

function find_loop ::
  "nat \<Rightarrow> nat \<Rightarrow> (nat \<Rightarrow> u64) \<Rightarrow> u8 list \<Rightarrow> u8 list \<Rightarrow> nat \<Rightarrow> nat option"
where
  "find_loop width shift candidates haystack needle i =
     (if 0 < width \<and> i + width \<le> length haystack
      then case verify haystack needle i (candidates i) shift of
             Some pos \<Rightarrow> Some pos
           | None \<Rightarrow> find_loop width shift candidates haystack needle (i + width)
      else tail haystack needle i)"
  by pat_completeness auto

termination
  by (relation "measure (\<lambda>(width, shift, candidates, haystack, needle, i). length haystack - i)") auto

function count_loop :: "nat \<Rightarrow> (u8 list \<Rightarrow> u64) \<Rightarrow> u8 list \<Rightarrow> u8 \<Rightarrow> nat \<Rightarrow> nat \<Rightarrow> nat" where
  "count_loop width mask_of haystack byte tally i =
     (if 0 < width \<and> i + width \<le> length haystack
      then count_loop width mask_of haystack byte (tally + count_ones (mask_of (load width i haystack))) (i + width)
      else tally + count_scalar (drop i haystack) byte)"
  by pat_completeness auto

termination
  by (relation "measure (\<lambda>(width, mask_of, haystack, byte, tally, i). length haystack - i)") auto

function nth_loop ::
  "nat \<Rightarrow> nat \<Rightarrow> (u8 list \<Rightarrow> u64) \<Rightarrow> u8 list \<Rightarrow> u8 \<Rightarrow> nat \<Rightarrow> nat \<Rightarrow> nat option"
where
  "nth_loop width shift mask_of haystack byte left i =
     (if 0 < width \<and> i + width \<le> length haystack
      then let m = mask_of (load width i haystack); here = count_ones m
        in if left \<le> here then Some (i + drop_bit shift (nth_set_bit m left))
           else nth_loop width shift mask_of haystack byte (left - here) (i + width)
      else map_option (\<lambda>at. i + at) (nth_byte_scalar (drop i haystack) byte left))"
  by pat_completeness auto

termination
  by (relation "measure (\<lambda>(width, shift, mask_of, haystack, byte, left, i). length haystack - i)") auto

function nth_back_loop ::
  "nat \<Rightarrow> nat \<Rightarrow> (u8 list \<Rightarrow> u64) \<Rightarrow> u8 list \<Rightarrow> u8 \<Rightarrow> nat \<Rightarrow> nat \<Rightarrow> nat option"
where
  "nth_back_loop width shift mask_of haystack byte left final =
     (if 0 < width \<and> width \<le> final
      then let start = final - width; m = mask_of (load width start haystack); here = count_ones m
        in if left \<le> here then Some (start + drop_bit shift (nth_set_bit_from_top m left))
           else nth_back_loop width shift mask_of haystack byte (left - here) start
      else nth_byte_back_scalar (take final haystack) byte left)"
  by pat_completeness auto

termination
  by (relation "measure (\<lambda>(width, shift, mask_of, haystack, byte, left, final). final)") auto

section \<open>The x86-64 bodies\<close>

definition movemask_eq :: "nat \<Rightarrow> u8 \<Rightarrow> u8 list \<Rightarrow> u64" where
  "movemask_eq width b v = movemask_epi8 (cmpeq_epi8 v (set1_epi8 width b))"

definition kmask_eq :: "u8 \<Rightarrow> u8 list \<Rightarrow> u64" where
  "kmask_eq b v = cmpeq_epi8_mask v (set1_epi8 64 b)"

definition x86_candidates ::
  "nat \<Rightarrow> (u8 \<Rightarrow> u8 list \<Rightarrow> u64) \<Rightarrow> u8 list \<Rightarrow> u8 list \<Rightarrow> nat \<Rightarrow> u64"
where
  "x86_candidates width mask_eq haystack needle i =
     (let n = length needle; m = mask_eq (needle ! 0) (load width i haystack)
      in if m \<noteq> 0 \<and> i + n - 1 + width \<le> length haystack
         then m AND mask_eq (needle ! (n - 1)) (load width (i + n - 1) haystack)
         else m)"

definition find_sse2 :: "u8 list \<Rightarrow> u8 list \<Rightarrow> nat option" where
  "find_sse2 haystack needle =
     find_loop 16 0 (x86_candidates 16 (movemask_eq 16) haystack needle) haystack needle 0"

definition find_avx2 :: "u8 list \<Rightarrow> u8 list \<Rightarrow> nat option" where
  "find_avx2 haystack needle =
     find_loop 32 0 (x86_candidates 32 (movemask_eq 32) haystack needle) haystack needle 0"

definition find_avx512 :: "u8 list \<Rightarrow> u8 list \<Rightarrow> nat option" where
  "find_avx512 haystack needle =
     find_loop 64 0 (x86_candidates 64 kmask_eq haystack needle) haystack needle 0"

definition count_sse2 :: "u8 list \<Rightarrow> u8 \<Rightarrow> nat" where
  "count_sse2 haystack byte = count_loop 16 (movemask_eq 16 byte) haystack byte 0 0"

definition count_avx2 :: "u8 list \<Rightarrow> u8 \<Rightarrow> nat" where
  "count_avx2 haystack byte = count_loop 32 (movemask_eq 32 byte) haystack byte 0 0"

definition count_avx512 :: "u8 list \<Rightarrow> u8 \<Rightarrow> nat" where
  "count_avx512 haystack byte = count_loop 64 (kmask_eq byte) haystack byte 0 0"

definition nth_sse2 :: "u8 list \<Rightarrow> u8 \<Rightarrow> nat \<Rightarrow> nat option" where
  "nth_sse2 haystack byte n = nth_loop 16 0 (movemask_eq 16 byte) haystack byte n 0"

definition nth_avx2 :: "u8 list \<Rightarrow> u8 \<Rightarrow> nat \<Rightarrow> nat option" where
  "nth_avx2 haystack byte n = nth_loop 32 0 (movemask_eq 32 byte) haystack byte n 0"

definition nth_avx512 :: "u8 list \<Rightarrow> u8 \<Rightarrow> nat \<Rightarrow> nat option" where
  "nth_avx512 haystack byte n = nth_loop 64 0 (kmask_eq byte) haystack byte n 0"

definition nth_back_sse2 :: "u8 list \<Rightarrow> u8 \<Rightarrow> nat \<Rightarrow> nat option" where
  "nth_back_sse2 haystack byte n = nth_back_loop 16 0 (movemask_eq 16 byte) haystack byte n (length haystack)"

definition nth_back_avx2 :: "u8 list \<Rightarrow> u8 \<Rightarrow> nat \<Rightarrow> nat option" where
  "nth_back_avx2 haystack byte n = nth_back_loop 32 0 (movemask_eq 32 byte) haystack byte n (length haystack)"

definition nth_back_avx512 :: "u8 list \<Rightarrow> u8 \<Rightarrow> nat \<Rightarrow> nat option" where
  "nth_back_avx512 haystack byte n = nth_back_loop 64 0 (kmask_eq byte) haystack byte n (length haystack)"

section \<open>The NEON bodies\<close>

definition lanes :: "u8 list \<Rightarrow> u64" where
  "lanes eq = u64_of_bytes (vshrn_n_u16_4 eq) AND 0x8888888888888888"

definition lanes_eq :: "u8 \<Rightarrow> u8 list \<Rightarrow> u64" where
  "lanes_eq b v = lanes (cmpeq_epi8 v (set1_epi8 16 b))"

definition neon_candidates :: "u8 list \<Rightarrow> u8 list \<Rightarrow> nat \<Rightarrow> u64" where
  "neon_candidates haystack needle i =
     (let n = length needle; eq = cmpeq_epi8 (load 16 i haystack) (set1_epi8 16 (needle ! 0))
      in lanes
           (if vmaxvq_u8 eq \<noteq> 0 \<and> i + n - 1 + 16 \<le> length haystack
            then vec_and eq (cmpeq_epi8 (load 16 (i + n - 1) haystack) (set1_epi8 16 (needle ! (n - 1))))
            else eq))"

definition neon_find :: "u8 list \<Rightarrow> u8 list \<Rightarrow> nat option" where
  "neon_find haystack needle = find_loop 16 2 (neon_candidates haystack needle) haystack needle 0"

text \<open>The inner loop of \<open>count\<close>: at most 255 vectors are subtracted before the lanes are summed.\<close>

definition vsubq_u8 :: "u8 list \<Rightarrow> u8 list \<Rightarrow> u8 list" where
  "vsubq_u8 a b = map2 (-) a b"

definition vaddlvq_u8 :: "u8 list \<Rightarrow> u16" where
  "vaddlvq_u8 v = sum_list (map ucast v)"

function neon_rounds :: "u8 list \<Rightarrow> u8 \<Rightarrow> u8 list \<Rightarrow> nat \<Rightarrow> nat \<Rightarrow> u8 list \<times> nat" where
  "neon_rounds haystack byte acc rounds i =
     (if rounds < 255 \<and> i + 16 \<le> length haystack
      then neon_rounds haystack byte
             (vsubq_u8 acc (cmpeq_epi8 (load 16 i haystack) (set1_epi8 16 byte))) (rounds + 1) (i + 16)
      else (acc, i))"
  by pat_completeness auto

termination
  by (relation "measure (\<lambda>(haystack, byte, acc, rounds, i). 255 - rounds)") auto

declare verify.simps [simp del] find_loop.simps [simp del] count_loop.simps [simp del]
  nth_loop.simps [simp del] nth_back_loop.simps [simp del] neon_rounds.simps [simp del]

lemma neon_rounds_onwards: "i \<le> snd (neon_rounds haystack byte acc rounds i)"
proof (induction haystack byte acc rounds i rule: neon_rounds.induct)
  case (1 haystack byte acc rounds i)
  then show ?case
    by (subst neon_rounds.simps) (simp, meson add_leD1)
qed

lemma neon_rounds_moves:
  "i + 16 \<le> length haystack \<Longrightarrow> neon_rounds haystack byte acc 0 i = (acc', i') \<Longrightarrow> i + 16 \<le> i'"
  using neon_rounds_onwards [of "i + 16" haystack byte] neon_rounds.simps [of haystack byte acc 0 i]
  by (simp, metis snd_conv)

function neon_count_loop :: "u8 list \<Rightarrow> u8 \<Rightarrow> nat \<Rightarrow> nat \<Rightarrow> nat" where
  "neon_count_loop haystack byte tally i =
     (if i + 16 \<le> length haystack
      then let (acc, i') = neon_rounds haystack byte (set1_epi8 16 0) 0 i
        in neon_count_loop haystack byte (tally + unat (vaddlvq_u8 acc)) i'
      else tally + count_scalar (drop i haystack) byte)"
  by pat_completeness auto

termination
proof (relation "measure (\<lambda>(haystack, byte, tally, i). length haystack - i)", goal_cases)
  case (2 haystack byte tally i x acc i')
  then have "i + 16 \<le> i'"
    using neon_rounds_moves [of i haystack byte "set1_epi8 16 0" acc i'] by simp
  then show ?case
    using 2 by simp
qed simp

declare neon_count_loop.simps [simp del]

definition neon_count :: "u8 list \<Rightarrow> u8 \<Rightarrow> nat" where
  "neon_count haystack byte = neon_count_loop haystack byte 0 0"

definition neon_nth :: "u8 list \<Rightarrow> u8 \<Rightarrow> nat \<Rightarrow> nat option" where
  "neon_nth haystack byte n = nth_loop 16 2 (lanes_eq byte) haystack byte n 0"

definition neon_nth_back :: "u8 list \<Rightarrow> u8 \<Rightarrow> nat \<Rightarrow> nat option" where
  "neon_nth_back haystack byte n = nth_back_loop 16 2 (lanes_eq byte) haystack byte n (length haystack)"

section \<open>The choice\<close>

definition find_tiered :: "target \<Rightarrow> machine \<Rightarrow> string option \<Rightarrow> u8 list \<Rightarrow> u8 list \<Rightarrow> nat option" where
  "find_tiered t m env haystack needle =
     (case t_arch t of
        Arch_x86_64 \<Rightarrow>
          (case cpu_level t m env of
             V4 \<Rightarrow> find_avx512 haystack needle
           | V3 \<Rightarrow> find_avx2 haystack needle
           | _ \<Rightarrow> find_sse2 haystack needle)
      | Arch_aarch64 \<Rightarrow> neon_find haystack needle
      | Arch_other \<Rightarrow> find_scalar haystack needle)"

definition find_bytes :: "target \<Rightarrow> machine \<Rightarrow> string option \<Rightarrow> u8 list \<Rightarrow> u8 list \<Rightarrow> nat option" where
  "find_bytes t m env haystack needle =
     (if needle = [] then Some 0
      else if length haystack < length needle then None
      else find_tiered t m env haystack needle)"

definition count_bytes :: "target \<Rightarrow> machine \<Rightarrow> string option \<Rightarrow> u8 list \<Rightarrow> u8 \<Rightarrow> nat" where
  "count_bytes t m env haystack byte =
     (case t_arch t of
        Arch_x86_64 \<Rightarrow>
          (case cpu_level t m env of
             V4 \<Rightarrow> count_avx512 haystack byte
           | V3 \<Rightarrow> count_avx2 haystack byte
           | _ \<Rightarrow> count_sse2 haystack byte)
      | Arch_aarch64 \<Rightarrow> neon_count haystack byte
      | Arch_other \<Rightarrow> count_scalar haystack byte)"

definition nth_tiered :: "target \<Rightarrow> machine \<Rightarrow> string option \<Rightarrow> u8 list \<Rightarrow> u8 \<Rightarrow> nat \<Rightarrow> nat option" where
  "nth_tiered t m env haystack byte n =
     (case t_arch t of
        Arch_x86_64 \<Rightarrow>
          (case cpu_level t m env of
             V4 \<Rightarrow> nth_avx512 haystack byte n
           | V3 \<Rightarrow> nth_avx2 haystack byte n
           | _ \<Rightarrow> nth_sse2 haystack byte n)
      | Arch_aarch64 \<Rightarrow> neon_nth haystack byte n
      | Arch_other \<Rightarrow> nth_byte_scalar haystack byte n)"

definition nth_byte :: "target \<Rightarrow> machine \<Rightarrow> string option \<Rightarrow> u8 list \<Rightarrow> u8 \<Rightarrow> nat \<Rightarrow> nat option" where
  "nth_byte t m env haystack byte n = (if n = 0 then None else nth_tiered t m env haystack byte n)"

definition nth_back_tiered :: "target \<Rightarrow> machine \<Rightarrow> string option \<Rightarrow> u8 list \<Rightarrow> u8 \<Rightarrow> nat \<Rightarrow> nat option" where
  "nth_back_tiered t m env haystack byte n =
     (case t_arch t of
        Arch_x86_64 \<Rightarrow>
          (case cpu_level t m env of
             V4 \<Rightarrow> nth_back_avx512 haystack byte n
           | V3 \<Rightarrow> nth_back_avx2 haystack byte n
           | _ \<Rightarrow> nth_back_sse2 haystack byte n)
      | Arch_aarch64 \<Rightarrow> neon_nth_back haystack byte n
      | Arch_other \<Rightarrow> nth_byte_back_scalar haystack byte n)"

definition nth_byte_back :: "target \<Rightarrow> machine \<Rightarrow> string option \<Rightarrow> u8 list \<Rightarrow> u8 \<Rightarrow> nat \<Rightarrow> nat option" where
  "nth_byte_back t m env haystack byte n =
     (if n = 0 then None else nth_back_tiered t m env haystack byte n)"

section \<open>What the scalar forms give\<close>

definition occurs :: "u8 list \<Rightarrow> u8 list \<Rightarrow> nat \<Rightarrow> bool" where
  "occurs haystack needle p \<longleftrightarrow>
     p + length needle \<le> length haystack \<and> take (length needle) (drop p haystack) = needle"

definition positions :: "u8 list \<Rightarrow> u8 \<Rightarrow> nat list" where
  "positions haystack byte = filter (\<lambda>p. haystack ! p = byte) [0..<length haystack]"

lemma find_None_append: "List.find P xs = None \<Longrightarrow> List.find P (xs @ ys) = List.find P ys"
  by (induction xs) (auto split: if_splits)

lemma find_Some_append: "List.find P xs = Some x \<Longrightarrow> List.find P (xs @ ys) = Some x"
  by (induction xs) (auto split: if_splits)

lemma find_cong_on: "(\<And>x. x \<in> set xs \<Longrightarrow> P x \<longleftrightarrow> Q x) \<Longrightarrow> List.find P xs = List.find Q xs"
  by (induction xs) auto

lemma find_filter: "(\<And>x. x \<in> set xs \<Longrightarrow> P x \<Longrightarrow> C x) \<Longrightarrow> List.find P (filter C xs) = List.find P xs"
  by (induction xs) auto

lemma find_none: "(\<And>x. x \<in> set xs \<Longrightarrow> \<not> P x) \<Longrightarrow> List.find P xs = None"
  by (induction xs) auto

lemma find_upt_longer:
  assumes "\<And>x. P x \<Longrightarrow> x < n" and "n \<le> n'"
  shows "List.find P [i..<n'] = List.find P [i..<n]"
proof (cases "i \<le> n")
  case True
  then have "[i..<n'] = [i..<n] @ [n..<n']"
    using assms(2) by (metis le_add_diff_inverse upt_add_eq_append)
  moreover have "List.find P [n..<n'] = None"
    using assms(1) by (intro find_none) fastforce
  ultimately show ?thesis
    by (cases "List.find P [i..<n]") (simp_all add: find_None_append find_Some_append)
next
  case False
  then show ?thesis
    using assms(1) by (simp, intro find_none) fastforce
qed

lemma occurs_at: "occurs haystack needle p \<Longrightarrow> j < length needle \<Longrightarrow> haystack ! (p + j) = needle ! j"
  by (metis add_leE le_add1 nth_drop nth_take occurs_def)

text \<open>The search from a position: the bound is past every place the needle fits.\<close>

definition leftmost :: "u8 list \<Rightarrow> u8 list \<Rightarrow> nat \<Rightarrow> nat option" where
  "leftmost haystack needle i = List.find (occurs haystack needle) [i..<Suc (length haystack)]"

lemma tail_leftmost:
  assumes "needle \<noteq> []" and "length needle \<le> length haystack"
  shows "tail haystack needle i = leftmost haystack needle i"
proof -
  have "leftmost haystack needle i
      = List.find (occurs haystack needle) [i..<Suc (length haystack - length needle)]"
    unfolding leftmost_def by (rule find_upt_longer) (auto simp: occurs_def)
  also have "\<dots> = tail haystack needle i"
    unfolding tail_def Let_def
    using assms occurs_at [of haystack needle _ 0]
    by (intro find_cong_on) (auto simp: occurs_def)
  finally show ?thesis
    by (rule sym)
qed

end
