(* ===== verification/Byte_Class.thy ===== *)
theory Byte_Class
  imports Byte_Search
begin

unbundle bit_operations_syntax

text \<open>
  \<open>ByteClass\<close> of \<open>crates/pwrs/src/simd/bytes/class.rs\<close>: a set of ASCII bytes as two tables of 16, the
  scans over it a byte at a time, and the same scans a block at a time over the masks of SSSE3, AVX2,
  AVX-512BW and NEON.
\<close>

section \<open>Classes\<close>

record byte_class =
  class_lo :: "u8 list"
  class_complement :: bool

text \<open>The table's type is an array of sixteen.\<close>

definition class_ok :: "byte_class \<Rightarrow> bool" where
  "class_ok class \<longleftrightarrow> length (class_lo class) = 16"

definition HIGH :: "u8 list" where
  "HIGH = [1, 2, 4, 8, 16, 32, 64, 128, 0, 0, 0, 0, 0, 0, 0, 0]"

fun new_loop :: "u8 list \<Rightarrow> u8 list \<Rightarrow> u8 list option" where
  "new_loop table [] = Some table"
| "new_loop table (byte # members) =
     (if 0x80 \<le> byte then None
      else let l = unat (byte AND 0x0F)
        in new_loop (table[l := table ! l OR push_bit (unat (drop_bit 4 byte)) 1]) members)"

definition class_new :: "u8 list \<Rightarrow> byte_class option" where
  "class_new members =
     map_option (\<lambda>table. \<lparr>class_lo = table, class_complement = False\<rparr>) (new_loop (replicate 16 0) members)"

text \<open>The constants are built by \<open>of\<close>, which fails the build where \<open>new\<close> gives \<open>None\<close>.\<close>

definition ascii :: "string \<Rightarrow> u8 list" where
  "ascii s = map (\<lambda>c. of_nat (of_char c)) s"

definition WHITESPACE :: "byte_class option" where
  "WHITESPACE = class_new [0x09, 0x0A, 0x0C, 0x0D, 0x20]"

definition DIGIT :: "byte_class option" where
  "DIGIT = class_new (ascii ''0123456789'')"

definition WORD :: "byte_class option" where
  "WORD = class_new (ascii ''0123456789ABCDEFGHIJKLMNOPQRSTUVWXYZ_abcdefghijklmnopqrstuvwxyz'')"

definition complement :: "byte_class \<Rightarrow> byte_class" where
  "complement class = class\<lparr>class_complement := \<not> class_complement class\<rparr>"

definition contains :: "byte_class \<Rightarrow> u8 \<Rightarrow> bool" where
  "contains class byte \<longleftrightarrow>
     (class_lo class ! unat (byte AND 0x0F) AND HIGH ! unat (drop_bit 4 byte) \<noteq> 0) \<noteq> class_complement class"

section \<open>Scalar forms\<close>

definition USIZE_MAX :: nat where
  "USIZE_MAX = 2 ^ 64 - 1"

definition run_scalar :: "byte_class \<Rightarrow> u8 list \<Rightarrow> nat" where
  "run_scalar class haystack = length (takeWhile (contains class) haystack)"

definition class_find_scalar :: "byte_class \<Rightarrow> u8 list \<Rightarrow> nat option" where
  "class_find_scalar class haystack = position (contains class) haystack"

definition first_scalar :: "byte_class \<Rightarrow> u8 list \<Rightarrow> bool \<Rightarrow> nat option" where
  "first_scalar class haystack member =
     (if member then class_find_scalar class haystack
      else let stop = run_scalar class haystack in if stop < length haystack then Some stop else None)"

fun longest_rest :: "byte_class \<Rightarrow> nat \<Rightarrow> nat \<Rightarrow> nat \<Rightarrow> u8 list \<Rightarrow> nat" where
  "longest_rest class stop longest run [] = longest"
| "longest_rest class stop longest run (b # haystack) =
     (let run = if contains class b then run + 1 else 0; longest = max longest run
      in if stop \<le> longest then longest else longest_rest class stop longest run haystack)"

definition longest_scalar :: "byte_class \<Rightarrow> u8 list \<Rightarrow> nat \<Rightarrow> nat" where
  "longest_scalar class haystack stop = longest_rest class stop 0 0 haystack"

definition longest_run_scalar :: "byte_class \<Rightarrow> u8 list \<Rightarrow> nat" where
  "longest_run_scalar class haystack = longest_scalar class haystack USIZE_MAX"

definition has_run_of_scalar :: "byte_class \<Rightarrow> u8 list \<Rightarrow> nat \<Rightarrow> bool" where
  "has_run_of_scalar class haystack least \<longleftrightarrow> least = 0 \<or> least \<le> longest_scalar class haystack least"

text \<open>The loop over the bytes from \<open>j\<close> on, and the test after it.\<close>

fun runs_rest ::
  "byte_class \<Rightarrow> nat \<Rightarrow> nat \<Rightarrow> (nat \<times> nat) list \<Rightarrow> nat \<Rightarrow> u8 list \<Rightarrow> (nat \<times> nat) list"
where
  "runs_rest class least start out j [] = (if least \<le> j - start then out @ [(start, j)] else out)"
| "runs_rest class least start out j (b # haystack) =
     (if \<not> contains class b
      then runs_rest class least (j + 1) (if least \<le> j - start then out @ [(start, j)] else out) (j + 1) haystack
      else runs_rest class least start out (j + 1) haystack)"

definition runs_scalar :: "byte_class \<Rightarrow> u8 list \<Rightarrow> nat \<Rightarrow> (nat \<times> nat) list" where
  "runs_scalar class haystack least = runs_rest class (max least 1) 0 [] 0 haystack"

section \<open>The scans over a mask\<close>

record lane_layout =
  lanes_width :: nat
  lanes_shift :: nat
  lanes_all :: u64

function scan_first ::
  "byte_class \<Rightarrow> u8 list \<Rightarrow> bool \<Rightarrow> lane_layout \<Rightarrow> (u8 list \<Rightarrow> u64) \<Rightarrow> nat \<Rightarrow> nat option"
where
  "scan_first class haystack member L hits i =
     (if 0 < lanes_width L \<and> i + lanes_width L \<le> length haystack
      then let flip = if class_complement class = member then lanes_all L else 0;
               wanted = hits (load (lanes_width L) i haystack) XOR flip
        in if wanted \<noteq> 0 then Some (i + drop_bit (lanes_shift L) (trailing_zeros wanted))
           else scan_first class haystack member L hits (i + lanes_width L)
      else map_option (\<lambda>at. i + at) (first_scalar class (drop i haystack) member))"
  by pat_completeness auto

termination
  by (relation "measure (\<lambda>(class, haystack, member, L, hits, i). length haystack - i)") auto

text \<open>The walk over the breaks of a block, and what a block does to the longest run and to the last.\<close>

function walk_longest :: "nat \<Rightarrow> nat \<Rightarrow> nat \<Rightarrow> u64 \<Rightarrow> nat" where
  "walk_longest shift longest prev rest =
     (if rest = 0 then longest
      else let following = drop_bit shift (trailing_zeros rest)
        in walk_longest shift (max longest (following - prev - 1)) following (rest AND (rest - 1)))"
  by pat_completeness auto

termination
  by (relation "measure (\<lambda>(shift, longest, prev, rest). count_ones rest)")
    (simp_all add: count_ones clear_lowest ones_Nil)

definition longest_block :: "lane_layout \<Rightarrow> u64 \<Rightarrow> nat \<Rightarrow> nat \<Rightarrow> nat \<times> nat" where
  "longest_block L breaks longest run =
     (if breaks = 0 then (longest, run + lanes_width L)
      else let first = drop_bit (lanes_shift L) (trailing_zeros breaks);
               longest = max longest (run + first);
               longest =
                 (if longest < lanes_width L - count_ones breaks
                  then walk_longest (lanes_shift L) longest first (breaks AND (breaks - 1)) else longest)
        in (longest, lanes_width L - 1 - drop_bit (lanes_shift L) (63 - leading_zeros breaks)))"

function scan_longest ::
  "byte_class \<Rightarrow> u8 list \<Rightarrow> nat \<Rightarrow> lane_layout \<Rightarrow> (u8 list \<Rightarrow> u64) \<Rightarrow> nat \<Rightarrow> nat \<Rightarrow> nat \<Rightarrow> nat"
where
  "scan_longest class haystack stop L hits longest run i =
     (if 0 < lanes_width L \<and> i + lanes_width L \<le> length haystack
      then let flip = if class_complement class then 0 else lanes_all L;
               breaks = hits (load (lanes_width L) i haystack) XOR flip;
               (longest, run) = longest_block L breaks longest run;
               longest = max longest run
        in if stop \<le> longest then longest
           else scan_longest class haystack stop L hits longest run (i + lanes_width L)
      else longest_rest class stop longest run (drop i haystack))"
  by pat_completeness auto

termination
  by (relation "measure (\<lambda>(class, haystack, stop, L, hits, longest, run, i). length haystack - i)") auto

function walk_runs :: "nat \<Rightarrow> nat \<Rightarrow> nat \<Rightarrow> (nat \<times> nat) list \<Rightarrow> nat \<Rightarrow> u64 \<Rightarrow> (nat \<times> nat) list" where
  "walk_runs shift least i out prev rest =
     (if rest = 0 then out
      else let following = drop_bit shift (trailing_zeros rest)
        in walk_runs shift least i
             (if least < following - prev then out @ [(i + prev + 1, i + following)] else out)
             following (rest AND (rest - 1)))"
  by pat_completeness auto

termination
  by (relation "measure (\<lambda>(shift, least, i, out, prev, rest). count_ones rest)")
    (simp_all add: count_ones clear_lowest ones_Nil)

definition runs_block ::
  "lane_layout \<Rightarrow> nat \<Rightarrow> u64 \<Rightarrow> nat \<Rightarrow> nat \<Rightarrow> (nat \<times> nat) list \<Rightarrow> nat \<times> (nat \<times> nat) list"
where
  "runs_block L least breaks i start out =
     (if breaks = 0 then (start, out)
      else let first = drop_bit (lanes_shift L) (trailing_zeros breaks);
               out = (if least \<le> i + first - start then out @ [(start, i + first)] else out);
               out =
                 (if least \<le> lanes_width L - count_ones breaks
                  then walk_runs (lanes_shift L) least i out first (breaks AND (breaks - 1)) else out)
        in (i + 1 + drop_bit (lanes_shift L) (63 - leading_zeros breaks), out))"

function scan_runs_loop ::
  "byte_class \<Rightarrow> u8 list \<Rightarrow> nat \<Rightarrow> lane_layout \<Rightarrow> (u8 list \<Rightarrow> u64) \<Rightarrow> nat \<Rightarrow> (nat \<times> nat) list \<Rightarrow> nat
    \<Rightarrow> (nat \<times> nat) list"
where
  "scan_runs_loop class haystack least L hits start out i =
     (if 0 < lanes_width L \<and> i + lanes_width L \<le> length haystack
      then let flip = if class_complement class then 0 else lanes_all L;
               breaks = hits (load (lanes_width L) i haystack) XOR flip;
               (start, out) = runs_block L least breaks i start out
        in scan_runs_loop class haystack least L hits start out (i + lanes_width L)
      else runs_rest class least start out i (drop i haystack))"
  by pat_completeness auto

termination
  by (relation "measure (\<lambda>(class, haystack, least, L, hits, start, out, i). length haystack - i)") auto

definition scan_runs ::
  "byte_class \<Rightarrow> u8 list \<Rightarrow> nat \<Rightarrow> lane_layout \<Rightarrow> (u8 list \<Rightarrow> u64) \<Rightarrow> (nat \<times> nat) list"
where
  "scan_runs class haystack least L hits = scan_runs_loop class haystack (max least 1) L hits 0 [] 0"

declare scan_first.simps [simp del] walk_longest.simps [simp del] scan_longest.simps [simp del]
  walk_runs.simps [simp del] scan_runs_loop.simps [simp del]

section \<open>The x86-64 bodies\<close>

definition L16 :: lane_layout where
  "L16 = \<lparr>lanes_width = 16, lanes_shift = 0, lanes_all = 0xFFFF\<rparr>"

definition L32 :: lane_layout where
  "L32 = \<lparr>lanes_width = 32, lanes_shift = 0, lanes_all = 0xFFFFFFFF\<rparr>"

definition L64 :: lane_layout where
  "L64 = \<lparr>lanes_width = 64, lanes_shift = 0, lanes_all = - 1\<rparr>"

text \<open>The entries the two shuffles fetch; VPTESTMB marks the lanes whose entries share a bit.\<close>

definition entry_lo :: "u8 list \<Rightarrow> u8 list \<Rightarrow> u8 list" where
  "entry_lo lo v = shuffle_epi8 lo (vec_and v (set1_epi8 (length v) 0x0F))"

definition entry_high :: "u8 list \<Rightarrow> u8 list \<Rightarrow> u8 list" where
  "entry_high high v = shuffle_epi8 high (vec_and (srli_epi16_4 v) (set1_epi8 (length v) 0x0F))"

definition test_epi8_mask :: "u8 list \<Rightarrow> u8 list \<Rightarrow> u64" where
  "test_epi8_mask a b = foldr (\<lambda>j acc. if a ! j AND b ! j \<noteq> 0 then push_bit j 1 OR acc else acc) [0..<length a] 0"

definition hits_ssse3 :: "u8 list \<Rightarrow> u8 list \<Rightarrow> u8 list \<Rightarrow> u64" where
  "hits_ssse3 lo high v =
     (let met = vec_and (entry_lo lo v) (entry_high high v)
      in ucast ((ucast (movemask_epi8 (cmpeq_epi8 met (set1_epi8 16 0))) :: u32) XOR 0xFFFF))"

definition hits_avx2 :: "u8 list \<Rightarrow> u8 list \<Rightarrow> u8 list \<Rightarrow> u64" where
  "hits_avx2 lo high v =
     (let met = vec_and (entry_lo lo v) (entry_high high v)
      in ucast (NOT (ucast (movemask_epi8 (cmpeq_epi8 met (set1_epi8 32 0))) :: u32)))"

definition hits_avx512 :: "u8 list \<Rightarrow> u8 list \<Rightarrow> u8 list \<Rightarrow> u64" where
  "hits_avx512 lo high v = test_epi8_mask (entry_lo lo v) (entry_high high v)"

definition first_ssse3 :: "byte_class \<Rightarrow> u8 list \<Rightarrow> bool \<Rightarrow> nat option" where
  "first_ssse3 class haystack member =
     scan_first class haystack member L16 (hits_ssse3 (class_lo class) HIGH) 0"

definition longest_ssse3 :: "byte_class \<Rightarrow> u8 list \<Rightarrow> nat \<Rightarrow> nat" where
  "longest_ssse3 class haystack stop =
     scan_longest class haystack stop L16 (hits_ssse3 (class_lo class) HIGH) 0 0 0"

definition runs_ssse3 :: "byte_class \<Rightarrow> u8 list \<Rightarrow> nat \<Rightarrow> (nat \<times> nat) list" where
  "runs_ssse3 class haystack least = scan_runs class haystack least L16 (hits_ssse3 (class_lo class) HIGH)"

definition first_avx2 :: "byte_class \<Rightarrow> u8 list \<Rightarrow> bool \<Rightarrow> nat option" where
  "first_avx2 class haystack member =
     scan_first class haystack member L32 (hits_avx2 (broadcast 2 (class_lo class)) (broadcast 2 HIGH)) 0"

definition longest_avx2 :: "byte_class \<Rightarrow> u8 list \<Rightarrow> nat \<Rightarrow> nat" where
  "longest_avx2 class haystack stop =
     scan_longest class haystack stop L32 (hits_avx2 (broadcast 2 (class_lo class)) (broadcast 2 HIGH)) 0 0 0"

definition runs_avx2 :: "byte_class \<Rightarrow> u8 list \<Rightarrow> nat \<Rightarrow> (nat \<times> nat) list" where
  "runs_avx2 class haystack least =
     scan_runs class haystack least L32 (hits_avx2 (broadcast 2 (class_lo class)) (broadcast 2 HIGH))"

definition first_avx512 :: "byte_class \<Rightarrow> u8 list \<Rightarrow> bool \<Rightarrow> nat option" where
  "first_avx512 class haystack member =
     scan_first class haystack member L64 (hits_avx512 (broadcast 4 (class_lo class)) (broadcast 4 HIGH)) 0"

definition longest_avx512 :: "byte_class \<Rightarrow> u8 list \<Rightarrow> nat \<Rightarrow> nat" where
  "longest_avx512 class haystack stop =
     scan_longest class haystack stop L64 (hits_avx512 (broadcast 4 (class_lo class)) (broadcast 4 HIGH)) 0 0 0"

definition runs_avx512 :: "byte_class \<Rightarrow> u8 list \<Rightarrow> nat \<Rightarrow> (nat \<times> nat) list" where
  "runs_avx512 class haystack least =
     scan_runs class haystack least L64 (hits_avx512 (broadcast 4 (class_lo class)) (broadcast 4 HIGH))"

section \<open>The NEON bodies\<close>

definition neon_L16 :: lane_layout where
  "neon_L16 = \<lparr>lanes_width = 16, lanes_shift = 2, lanes_all = 0x8888888888888888\<rparr>"

definition vtstq_u8 :: "u8 list \<Rightarrow> u8 list \<Rightarrow> u8 list" where
  "vtstq_u8 a b = map2 (\<lambda>x y. if x AND y \<noteq> 0 then 0xFF else 0) a b"

definition neon_hits :: "u8 list \<Rightarrow> u8 list \<Rightarrow> u8 list \<Rightarrow> u64" where
  "neon_hits lo high v =
     lanes (vtstq_u8 (vqtbl1q_u8 lo (vec_and v (set1_epi8 16 0x0F))) (vqtbl1q_u8 high (vshrq_n_u8_4 v)))"

definition neon_first :: "byte_class \<Rightarrow> u8 list \<Rightarrow> bool \<Rightarrow> nat option" where
  "neon_first class haystack member =
     scan_first class haystack member neon_L16 (neon_hits (class_lo class) HIGH) 0"

definition neon_longest :: "byte_class \<Rightarrow> u8 list \<Rightarrow> nat \<Rightarrow> nat" where
  "neon_longest class haystack stop =
     scan_longest class haystack stop neon_L16 (neon_hits (class_lo class) HIGH) 0 0 0"

definition neon_runs :: "byte_class \<Rightarrow> u8 list \<Rightarrow> nat \<Rightarrow> (nat \<times> nat) list" where
  "neon_runs class haystack least = scan_runs class haystack least neon_L16 (neon_hits (class_lo class) HIGH)"

section \<open>The choice\<close>

definition first_tiered :: "target \<Rightarrow> machine \<Rightarrow> string option \<Rightarrow> byte_class \<Rightarrow> u8 list \<Rightarrow> bool \<Rightarrow> nat option" where
  "first_tiered t m env class haystack member =
     (case t_arch t of
        Arch_x86_64 \<Rightarrow>
          (case cpu_level t m env of
             V4 \<Rightarrow> first_avx512 class haystack member
           | V3 \<Rightarrow> first_avx2 class haystack member
           | V2 \<Rightarrow> first_ssse3 class haystack member
           | _ \<Rightarrow> first_scalar class haystack member)
      | Arch_aarch64 \<Rightarrow> neon_first class haystack member
      | Arch_other \<Rightarrow> first_scalar class haystack member)"

definition longest_tiered :: "target \<Rightarrow> machine \<Rightarrow> string option \<Rightarrow> byte_class \<Rightarrow> u8 list \<Rightarrow> nat" where
  "longest_tiered t m env class haystack =
     (case t_arch t of
        Arch_x86_64 \<Rightarrow>
          (case cpu_level t m env of
             V4 \<Rightarrow> longest_avx512 class haystack USIZE_MAX
           | V3 \<Rightarrow> longest_avx2 class haystack USIZE_MAX
           | V2 \<Rightarrow> longest_ssse3 class haystack USIZE_MAX
           | _ \<Rightarrow> longest_run_scalar class haystack)
      | Arch_aarch64 \<Rightarrow> neon_longest class haystack USIZE_MAX
      | Arch_other \<Rightarrow> longest_run_scalar class haystack)"

definition has_run_tiered ::
  "target \<Rightarrow> machine \<Rightarrow> string option \<Rightarrow> byte_class \<Rightarrow> u8 list \<Rightarrow> nat \<Rightarrow> bool"
where
  "has_run_tiered t m env class haystack least =
     (case t_arch t of
        Arch_x86_64 \<Rightarrow>
          (case cpu_level t m env of
             V4 \<Rightarrow> least \<le> longest_avx512 class haystack least
           | V3 \<Rightarrow> least \<le> longest_avx2 class haystack least
           | V2 \<Rightarrow> least \<le> longest_ssse3 class haystack least
           | _ \<Rightarrow> has_run_of_scalar class haystack least)
      | Arch_aarch64 \<Rightarrow> least \<le> neon_longest class haystack least
      | Arch_other \<Rightarrow> has_run_of_scalar class haystack least)"

definition runs_tiered ::
  "target \<Rightarrow> machine \<Rightarrow> string option \<Rightarrow> byte_class \<Rightarrow> u8 list \<Rightarrow> nat \<Rightarrow> (nat \<times> nat) list"
where
  "runs_tiered t m env class haystack least =
     (case t_arch t of
        Arch_x86_64 \<Rightarrow>
          (case cpu_level t m env of
             V4 \<Rightarrow> runs_avx512 class haystack least
           | V3 \<Rightarrow> runs_avx2 class haystack least
           | V2 \<Rightarrow> runs_ssse3 class haystack least
           | _ \<Rightarrow> runs_scalar class haystack least)
      | Arch_aarch64 \<Rightarrow> neon_runs class haystack least
      | Arch_other \<Rightarrow> runs_scalar class haystack least)"

definition class_run :: "target \<Rightarrow> machine \<Rightarrow> string option \<Rightarrow> byte_class \<Rightarrow> u8 list \<Rightarrow> nat" where
  "class_run t m env class haystack =
     (case first_tiered t m env class haystack False of Some stop \<Rightarrow> stop | None \<Rightarrow> length haystack)"

definition class_find :: "target \<Rightarrow> machine \<Rightarrow> string option \<Rightarrow> byte_class \<Rightarrow> u8 list \<Rightarrow> nat option" where
  "class_find t m env class haystack = first_tiered t m env class haystack True"

definition longest_run :: "target \<Rightarrow> machine \<Rightarrow> string option \<Rightarrow> byte_class \<Rightarrow> u8 list \<Rightarrow> nat" where
  "longest_run t m env class haystack = longest_tiered t m env class haystack"

definition has_run_of :: "target \<Rightarrow> machine \<Rightarrow> string option \<Rightarrow> byte_class \<Rightarrow> u8 list \<Rightarrow> nat \<Rightarrow> bool" where
  "has_run_of t m env class haystack least \<longleftrightarrow> least = 0 \<or> has_run_tiered t m env class haystack least"

definition class_runs :: "target \<Rightarrow> machine \<Rightarrow> string option \<Rightarrow> byte_class \<Rightarrow> u8 list \<Rightarrow> nat \<Rightarrow> (nat \<times> nat) list" where
  "class_runs t m env class haystack least = runs_tiered t m env class haystack least"

end
