(* ===== verification/Byte_Laws.thy ===== *)
theory Byte_Laws
  imports Byte_Search
begin

unbundle bit_operations_syntax

text \<open>
  The byte searches of \<open>crates/pwrs/src/simd/bytes.rs\<close> find at every tier what their scalar forms find.
  A mask is an interface: \<open>lane_mask\<close> states what a compare's mask must be for the loops that count and
  select, \<open>candidate_mask\<close> what it must be for the search, and each set of instructions is an instance.
\<close>

section \<open>Reading a mask\<close>

lemma verify_find:
  "length needle \<le> length haystack \<Longrightarrow> sorted (map (drop_bit shift) (ones m)) \<Longrightarrow>
   verify haystack needle at m shift
   = List.find (occurs haystack needle) (map (\<lambda>k. at + drop_bit shift k) (ones m))"
proof (induction haystack needle at m shift rule: verify.induct)
  case (1 haystack needle at m shift)
  show ?case
  proof (cases "m = 0")
    case False
    let ?f = "\<lambda>k. at + drop_bit shift k :: nat"
    obtain t ts where o: "ones m = t # ts" and t: "trailing_zeros m = t"
      using trailing_zeros_ones [OF False] False ones_Nil by (cases "ones m") auto
    have ts: "ones (m AND (m - 1)) = ts"
      using clear_lowest [of m] o by simp
    have later: "?f t \<le> ?f k" if "k \<in> set ts" for k
      using "1.prems" o that by auto
    show ?thesis
    proof (cases "length haystack - length needle < ?f t")
      case True
      then have "\<not> occurs haystack needle p" if "p \<in> set (map ?f (ones m))" for p
        using that later o by (fastforce simp: occurs_def)
      then show ?thesis
        using True False t find_none [of "map ?f (ones m)"] by (subst verify.simps) auto
    next
      case fits: False
      have "?f t + length needle \<le> length haystack"
        using fits "1.prems" by simp
      then have "occurs haystack needle (?f t) \<longleftrightarrow> take (length needle) (drop (?f t) haystack) = needle"
        by (simp add: occurs_def)
      then show ?thesis
        using "1.IH" [OF False refl] "1.prems" False fits t ts o
        by (subst verify.simps) (simp add: Let_def)
    qed
  qed (subst verify.simps, simp add: ones_def)
qed

lemma ones_clear_lowest: "ones (((\<lambda>m. m AND (m - 1)) ^^ k) m) = drop k (ones m)"
  by (induction k) (simp_all add: clear_lowest drop_Suc tl_drop)

lemma nth_set_bit_ones: "0 < k \<Longrightarrow> k \<le> count_ones m \<Longrightarrow> nth_set_bit m k = ones m ! (k - 1)"
  unfolding nth_set_bit_def
  by (subst trailing_zeros_ones) (auto simp: ones_Nil [symmetric] ones_clear_lowest count_ones hd_drop_conv_nth)

lemma ones_clear_highest:
  "k \<le> count_ones m \<Longrightarrow>
   ones (((\<lambda>m. m XOR push_bit (63 - leading_zeros m) 1) ^^ k) m) = take (count_ones m - k) (ones m)"
proof (induction k)
  case (Suc k)
  let ?m = "((\<lambda>m. m XOR push_bit (63 - leading_zeros m) 1) ^^ k) m"
  have o: "ones ?m = take (count_ones m - k) (ones m)"
    using Suc by simp
  then have "?m \<noteq> 0"
    using Suc.prems by (auto simp: ones_Nil [symmetric] count_ones)
  then have "ones (?m XOR push_bit (63 - leading_zeros ?m) 1) = take (count_ones m - Suc k) (ones m)"
    using o by (simp add: clear_highest butlast_take count_ones del: push_bit_of_1)
  then show ?case
    by (simp del: push_bit_of_1)
qed (simp add: count_ones)

lemma last_take: "0 < k \<Longrightarrow> k \<le> length xs \<Longrightarrow> last (take (Suc (length xs) - k) xs) = xs ! (length xs - k)"
  by (subst last_conv_nth) (auto simp: min_def intro!: arg_cong [where f = "(!) xs"])

lemma nth_set_bit_from_top_ones:
  "0 < k \<Longrightarrow> k \<le> count_ones m \<Longrightarrow> nth_set_bit_from_top m k = rev (ones m) ! (k - 1)"
  unfolding nth_set_bit_from_top_def
  by (subst leading_zeros_ones)
    (auto simp: ones_Nil [symmetric] ones_clear_highest count_ones last_take rev_nth min_def
      simp del: push_bit_of_1)

section \<open>Searching\<close>

definition may_start :: "nat \<Rightarrow> u8 list \<Rightarrow> u8 list \<Rightarrow> nat \<Rightarrow> nat \<Rightarrow> bool" where
  "may_start width haystack needle i j \<longleftrightarrow>
     haystack ! (i + j) = needle ! 0 \<and>
     (i + length needle - 1 + width \<le> length haystack \<longrightarrow>
        haystack ! (i + length needle - 1 + j) = needle ! (length needle - 1))"

lemma occurs_may_start: "needle \<noteq> [] \<Longrightarrow> occurs haystack needle (i + j) \<Longrightarrow> may_start width haystack needle i j"
  using occurs_at [of haystack needle "i + j" 0] occurs_at [of haystack needle "i + j" "length needle - 1"]
  by (cases needle) (auto simp: may_start_def algebra_simps)

locale candidate_mask =
  fixes width shift :: nat and candidates :: "u8 list \<Rightarrow> u8 list \<Rightarrow> nat \<Rightarrow> u64"
  assumes width_pos: "0 < width"
    and candidates_are: "needle \<noteq> [] \<Longrightarrow> i + width \<le> length haystack \<Longrightarrow>
      map (drop_bit shift) (ones (candidates haystack needle i))
      = filter (may_start width haystack needle i) [0..<width]"
begin

lemma verify_block:
  assumes "needle \<noteq> []" and "length needle \<le> length haystack" and "i + width \<le> length haystack"
  shows "verify haystack needle i (candidates haystack needle i) shift
    = List.find (occurs haystack needle) [i..<i + width]"
proof -
  let ?js = "filter (may_start width haystack needle i) [0..<width]"
  have "verify haystack needle i (candidates haystack needle i) shift
      = List.find (occurs haystack needle) (map (\<lambda>j. i + j) ?js)"
    using verify_find [OF assms(2)] candidates_are [OF assms(1,3)]
    by (simp add: sorted_filter_upt comp_def flip: map_map [of "\<lambda>j. i + j" "drop_bit shift", unfolded comp_def])
  also have "map (\<lambda>j. i + j) ?js = filter (\<lambda>p. may_start width haystack needle i (p - i)) [i..<i + width]"
    by (rule shifted_filter)
  also have "List.find (occurs haystack needle) \<dots> = List.find (occurs haystack needle) [i..<i + width]"
    using occurs_may_start [OF assms(1), of haystack i] by (intro find_filter) (metis le_add_diff_inverse set_upt atLeastLessThan_iff)
  finally show ?thesis .
qed

lemma find_loop_leftmost:
  assumes "needle \<noteq> []" and "length needle \<le> length haystack"
  shows "i \<le> length haystack \<Longrightarrow>
    find_loop width shift (candidates haystack needle) haystack needle i = leftmost haystack needle i"
proof (induction "length haystack - i" arbitrary: i rule: less_induct)
  case less
  show ?case
  proof (cases "i + width \<le> length haystack")
    case True
    have "[i..<Suc (length haystack)] = [i..<i + width] @ [i + width..<Suc (length haystack)]"
      using True by (metis le_SucI le_add1 le_add_diff_inverse upt_add_eq_append)
    then show ?thesis
      using less.hyps [of "i + width"] less.prems True width_pos verify_block [OF assms True]
      by (subst find_loop.simps)
        (auto simp: leftmost_def find_None_append find_Some_append simp del: upt_Suc split: option.splits)
  next
    case False
    then show ?thesis
      using assms by (subst find_loop.simps) (simp add: tail_leftmost)
  qed
qed

lemma body_finds:
  assumes "needle \<noteq> []" and "length needle \<le> length haystack"
  shows "find_loop width shift (candidates haystack needle) haystack needle 0 = find_scalar haystack needle"
  using assms find_loop_leftmost [OF assms, of 0] by (simp add: find_scalar_def tail_leftmost)

end

section \<open>Counting and selecting\<close>

text \<open>The positions of a byte from a position on, and before one.\<close>

definition from_on :: "u8 list \<Rightarrow> u8 \<Rightarrow> nat \<Rightarrow> nat list" where
  "from_on haystack byte i = filter (\<lambda>p. haystack ! p = byte) [i..<length haystack]"

definition before :: "u8 list \<Rightarrow> u8 \<Rightarrow> nat \<Rightarrow> nat list" where
  "before haystack byte i = filter (\<lambda>p. haystack ! p = byte) [0..<i]"

lemma positions_cut: "positions haystack byte = from_on haystack byte 0"
    "positions haystack byte = before haystack byte (length haystack)"
  by (simp_all add: positions_def from_on_def before_def)

lemma scalar_enumerates:
  "filter (\<lambda>(_, b). b = byte) (enumerate 0 xs) = map (\<lambda>p. (p, byte)) (positions xs byte)"
proof -
  have "enumerate 0 xs = map (\<lambda>p. (p, xs ! p)) [0..<length xs]"
    by (rule nth_equalityI) (simp_all add: nth_enumerate_eq)
  then show ?thesis
    by (auto simp: positions_def filter_map comp_def)
qed

lemma nth_item_map: "nth_item (map f xs) k = map_option f (nth_item xs k)"
  by (simp add: nth_item_def)

lemma nth_item_append:
  "nth_item (xs @ ys) k = (if k < length xs then Some (xs ! k) else nth_item ys (k - length xs))"
  by (auto simp: nth_item_def nth_append)

lemma nth_byte_scalar_positions:
  "nth_byte_scalar haystack byte n = (if n = 0 then None else nth_item (positions haystack byte) (n - 1))"
  unfolding nth_byte_scalar_def by (simp add: scalar_enumerates nth_item_map option.map_comp comp_def option.map_ident)

lemma nth_byte_back_scalar_positions:
  "nth_byte_back_scalar haystack byte n
    = (if n = 0 then None else nth_item (rev (positions haystack byte)) (n - 1))"
  unfolding nth_byte_back_scalar_def
  by (simp add: scalar_enumerates rev_map rev_filter [symmetric] nth_item_map option.map_comp comp_def option.map_ident)

lemma count_scalar_positions: "count_scalar haystack byte = length (positions haystack byte)"
  unfolding count_scalar_def positions_def
  using length_filter_map [of "\<lambda>b. b = byte" "\<lambda>p. haystack ! p" "[0..<length haystack]"]
  by (simp add: map_nth comp_def)

lemma positions_drop: "map (\<lambda>p. i + p) (positions (drop i haystack) byte) = from_on haystack byte i"
proof (cases "i \<le> length haystack")
  case True
  have "map (\<lambda>p. i + p) (positions (drop i haystack) byte)
      = map (\<lambda>p. i + p) (filter (\<lambda>p. haystack ! (i + p) = byte) [0..<length haystack - i])"
    unfolding positions_def using True by (auto intro!: arg_cong [where f = "map _"] filter_cong)
  then show ?thesis
    using True by (auto simp: shifted_filter from_on_def intro!: filter_cong)
qed (simp add: positions_def from_on_def)

lemma positions_take: "i \<le> length haystack \<Longrightarrow> positions (take i haystack) byte = before haystack byte i"
  by (auto simp: positions_def before_def intro!: filter_cong)

lemma from_on_block:
  assumes "i + w \<le> length haystack"
  shows "from_on haystack byte i
    = map (\<lambda>j. i + j) (filter (\<lambda>j. load w i haystack ! j = byte) [0..<w]) @ from_on haystack byte (i + w)"
proof -
  have "filter (\<lambda>j. load w i haystack ! j = byte) [0..<w] = filter (\<lambda>j. haystack ! (i + j) = byte) [0..<w]"
    using assms by (auto simp: load_def intro!: filter_cong)
  then have "map (\<lambda>j. i + j) (filter (\<lambda>j. load w i haystack ! j = byte) [0..<w])
      = filter (\<lambda>p. haystack ! p = byte) [i..<i + w]"
    by (simp add: shifted_filter) (auto intro!: filter_cong)
  moreover have "[i..<length haystack] = [i..<i + w] @ [i + w..<length haystack]"
    using assms by (metis le_add1 le_add_diff_inverse upt_add_eq_append)
  ultimately show ?thesis
    by (simp add: from_on_def)
qed

lemma before_block:
  assumes "w \<le> i" and "i \<le> length haystack"
  shows "before haystack byte i
    = before haystack byte (i - w)
      @ map (\<lambda>j. i - w + j) (filter (\<lambda>j. load w (i - w) haystack ! j = byte) [0..<w])"
proof -
  have "filter (\<lambda>j. load w (i - w) haystack ! j = byte) [0..<w]
      = filter (\<lambda>j. haystack ! (i - w + j) = byte) [0..<w]"
    using assms by (auto simp: load_def intro!: filter_cong)
  then have "map (\<lambda>j. i - w + j) (filter (\<lambda>j. load w (i - w) haystack ! j = byte) [0..<w])
      = filter (\<lambda>p. haystack ! p = byte) [i - w..<i - w + w]"
    by (simp only: shifted_filter) (auto intro!: filter_cong)
  moreover have "[0..<i] = [0..<i - w] @ [i - w..<i - w + w]"
    using assms by (metis le0 le_add_diff_inverse2 upt_add_eq_append add_0 diff_le_self)
  ultimately show ?thesis
    by (simp add: before_def)
qed

locale lane_mask =
  fixes width shift :: nat and mask_of :: "u8 \<Rightarrow> u8 list \<Rightarrow> u64"
  assumes width_pos: "0 < width"
    and lanes_are: "length v = width \<Longrightarrow>
      map (drop_bit shift) (ones (mask_of b v)) = filter (\<lambda>j. v ! j = b) [0..<width]"
begin

lemma here_is:
  "length v = width \<Longrightarrow> count_ones (mask_of b v) = length (filter (\<lambda>j. v ! j = b) [0..<width])"
  using lanes_are [of v b] by (metis count_ones length_map)

lemma selected_is:
  assumes "length v = width" and "0 < k" and "k \<le> count_ones (mask_of b v)"
  shows "drop_bit shift (nth_set_bit (mask_of b v) k) = filter (\<lambda>j. v ! j = b) [0..<width] ! (k - 1)"
    and "drop_bit shift (nth_set_bit_from_top (mask_of b v) k) = rev (filter (\<lambda>j. v ! j = b) [0..<width]) ! (k - 1)"
  unfolding nth_set_bit_ones [OF assms(2,3)] nth_set_bit_from_top_ones [OF assms(2,3)]
    lanes_are [OF assms(1), symmetric]
  using assms(2,3) by (simp_all add: count_ones rev_map)

lemma counts: "count_loop width (mask_of b) haystack b tally i = tally + length (from_on haystack b i)"
proof (induction "length haystack - i" arbitrary: i tally rule: less_induct)
  case less
  show ?case
  proof (cases "i + width \<le> length haystack")
    case True
    then show ?thesis
      using less.hyps [of "i + width"] width_pos from_on_block [OF True, of b] here_is [of "load width i haystack" b]
      by (subst count_loop.simps) (simp add: load_def)
  next
    case False
    then show ?thesis
      using arg_cong [OF positions_drop [of i haystack b], of length]
      by (subst count_loop.simps) (simp add: count_scalar_positions)
  qed
qed

lemma selects:
  "0 < left \<Longrightarrow> nth_loop width shift (mask_of b) haystack b left i = nth_item (from_on haystack b i) (left - 1)"
proof (induction "length haystack - i" arbitrary: i left rule: less_induct)
  case less
  show ?case
  proof (cases "i + width \<le> length haystack")
    case True
    let ?v = "load width i haystack" and ?js = "filter (\<lambda>j. load width i haystack ! j = b) [0..<width]"
    have v: "length ?v = width"
      using True by (simp add: load_def)
    show ?thesis
    proof (cases "left \<le> count_ones (mask_of b ?v)")
      case here: True
      then have "left - 1 < length ?js"
        using less.prems here_is [OF v, of b] by simp
      then show ?thesis
        using True width_pos here selected_is(1) [OF v less.prems here]
        by (subst nth_loop.simps) (simp add: Let_def from_on_block [OF True] nth_item_append)
    next
      case later: False
      have "nth_loop width shift (mask_of b) haystack b left i
          = nth_item (from_on haystack b (i + width)) (left - length ?js - 1)"
        using less.hyps [of "i + width" "left - length ?js"] True later width_pos here_is [OF v, of b]
        by (subst nth_loop.simps) (simp add: Let_def)
      moreover have "\<not> left - 1 < length ?js"
        using later here_is [OF v, of b] by simp
      ultimately show ?thesis
        by (simp add: from_on_block [OF True] nth_item_append)
    qed
  next
    case False
    then show ?thesis
      using less.prems
      by (subst nth_loop.simps)
        (simp add: nth_byte_scalar_positions positions_drop flip: nth_item_map)
  qed
qed

lemma selects_back:
  "0 < left \<Longrightarrow> final \<le> length haystack \<Longrightarrow>
   nth_back_loop width shift (mask_of b) haystack b left final = nth_item (rev (before haystack b final)) (left - 1)"
proof (induction final arbitrary: left rule: less_induct)
  case (less final)
  show ?case
  proof (cases "width \<le> final")
    case True
    let ?v = "load width (final - width) haystack"
    let ?js = "filter (\<lambda>j. load width (final - width) haystack ! j = b) [0..<width]"
    have v: "length ?v = width"
      using True less.prems by (simp add: load_def)
    note cut = before_block [OF True less.prems(2), of b]
    show ?thesis
    proof (cases "left \<le> count_ones (mask_of b ?v)")
      case here: True
      then have "left - 1 < length ?js"
        using less.prems here_is [OF v, of b] by simp
      then show ?thesis
        using True width_pos here selected_is(2) [OF v less.prems(1) here]
        by (subst nth_back_loop.simps) (simp add: Let_def cut nth_item_append rev_map)
    next
      case later: False
      have "nth_back_loop width shift (mask_of b) haystack b left final
          = nth_item (rev (before haystack b (final - width))) (left - length ?js - 1)"
        using less.IH [of "final - width" "left - length ?js"] less.prems True later width_pos here_is [OF v, of b]
        by (subst nth_back_loop.simps) (simp add: Let_def)
      moreover have "\<not> left - 1 < length ?js"
        using later here_is [OF v, of b] by simp
      ultimately show ?thesis
        by (simp add: cut nth_item_append)
    qed
  next
    case False
    then show ?thesis
      using less.prems
      by (subst nth_back_loop.simps) (simp add: nth_byte_back_scalar_positions positions_take)
  qed
qed

lemma bodies:
  "count_loop width (mask_of b) haystack b 0 0 = count_scalar haystack b"
  "0 < n \<Longrightarrow> nth_loop width shift (mask_of b) haystack b n 0 = nth_byte_scalar haystack b n"
  "0 < n \<Longrightarrow> nth_back_loop width shift (mask_of b) haystack b n (length haystack) = nth_byte_back_scalar haystack b n"
  by (simp_all add: counts selects selects_back count_scalar_positions nth_byte_scalar_positions
      nth_byte_back_scalar_positions flip: positions_cut)

end

section \<open>The masks of the instruction sets\<close>

lemma drop_bit_0_ones: "map (drop_bit 0) js = (js :: nat list)"
  by (simp add: map_idI)

interpretation sse2: lane_mask 16 0 "movemask_eq 16"
  by unfold_locales (simp_all add: movemask_eq_def ones_movemask drop_bit_0_ones)

interpretation avx2: lane_mask 32 0 "movemask_eq 32"
  by unfold_locales (simp_all add: movemask_eq_def ones_movemask drop_bit_0_ones)

interpretation avx512: lane_mask 64 0 kmask_eq
  by unfold_locales (simp_all add: kmask_eq_def ones_cmpeq_mask drop_bit_0_ones)

text \<open>The two compares of a candidate mask: the second marks among the first's.\<close>

lemma ones_and: "ones (m AND m') = filter (\<lambda>k. k \<in> set (ones m')) (ones m)"
  by (rule ones_eqI) (auto simp: ones_iff bit_and_iff sorted_filter [where f = id, simplified])

lemma load_nth: "i + w \<le> length xs \<Longrightarrow> j < w \<Longrightarrow> load w i xs ! j = xs ! (i + j)"
  by (simp add: load_def)

lemma x86_candidates_are:
  assumes mask_are: "\<And>b v. length v = width \<Longrightarrow> ones (mask_eq b v) = filter (\<lambda>j. v ! j = b) [0..<width]"
    and needle: "needle \<noteq> []" and fits: "i + width \<le> length haystack"
  shows "ones (x86_candidates width mask_eq haystack needle i) = filter (may_start width haystack needle i) [0..<width]"
proof -
  let ?m = "mask_eq (needle ! 0) (load width i haystack)"
  have first: "ones ?m = filter (\<lambda>j. haystack ! (i + j) = needle ! 0) [0..<width]"
    using fits by (subst mask_are) (auto simp: load_def intro!: filter_cong)
  show ?thesis
  proof (cases "?m \<noteq> 0 \<and> i + length needle - 1 + width \<le> length haystack")
    case True
    then have "ones (mask_eq (needle ! (length needle - 1)) (load width (i + length needle - 1) haystack))
        = filter (\<lambda>j. haystack ! (i + length needle - 1 + j) = needle ! (length needle - 1)) [0..<width]"
      by (subst mask_are) (auto simp: load_def intro!: filter_cong)
    then show ?thesis
      using True by (auto simp: x86_candidates_def Let_def ones_and first may_start_def intro!: filter_cong)
  next
    case False
    then have "x86_candidates width mask_eq haystack needle i = ?m"
      by (auto simp: x86_candidates_def Let_def)
    moreover have "filter (\<lambda>j. haystack ! (i + j) = needle ! 0) [0..<width]
        = filter (may_start width haystack needle i) [0..<width]"
    proof (cases "?m = 0")
      case True
      then have "filter (\<lambda>j. haystack ! (i + j) = needle ! 0) [0..<width] = []"
        using first ones_Nil by metis
      then show ?thesis
        by (auto simp: filter_empty_conv may_start_def)
    next
      case nonzero: False
      then show ?thesis
        using False by (auto simp: may_start_def intro!: filter_cong)
    qed
    ultimately show ?thesis
      using first by simp
  qed
qed

interpretation find16: candidate_mask 16 0 "x86_candidates 16 (movemask_eq 16)"
  by unfold_locales (simp_all add: drop_bit_0_ones x86_candidates_are movemask_eq_def ones_movemask)

interpretation find32: candidate_mask 32 0 "x86_candidates 32 (movemask_eq 32)"
  by unfold_locales (simp_all add: drop_bit_0_ones x86_candidates_are movemask_eq_def ones_movemask)

interpretation find64: candidate_mask 64 0 "x86_candidates 64 kmask_eq"
  by unfold_locales (simp_all add: drop_bit_0_ones x86_candidates_are kmask_eq_def ones_cmpeq_mask)

section \<open>NEON\<close>

text \<open>A vector that a compare leaves: 0 or 0xFF in every lane.\<close>

definition marks :: "(nat \<Rightarrow> bool) \<Rightarrow> u8 list \<Rightarrow> bool" where
  "marks P v \<longleftrightarrow> length v = 16 \<and> (\<forall>j<16. v ! j = (if P j then 0xFF else 0))"

lemma marks_cmpeq: "length v = 16 \<Longrightarrow> marks (\<lambda>j. v ! j = b) (cmpeq_epi8 v (set1_epi8 16 b))"
  by (simp add: marks_def cmpeq_epi8_def set1_epi8_def)

lemma marks_and: "marks P a \<Longrightarrow> marks Q b \<Longrightarrow> marks (\<lambda>j. P j \<and> Q j) (vec_and a b)"
  by (auto simp: marks_def vec_and_def)

lemma bit_u64_of_bytes:
  "length v \<le> 8 \<Longrightarrow> bit (u64_of_bytes v) k \<longleftrightarrow> k < 8 * length v \<and> bit (v ! (k div 8)) (k mod 8)"
  by (auto simp: bit_of_bytes div_less_iff_less_mult mult.commute)

definition narrowed :: "u8 \<Rightarrow> u8 \<Rightarrow> u8" where
  "narrowed lo hi = ucast (drop_bit 4 (ucast lo OR push_bit 8 (ucast hi) :: u16))"

lemma bit_narrowed: "bit (narrowed lo hi) k \<longleftrightarrow> k < 8 \<and> (if k < 4 then bit lo (k + 4) else bit hi (k - 4))"
  by (simp only: narrowed_def bit_or_iff bit_push_bit_iff bit_ucast_iff bit_drop_bit_eq comp_apply)
    (auto simp: algebra_simps dest: bit_imp_le_length)

lemma nth_vshrn:
  "length v = 2 * n \<Longrightarrow> length (vshrn_n_u16_4 v) = n \<and>
   (\<forall>i<n. vshrn_n_u16_4 v ! i = narrowed (v ! (2 * i)) (v ! (2 * i + 1)))"
proof (induction n arbitrary: v)
  case (Suc n)
  then obtain lo hi w where v: "v = lo # hi # w"
    by (cases v rule: vshrn_n_u16_4.cases) auto
  have "vshrn_n_u16_4 v = narrowed lo hi # vshrn_n_u16_4 w"
    by (simp only: v vshrn_n_u16_4.simps narrowed_def)
  then show ?case
    using Suc.IH [of w] Suc.prems by (auto simp: v nth_Cons split: nat.splits)
qed simp

text \<open>Each lane keeps its top bit: lane \<open>j\<close> is bit \<open>4 * j + 3\<close>.\<close>

lemma bit_8s: "bit (0x8888888888888888 :: u64) k \<longleftrightarrow> k < 64 \<and> k mod 4 = 3"
proof (cases "k < 64")
  case True
  then have "k \<in> set [0..<64]"
    by simp
  moreover have "list_all (\<lambda>k. bit (0x8888888888888888 :: u64) k = (k mod 4 = 3)) [0..<64]"
    by code_simp
  ultimately show ?thesis
    using True by (simp add: list_all_iff)
qed (auto dest: bit_imp_le_length)

lemma bit_lanes:
  assumes "marks P v"
  shows "bit (lanes v) k \<longleftrightarrow> k < 64 \<and> k mod 4 = 3 \<and> P (k div 4)"
proof -
  have len: "length v = 2 * 8"
    using assms by (simp add: marks_def)
  note narrow = nth_vshrn [OF len]
  have lane: "bit (v ! j) i \<longleftrightarrow> P j" if "j < 16" "i < 8" for i j
  proof -
    have "(0xFF :: u8) = Bit_Operations.mask 8"
      by (simp add: mask_eq_exp_minus_1)
    then have "bit (0xFF :: u8) i"
      using that by (simp only: bit_mask_iff) simp
    then show ?thesis
      using assms that by (simp add: marks_def)
  qed
  have "bit (u64_of_bytes (vshrn_n_u16_4 v)) k \<longleftrightarrow> P (k div 4)" if k: "k < 64" "k mod 4 = 3"
  proof -
    have byte: "k div 8 < 8" and top: "k mod 8 = 3 \<or> k mod 8 = 7"
      using k by (simp, presburger)
    from top show ?thesis
    proof
      assume m: "k mod 8 = 3"
      then have "k div 4 = 2 * (k div 8)"
        by presburger
      then show ?thesis
        using k byte m narrow lane [of "2 * (k div 8)" 7] by (simp add: bit_u64_of_bytes bit_narrowed)
    next
      assume m: "k mod 8 = 7"
      then have "k div 4 = 2 * (k div 8) + 1"
        by presburger
      then show ?thesis
        using k byte m narrow lane [of "2 * (k div 8) + 1" 3] by (simp add: bit_u64_of_bytes bit_narrowed)
    qed
  qed
  then show ?thesis
    unfolding lanes_def bit_and_iff bit_8s by blast
qed

lemma ones_fourths:
  assumes m: "\<And>k. bit m k \<longleftrightarrow> k < 64 \<and> k mod 4 = 3 \<and> P (k div 4)"
  shows "map (drop_bit 2) (ones m) = filter P [0..<16]"
proof -
  have "ones m = map (\<lambda>j. 4 * j + 3) (filter P [0..<16])"
  proof (rule ones_eqI)
    show "set (ones m) = set (map (\<lambda>j. 4 * j + 3) (filter P [0..<16]))"
    proof (rule set_eqI)
      fix k :: nat
      have "k = 4 * (k div 4) + 3" if "k mod 4 = 3"
        using that by presburger
      then show "k \<in> set (ones m) \<longleftrightarrow> k \<in> set (map (\<lambda>j. 4 * j + 3) (filter P [0..<16]))"
        by (auto simp: ones_iff m image_iff intro!: exI [of _ "k div 4"])
    qed
    have "sorted (filter P [0..<16])"
      by (rule sorted_filter_upt)
    then show "sorted (map (\<lambda>j. 4 * j + 3) (filter P [0..<16]))"
      by (simp add: sorted_map)
    show "distinct (map (\<lambda>j. 4 * j + 3) (filter P [0..<16]))"
      by (simp add: distinct_map inj_on_def)
  qed
  then show ?thesis
    by (simp add: comp_def drop_bit_eq_div map_idI)
qed

lemma ones_lanes: "marks P v \<Longrightarrow> map (drop_bit 2) (ones (lanes v)) = filter P [0..<16]"
  by (rule ones_fourths) (rule bit_lanes)

interpretation neon: lane_mask 16 2 lanes_eq
  by unfold_locales (simp_all add: lanes_eq_def ones_lanes [OF marks_cmpeq])

lemma max_lane_zero: "foldl max a v = 0 \<longleftrightarrow> a = 0 \<and> (\<forall>x \<in> set v. x = (0 :: u8))"
proof (induction v arbitrary: a)
  case (Cons x v)
  have "max a x = 0 \<longleftrightarrow> a = 0 \<and> x = 0"
    by (auto simp: max_def)
  then show ?case
    using Cons by simp
qed simp

lemma max_lane_marks: "marks P v \<Longrightarrow> vmaxvq_u8 v = 0 \<longleftrightarrow> (\<forall>j<16. \<not> P j)"
  by (auto simp: vmaxvq_u8_def max_lane_zero marks_def all_set_conv_all_nth)

lemma neon_candidates_are:
  assumes "needle \<noteq> []" and fits: "i + 16 \<le> length haystack"
  shows "map (drop_bit 2) (ones (neon_candidates haystack needle i)) = filter (may_start 16 haystack needle i) [0..<16]"
proof -
  let ?final = "i + length needle - 1"
  let ?eq = "cmpeq_epi8 (load 16 i haystack) (set1_epi8 16 (needle ! 0))"
  let ?eq' = "cmpeq_epi8 (load 16 ?final haystack) (set1_epi8 16 (needle ! (length needle - 1)))"
  have eq: "marks (\<lambda>j. load 16 i haystack ! j = needle ! 0) ?eq"
    using fits by (intro marks_cmpeq) (simp add: load_def)
  show ?thesis
  proof (cases "vmaxvq_u8 ?eq \<noteq> 0 \<and> ?final + 16 \<le> length haystack")
    case True
    then have "marks (\<lambda>j. load 16 ?final haystack ! j = needle ! (length needle - 1)) ?eq'"
      by (intro marks_cmpeq) (auto simp: load_def)
    moreover have "neon_candidates haystack needle i = lanes (vec_and ?eq ?eq')"
      using True by (simp add: neon_candidates_def Let_def)
    ultimately show ?thesis
      using True fits ones_lanes [OF marks_and [OF eq]]
      by (auto simp: may_start_def load_nth intro!: filter_cong)
  next
    case False
    then have "neon_candidates haystack needle i = lanes ?eq"
      by (auto simp: neon_candidates_def Let_def)
    moreover have "vmaxvq_u8 ?eq = 0 \<Longrightarrow> \<forall>j<16. haystack ! (i + j) \<noteq> needle ! 0"
      using max_lane_marks [OF eq] fits by (simp add: load_nth)
    ultimately show ?thesis
      using False fits ones_lanes [OF eq] by (auto simp: may_start_def load_nth intro!: filter_cong)
  qed
qed

interpretation find_neon: candidate_mask 16 2 neon_candidates
  by unfold_locales (simp_all add: neon_candidates_are)

section \<open>The lanes of the NEON count\<close>

lemma minus_0xFF: "(x :: u8) - 0xFF = x + 1"
  by simp

lemma subtract_marks:
  "length a = length v \<Longrightarrow> \<forall>x \<in> set a. unat x \<le> r \<Longrightarrow> r < 255 \<Longrightarrow>
   sum_list (map unat (vsubq_u8 a (cmpeq_epi8 v (set1_epi8 (length v) b))))
     = sum_list (map unat a) + count_scalar v b
   \<and> (\<forall>x \<in> set (vsubq_u8 a (cmpeq_epi8 v (set1_epi8 (length v) b))). unat x \<le> Suc r)
   \<and> length (vsubq_u8 a (cmpeq_epi8 v (set1_epi8 (length v) b))) = length v"
proof (induction a v rule: list_induct2)
  case (Cons x xs y ys)
  have "unat (x + 1) = unat x + 1"
    using Cons.prems by (subst unat_add_lem [THEN iffD1]) auto
  then show ?case
    using Cons by (auto simp: vsubq_u8_def cmpeq_epi8_def set1_epi8_def count_scalar_def minus_0xFF)
qed (simp_all add: vsubq_u8_def cmpeq_epi8_def set1_epi8_def count_scalar_def)

lemma unat_vaddlvq: "sum_list (map unat v) < 2 ^ 16 \<Longrightarrow> unat (vaddlvq_u8 v) = sum_list (map unat v)"
proof (induction v)
  case (Cons x v)
  have "unat (ucast x :: u16) = unat x"
    using unat_byte [of x] by (simp add: unsigned_ucast_eq take_bit_nat_eq_self)
  then show ?case
    using Cons by (simp add: vaddlvq_u8_def) (subst unat_add_lem [THEN iffD1]; simp)
qed (simp add: vaddlvq_u8_def)

text \<open>255 rounds fit a lane, and sixteen lanes fit the sum.\<close>

lemma rounds_count:
  "length acc = 16 \<Longrightarrow> \<forall>x \<in> set acc. unat x \<le> rounds \<Longrightarrow> rounds \<le> 255 \<Longrightarrow>
   neon_rounds haystack b acc rounds i = (acc', i') \<Longrightarrow>
   sum_list (map unat acc') + length (from_on haystack b i') = sum_list (map unat acc) + length (from_on haystack b i)
   \<and> length acc' = 16 \<and> (\<forall>x \<in> set acc'. unat x \<le> 255)"
proof (induction haystack b acc rounds i rule: neon_rounds.induct)
  case (1 haystack b acc rounds i)
  show ?case
  proof (cases "rounds < 255 \<and> i + 16 \<le> length haystack")
    case True
    let ?v = "load 16 i haystack"
    let ?acc = "vsubq_u8 acc (cmpeq_epi8 ?v (set1_epi8 16 b))"
    have v: "length ?v = 16"
      using True by (auto simp: load_def)
    then have sub: "sum_list (map unat ?acc) = sum_list (map unat acc) + count_scalar ?v b"
        "\<forall>x \<in> set ?acc. unat x \<le> rounds + 1" "length ?acc = 16"
      using subtract_marks [of acc ?v rounds b] "1.prems" True by simp_all
    have "length (from_on haystack b i) = count_scalar ?v b + length (from_on haystack b (i + 16))"
      using True v by (simp add: from_on_block [of i 16] count_scalar_positions positions_def)
    moreover have "neon_rounds haystack b ?acc (rounds + 1) (i + 16) = (acc', i')"
      using "1.prems"(4) True by (subst (asm) neon_rounds.simps) simp
    ultimately show ?thesis
      using "1.IH" [OF True sub(3,2)] True sub(1) by simp
  next
    case False
    then show ?thesis
      using "1.prems" neon_rounds.simps [of haystack b acc rounds i]
      by (auto intro: le_trans)
  qed
qed

lemma neon_counts: "neon_count_loop haystack b tally i = tally + length (from_on haystack b i)"
proof (induction "length haystack - i" arbitrary: i tally rule: less_induct)
  case less
  show ?case
  proof (cases "i + 16 \<le> length haystack")
    case True
    obtain acc i' where r: "neon_rounds haystack b (set1_epi8 16 0) 0 i = (acc, i')"
      by fastforce
    have c: "sum_list (map unat acc) + length (from_on haystack b i') = length (from_on haystack b i)"
        "length acc = 16" "\<forall>x \<in> set acc. unat x \<le> 255"
      using rounds_count [OF _ _ _ r] by (simp_all add: set1_epi8_def sum_list_replicate)
    have "sum_list (map unat acc) \<le> length acc * 255"
      using sum_list_mono [of acc unat "\<lambda>_. 255"] c(3) by (simp add: sum_list_triv)
    then have "unat (vaddlvq_u8 acc) = sum_list (map unat acc)"
      using c(2) by (intro unat_vaddlvq) simp
    then show ?thesis
      using less [of i' "tally + unat (vaddlvq_u8 acc)"] neon_rounds_moves [OF True r] True r c(1)
      by (subst neon_count_loop.simps) simp
  next
    case False
    then show ?thesis
      using arg_cong [OF positions_drop [of i haystack b], of length]
      by (subst neon_count_loop.simps) (simp add: count_scalar_positions)
  qed
qed

section \<open>Every tier\<close>

lemma find_tiers:
  assumes "needle \<noteq> []" and "length needle \<le> length haystack"
  shows "find_tiered t m env haystack needle = find_scalar haystack needle"
  using find16.body_finds [OF assms] find32.body_finds [OF assms] find64.body_finds [OF assms]
    find_neon.body_finds [OF assms]
  by (simp add: find_tiered_def find_sse2_def find_avx2_def find_avx512_def neon_find_def
      split: arch.split level.split)

lemma count_tiers: "count_bytes t m env haystack byte = count_scalar haystack byte"
  by (simp add: count_bytes_def count_sse2_def count_avx2_def count_avx512_def neon_count_def
      sse2.bodies avx2.bodies avx512.bodies neon_counts count_scalar_positions positions_cut
      split: arch.split level.split)

lemma nth_tiers: "0 < n \<Longrightarrow> nth_tiered t m env haystack byte n = nth_byte_scalar haystack byte n"
  by (simp add: nth_tiered_def nth_sse2_def nth_avx2_def nth_avx512_def neon_nth_def
      sse2.bodies avx2.bodies avx512.bodies neon.bodies split: arch.split level.split)

lemma nth_back_tiers: "0 < n \<Longrightarrow> nth_back_tiered t m env haystack byte n = nth_byte_back_scalar haystack byte n"
  by (simp add: nth_back_tiered_def nth_back_sse2_def nth_back_avx2_def nth_back_avx512_def neon_nth_back_def
      sse2.bodies avx2.bodies avx512.bodies neon.bodies split: arch.split level.split)

text \<open>
  C23: on every target, machine and \<open>PWRS_CPU_MAX\<close>, for every input, \<open>find\<close>, \<open>count\<close>, \<open>nth_byte\<close> and
  \<open>nth_byte_back\<close> give what their scalar forms give.
\<close>

theorem searches_are_scalar:
  "find_bytes t m env haystack needle = find_scalar haystack needle \<and>
   count_bytes t m env haystack byte = count_scalar haystack byte \<and>
   nth_byte t m env haystack byte n = nth_byte_scalar haystack byte n \<and>
   nth_byte_back t m env haystack byte n = nth_byte_back_scalar haystack byte n"
  by (simp add: find_bytes_def find_scalar_def find_tiers count_tiers nth_byte_def nth_byte_back_def nth_tiers
      nth_back_tiers nth_byte_scalar_def nth_byte_back_scalar_def)

text \<open>
  C24: \<open>find\<close> gives the leftmost place the whole needle occurs at, \<open>count\<close> the number of places the byte
  is at, and the selections the \<open>n\<close>th of those places from the start and from the end.
\<close>

theorem searches_find:
  "find_scalar haystack needle = List.find (occurs haystack needle) [0..<Suc (length haystack)] \<and>
   count_scalar haystack byte = length (positions haystack byte) \<and>
   nth_byte_scalar haystack byte n
     = (if n = 0 \<or> length (positions haystack byte) < n then None else Some (positions haystack byte ! (n - 1))) \<and>
   nth_byte_back_scalar haystack byte n
     = (if n = 0 \<or> length (positions haystack byte) < n then None
        else Some (positions haystack byte ! (length (positions haystack byte) - n)))"
proof (intro conjI)
  show "find_scalar haystack needle = List.find (occurs haystack needle) [0..<Suc (length haystack)]"
  proof (cases "needle = [] \<or> length haystack < length needle")
    case True
    then show ?thesis
      by (auto simp: find_scalar_def occurs_def upt_conv_Cons find_none simp del: upt_Suc intro!: find_none [symmetric])
  next
    case False
    then show ?thesis
      by (simp add: find_scalar_def tail_leftmost leftmost_def del: upt_Suc)
  qed
qed (auto simp: count_scalar_positions nth_byte_scalar_positions nth_byte_back_scalar_positions nth_item_def rev_nth)

end
