(* ===== verification/Class_Scans.thy ===== *)
theory Class_Scans
  imports Byte_Class Byte_Laws
begin

unbundle bit_operations_syntax

text \<open>
  The scans of \<open>ByteClass\<close> over lists of positions: where the bytes outside the class are in a block is
  all a block does to a scan. \<open>class_lanes\<close> is the interface of the masks, and the scans are proved
  inside it to give what the loops a byte at a time give.
\<close>

section \<open>Breaks\<close>

definition outside :: "byte_class \<Rightarrow> u8 list \<Rightarrow> nat list" where
  "outside class v = filter (\<lambda>j. \<not> contains class (v ! j)) [0..<length v]"

lemma outside_Nil [simp]: "outside class [] = []"
  by (simp add: outside_def)

lemma outside_Cons:
  "outside class (b # v) = (if contains class b then [] else [0]) @ map Suc (outside class v)"
  by (simp add: outside_def upt_conv_Cons map_Suc_upt [symmetric] filter_map comp_def del: upt_Suc)

lemma outside_snoc:
  "outside class (v @ [b]) = outside class v @ (if contains class b then [] else [length v])"
  by (auto simp: outside_def nth_append intro!: filter_cong)

lemma outside_less: "x \<in> set (outside class v) \<Longrightarrow> x < length v"
  by (simp add: outside_def)

lemma outside_sorted: "sorted_wrt (<) (outside class v)"
  by (simp add: outside_def sorted_wrt_filter)

lemma outside_append:
  "outside class (v @ w) = outside class v @ map (\<lambda>j. length v + j) (outside class w)"
  by (induction w rule: rev_induct) (simp_all add: outside_snoc flip: append_assoc)

definition gaps :: "nat \<Rightarrow> nat list \<Rightarrow> nat list" where
  "gaps prev rest = map2 (\<lambda>a b. b - a - 1) (prev # rest) rest"

lemma gaps_simps [simp]: "gaps prev [] = []" "gaps prev (n # rest) = (n - prev - 1) # gaps n rest"
  by (simp_all add: gaps_def)

lemma gaps_snoc: "gaps prev (rest @ [x]) = gaps prev rest @ [x - last (prev # rest) - 1]"
  by (induction rest arbitrary: prev) auto

text \<open>Between two breaks of a block are only bytes of the class.\<close>

lemma sorted_room: "sorted_wrt (<) (x # xs) \<Longrightarrow> \<forall>y \<in> set (x # xs). y < w \<Longrightarrow> x + length xs < (w :: nat)"
proof (induction xs arbitrary: x)
  case (Cons y ys)
  then show ?case
    using Cons.IH [of y] by fastforce
qed simp

lemma gaps_fit:
  "sorted_wrt (<) (prev # rest) \<Longrightarrow> \<forall>x \<in> set (prev # rest). x < w \<Longrightarrow> c \<le> prev \<Longrightarrow>
   g \<in> set (gaps prev rest) \<Longrightarrow> g + (c + Suc (length rest)) \<le> w"
proof (induction rest arbitrary: prev c)
  case (Cons n rest)
  have "n + length rest < w"
    using sorted_room [of n rest w] Cons.prems by simp
  then show ?case
    using Cons.IH [of n "Suc c"] Cons.prems by auto
qed simp

section \<open>The longest run\<close>

definition longest_step :: "byte_class \<Rightarrow> nat \<times> nat \<Rightarrow> u8 \<Rightarrow> nat \<times> nat" where
  "longest_step class = (\<lambda>(longest, run) b.
     let run = (if contains class b then run + 1 else 0) in (max longest run, run))"

lemma longest_step_pair [simp]:
  "longest_step class (longest, run) b
    = (max longest (if contains class b then run + 1 else 0), if contains class b then run + 1 else 0)"
  by (simp add: longest_step_def)

lemma longest_step_grows: "longest \<le> fst (foldl (longest_step class) (longest, run) v)"
proof (induction v arbitrary: longest run)
  case (Cons b v)
  let ?run = "if contains class b then run + 1 else 0"
  show ?case
    using Cons.IH [of "max longest ?run" ?run] by simp
qed simp

lemma longest_step_keeps:
  "run \<le> longest \<Longrightarrow> (case foldl (longest_step class) (longest, run) v of (longest, run) \<Rightarrow> run \<le> longest)"
  by (induction v rule: rev_induct) (auto split: prod.splits)

text \<open>A scan may stop early: it has the longest run, or one that reaches \<open>stop\<close>.\<close>

definition agrees :: "nat \<Rightarrow> nat \<Rightarrow> nat \<Rightarrow> bool" where
  "agrees stop found whole \<longleftrightarrow> found \<le> whole \<and> (found = whole \<or> stop \<le> found)"

lemma agrees_reach: "agrees stop found whole \<Longrightarrow> stop \<le> found \<longleftrightarrow> stop \<le> whole"
  by (auto simp: agrees_def)

lemma longest_rest_agrees:
  "agrees stop (longest_rest class stop longest run v) (fst (foldl (longest_step class) (longest, run) v))"
proof (induction v arbitrary: longest run)
  case (Cons b v)
  let ?run = "if contains class b then run + 1 else 0"
  show ?case
    using Cons.IH [of "max longest ?run" ?run] longest_step_grows [of "max longest ?run" "class" ?run v]
    by (auto simp: Let_def agrees_def)
qed (simp add: agrees_def)

lemma longest_by_breaks:
  assumes "run \<le> longest"
  shows "foldl (longest_step class) (longest, run) v =
    (let js = outside class v; w = length v
     in if js = [] then (max longest (run + w), run + w)
        else (max (foldl max (max longest (run + hd js)) (gaps (hd js) (tl js))) (w - 1 - last js), w - 1 - last js))"
proof (induction v rule: rev_induct)
  case (snoc b v)
  show ?case
  proof (cases "outside class v = []")
    case True
    then show ?thesis
      using snoc by (auto simp: Let_def outside_snoc max_def)
  next
    case False
    then obtain f r where fr: "outside class v = f # r"
      by (cases "outside class v") auto
    then have "last (f # r) < length v"
      using outside_less [of _ "class" v] by (metis last_in_set list.discI)
    then show ?thesis
      using snoc fr by (auto simp: Let_def outside_snoc gaps_snoc max.assoc)
  qed
qed (use assms in simp)

section \<open>Walking a mask\<close>

lemma walk_longest_gaps:
  "walk_longest shift longest prev rest = foldl max longest (gaps prev (map (drop_bit shift) (ones rest)))"
proof (induction shift longest prev rest rule: walk_longest.induct)
  case (1 shift longest prev rest)
  show ?case
  proof (cases "rest = 0")
    case False
    then obtain t ts where "ones rest = t # ts" "trailing_zeros rest = t"
      using trailing_zeros_ones [OF False] ones_Nil by (cases "ones rest") auto
    then show ?thesis
      using "1.IH" [OF False refl] clear_lowest [of rest] False
      by (subst walk_longest.simps) (simp add: Let_def)
  qed (subst walk_longest.simps, simp add: ones_def)
qed

lemma foldl_max_idle: "\<forall>g \<in> set gs. g \<le> l \<Longrightarrow> foldl max l gs = (l :: nat)"
  by (induction gs) (auto simp: max_absorb1)

lemma mask_parts:
  assumes "map (drop_bit shift) (ones m) = js" and "m \<noteq> 0"
  shows "drop_bit shift (trailing_zeros m) = hd js" "drop_bit shift (63 - leading_zeros m) = last js"
    "map (drop_bit shift) (ones (m AND (m - 1))) = tl js" "count_ones m = length js" "js \<noteq> []"
  using assms by (auto simp: trailing_zeros_ones leading_zeros_ones clear_lowest count_ones ones_Nil
      hd_map last_map map_tl)

lemma mask_zero: "map (drop_bit shift) (ones m) = js \<Longrightarrow> m = 0 \<longleftrightarrow> js = []"
  using ones_Nil by auto

text \<open>The loop over a block's bytes, from its mask: the walk is skipped where no gap could be longer.\<close>

lemma longest_block_is:
  assumes js: "map (drop_bit (lanes_shift L)) (ones breaks) = outside class v"
    and v: "length v = lanes_width L" and run: "run \<le> longest"
  shows "(case longest_block L breaks longest run of (longest, run) \<Rightarrow> (max longest run, run))
    = foldl (longest_step class) (longest, run) v"
proof (cases "breaks = 0")
  case True
  then show ?thesis
    using mask_zero [OF js] v by (simp add: longest_block_def longest_by_breaks [OF run] Let_def)
next
  case False
  let ?js = "outside class v" and ?w = "lanes_width L"
  note parts = mask_parts [OF js False]
  have "sorted_wrt (<) (hd ?js # tl ?js)" "\<forall>x \<in> set (hd ?js # tl ?js). x < ?w"
    using parts(5) outside_sorted [of "class" v] outside_less [of _ "class" v] v by auto
  then have gap: "g \<le> ?w - length ?js" if "g \<in> set (gaps (hd ?js) (tl ?js))" for g
    using gaps_fit [of "hd ?js" "tl ?js" ?w 0 g] that parts(5) by simp
  have walk: "walk_longest (lanes_shift L) l (hd ?js) (breaks AND (breaks - 1)) = foldl max l (gaps (hd ?js) (tl ?js))" for l
    by (simp add: walk_longest_gaps parts(3))
  have idle: "foldl max l (gaps (hd ?js) (tl ?js)) = l" if "\<not> l < ?w - length ?js" for l
    using gap that by (intro foldl_max_idle) fastforce
  show ?thesis
    using False parts(5) v idle [of "max longest (run + hd ?js)"]
    by (simp add: longest_block_def Let_def parts(1,2,4) walk longest_by_breaks [OF run])
qed

section \<open>The runs\<close>

definition run_step :: "nat \<Rightarrow> nat \<times> (nat \<times> nat) list \<Rightarrow> nat \<Rightarrow> nat \<times> (nat \<times> nat) list" where
  "run_step least = (\<lambda>(start, out) p. (p + 1, if least \<le> p - start then out @ [(start, p)] else out))"

lemma run_step_pair [simp]:
  "run_step least (start, out) p = (p + 1, if least \<le> p - start then out @ [(start, p)] else out)"
  by (simp add: run_step_def)

lemma run_steps_start: "ps \<noteq> [] \<Longrightarrow> fst (foldl (run_step least) s ps) = last ps + 1"
  by (induction ps rule: rev_induct) (simp_all add: run_step_def case_prod_beta)

lemma runs_rest_steps:
  "runs_rest class least start out j v =
    (case foldl (run_step least) (start, out) (map (\<lambda>k. j + k) (outside class v)) of
       (start, out) \<Rightarrow> if least \<le> j + length v - start then out @ [(start, j + length v)] else out)"
proof (induction v arbitrary: start out j)
  case (Cons b v)
  show ?case
    by (simp add: Cons.IH outside_Cons comp_def case_prod_beta)
qed simp

lemma walk_runs_steps:
  "1 \<le> least \<Longrightarrow> walk_runs shift least i out prev rest =
   snd (foldl (run_step least) (i + prev + 1, out) (map (\<lambda>k. i + k) (map (drop_bit shift) (ones rest))))"
proof (induction shift least i out prev rest rule: walk_runs.induct)
  case (1 shift least i out prev rest)
  show ?case
  proof (cases "rest = 0")
    case False
    then obtain t ts where o: "ones rest = t # ts" "trailing_zeros rest = t"
      using trailing_zeros_ones [OF False] ones_Nil by (cases "ones rest") auto
    have "least < drop_bit shift t - prev \<longleftrightarrow> least \<le> i + drop_bit shift t - (i + prev + 1)"
      using "1.prems" by auto
    then show ?thesis
      using "1.IH" [OF False refl "1.prems"] clear_lowest [of rest] False o
      by (subst walk_runs.simps) (cases "least \<le> drop_bit shift t - Suc prev"; simp add: Let_def)
  qed (subst walk_runs.simps, simp add: ones_def)
qed

lemma run_steps_idle:
  "\<forall>g \<in> set (gaps prev rest). g < least \<Longrightarrow>
   snd (foldl (run_step least) (i + prev + 1, out) (map (\<lambda>k. i + k) rest)) = out"
proof (induction rest arbitrary: prev)
  case (Cons n rest)
  then show ?case
    using Cons.IH [of n] by (auto simp: add.commute)
qed simp

lemma runs_block_is:
  assumes js: "map (drop_bit (lanes_shift L)) (ones breaks) = outside class v"
    and v: "length v = lanes_width L" and least: "1 \<le> least"
  shows "runs_block L least breaks i start out
    = foldl (run_step least) (start, out) (map (\<lambda>k. i + k) (outside class v))"
proof (cases "breaks = 0")
  case True
  then show ?thesis
    using mask_zero [OF js] by (simp add: runs_block_def)
next
  case False
  let ?js = "outside class v" and ?w = "lanes_width L"
  note parts = mask_parts [OF js False]
  obtain f r where fr: "?js = f # r"
    using parts(5) by (cases ?js) auto
  have gap: "g + length ?js \<le> ?w" if "g \<in> set (gaps f r)" for g
    using gaps_fit [of f r ?w 0 g] that outside_sorted [of "class" v] outside_less [of _ "class" v] v fr by auto
  let ?out = "if least \<le> i + f - start then out @ [(start, i + f)] else out"
  let ?s = "foldl (run_step least) (i + f + 1, ?out) (map (\<lambda>k. i + k) r)"
  have "snd ?s = ?out" if "\<not> least \<le> ?w - length ?js"
    using gap that least by (intro run_steps_idle) fastforce
  moreover have "walk_runs (lanes_shift L) least i ?out f (breaks AND (breaks - 1)) = snd ?s"
    using parts(3) fr by (simp add: walk_runs_steps [OF least])
  moreover have "fst ?s = i + last ?js + 1"
    using run_steps_start [of "map (\<lambda>k. i + k) r" least "(i + f + 1, ?out)"] fr
    by (cases "r = []") (simp_all add: last_map)
  ultimately show ?thesis
    using False fr parts(1,2,4) by (auto simp: runs_block_def Let_def prod_eq_iff)
qed

section \<open>The scans\<close>

lemma position_hd_filter:
  "filter (\<lambda>j. p (v ! j)) [0..<length v] \<noteq> [] \<Longrightarrow> position p v = Some (hd (filter (\<lambda>j. p (v ! j)) [0..<length v]))"
proof (induction v)
  case (Cons b v)
  have "filter (\<lambda>j. p ((b # v) ! j)) [0..<length (b # v)]
      = (if p b then [0] else []) @ map Suc (filter (\<lambda>j. p (v ! j)) [0..<length v])"
    by (simp add: upt_conv_Cons map_Suc_upt [symmetric] filter_map comp_def del: upt_Suc)
  then show ?case
    using Cons by (auto simp: hd_map)
qed simp

lemma position_run:
  "position (\<lambda>b. \<not> P b) xs = (if length (takeWhile P xs) < length xs then Some (length (takeWhile P xs)) else None)"
  by (induction xs) auto

lemma first_scalar_position: "first_scalar class haystack member = position (\<lambda>b. contains class b = member) haystack"
  by (simp add: first_scalar_def class_find_scalar_def run_scalar_def position_run Let_def)

locale class_lanes =
  fixes L :: lane_layout and hits :: "u8 list \<Rightarrow> u64" and cl :: byte_class
  assumes width_pos: "0 < lanes_width L"
    and lanes_are: "class_ok cl \<Longrightarrow> length v = lanes_width L \<Longrightarrow>
      map (drop_bit (lanes_shift L)) (ones (hits v XOR (if flip then lanes_all L else 0)))
      = filter (\<lambda>j. (contains cl (v ! j) \<noteq> class_complement cl) \<noteq> flip) [0..<lanes_width L]"
begin

lemma breaks_are:
  assumes "class_ok cl" and "length v = lanes_width L"
  shows "map (drop_bit (lanes_shift L)) (ones (hits v XOR (if class_complement cl then 0 else lanes_all L))) = outside cl v"
  using lanes_are [OF assms, of "\<not> class_complement cl"] assms(2) by (auto simp: outside_def intro!: filter_cong)

lemma wanted_are:
  assumes "class_ok cl" and "length v = lanes_width L"
  shows "map (drop_bit (lanes_shift L)) (ones (hits v XOR (if class_complement cl = member then lanes_all L else 0)))
    = filter (\<lambda>j. contains cl (v ! j) = member) [0..<length v]"
  using lanes_are [OF assms, of "class_complement cl = member"] assms(2) by (auto intro!: filter_cong)

lemma loaded: "i + lanes_width L \<le> length haystack \<Longrightarrow>
    length (load (lanes_width L) i haystack) = lanes_width L \<and>
    drop i haystack = load (lanes_width L) i haystack @ drop (i + lanes_width L) haystack"
  by (simp add: load_def add.commute [of i] flip: drop_drop)

lemma first_from:
  "class_ok cl \<Longrightarrow> scan_first cl haystack member L hits i
    = map_option (\<lambda>at. i + at) (position (\<lambda>b. contains cl b = member) (drop i haystack))"
proof (induction "length haystack - i" arbitrary: i rule: less_induct)
  case less
  let ?w = "lanes_width L" and ?p = "\<lambda>b. contains cl b = member"
  let ?v = "load ?w i haystack"
  let ?m = "hits ?v XOR (if class_complement cl = member then lanes_all L else 0)"
  show ?case
  proof (cases "i + ?w \<le> length haystack")
    case True
    note v = loaded [OF True]
    have js: "map (drop_bit (lanes_shift L)) (ones ?m) = filter (\<lambda>j. ?p (?v ! j)) [0..<length ?v]"
      using wanted_are [OF less.prems] v by blast
    show ?thesis
    proof (cases "?m = 0")
      case none: True
      then have "position ?p ?v = None"
        using mask_zero [OF js] by (auto simp: position_None filter_empty_conv in_set_conv_nth)
      moreover have "(\<lambda>at. i + (?w + at)) = (+) (i + ?w)"
        by (simp add: fun_eq_iff)
      ultimately show ?thesis
        using none True width_pos less.prems less.hyps [of "i + ?w"] v
        by (subst scan_first.simps) (simp add: Let_def position_append option.map_comp comp_def)
    next
      case some: False
      have "position ?p ?v = Some (hd (filter (\<lambda>j. ?p (?v ! j)) [0..<length ?v]))"
        using mask_parts(5) [OF js some] by (rule position_hd_filter)
      then show ?thesis
        using some True width_pos v mask_parts(1) [OF js some]
        by (subst scan_first.simps) (simp add: Let_def position_append)
    qed
  next
    case False
    then show ?thesis
      by (subst scan_first.simps) (simp add: first_scalar_position)
  qed
qed

lemma longest_from:
  "class_ok cl \<Longrightarrow> run \<le> longest \<Longrightarrow> agrees stop (scan_longest cl haystack stop L hits longest run i)
     (fst (foldl (longest_step cl) (longest, run) (drop i haystack)))"
proof (induction "length haystack - i" arbitrary: i longest run rule: less_induct)
  case less
  let ?w = "lanes_width L"
  let ?v = "load ?w i haystack"
  let ?m = "hits ?v XOR (if class_complement cl then 0 else lanes_all L)"
  show ?case
  proof (cases "i + ?w \<le> length haystack")
    case True
    note v = loaded [OF True]
    obtain l r where b: "longest_block L ?m longest run = (l, r)"
      by fastforce
    have step: "foldl (longest_step cl) (longest, run) ?v = (max l r, r)"
      using longest_block_is [OF breaks_are [OF less.prems(1)] _ less.prems(2), of ?v] v b by simp
    have "fst (foldl (longest_step cl) (longest, run) (drop i haystack))
        = fst (foldl (longest_step cl) (max l r, r) (drop (i + ?w) haystack))"
      using v step by (metis foldl_append)
    moreover have "scan_longest cl haystack stop L hits longest run i =
        (if stop \<le> max l r then max l r else scan_longest cl haystack stop L hits (max l r) r (i + ?w))"
      using True width_pos b by (subst scan_longest.simps) (simp add: Let_def)
    ultimately show ?thesis
      using less.hyps [of "i + ?w" r "max l r"] less.prems(1) True width_pos
        longest_step_grows [of "max l r" cl r "drop (i + ?w) haystack"]
      by (auto simp: agrees_def)
  next
    case False
    then show ?thesis
      by (subst scan_longest.simps) (simp add: longest_rest_agrees)
  qed
qed

lemma runs_from:
  "class_ok cl \<Longrightarrow> 1 \<le> least \<Longrightarrow> scan_runs_loop cl haystack least L hits start out i
    = runs_rest cl least start out i (drop i haystack)"
proof (induction "length haystack - i" arbitrary: i start out rule: less_induct)
  case less
  let ?w = "lanes_width L"
  let ?v = "load ?w i haystack"
  let ?m = "hits ?v XOR (if class_complement cl then 0 else lanes_all L)"
  show ?case
  proof (cases "i + ?w \<le> length haystack")
    case True
    note v = loaded [OF True]
    obtain s' out' where b: "runs_block L least ?m i start out = (s', out')"
      by fastforce
    then have step: "foldl (run_step least) (start, out) (map (\<lambda>k. i + k) (outside cl ?v)) = (s', out')"
      using runs_block_is [OF breaks_are [OF less.prems(1)] _ less.prems(2), of ?v] v by simp
    have "runs_rest cl least start out i (drop i haystack)
        = runs_rest cl least s' out' (i + ?w) (drop (i + ?w) haystack)"
      using v step by (simp add: runs_rest_steps outside_append comp_def add.assoc case_prod_beta)
    then show ?thesis
      using less.hyps [of "i + ?w" s' out'] less.prems True width_pos b
      by (subst scan_runs_loop.simps) (simp add: Let_def)
  next
    case False
    then show ?thesis
      by (subst scan_runs_loop.simps) simp
  qed
qed

lemma scans:
  assumes "class_ok cl"
  shows "scan_first cl haystack member L hits 0 = first_scalar cl haystack member"
    and "agrees stop (scan_longest cl haystack stop L hits 0 0 0) (fst (foldl (longest_step cl) (0, 0) haystack))"
    and "scan_runs cl haystack least L hits = runs_scalar cl haystack least"
  using first_from [OF assms, of haystack member 0] longest_from [OF assms, of 0 0 stop haystack 0]
    runs_from [OF assms, of "max least 1" haystack 0 "[]" 0]
  by (simp_all add: first_scalar_position scan_runs_def runs_scalar_def option.map_ident)

end

end
