(* ===== verification/Class_Laws.thy ===== *)
theory Class_Laws
  imports Class_Scans
begin

unbundle bit_operations_syntax

text \<open>
  What a \<open>ByteClass\<close> contains, the masks of each instruction set as instances of \<open>class_lanes\<close>, and the
  scans at every tier.
\<close>

section \<open>What a class contains\<close>

lemma nibbles_less: "unat (b AND 0x0F :: u8) < 16" "unat (drop_bit 4 b :: u8) < 16"
  by (rule nibble_less, rule high_nibble_less)

lemma byte_by_nibbles: "b AND 0x0F = c AND 0x0F \<Longrightarrow> drop_bit 4 b = drop_bit 4 c \<Longrightarrow> b = (c :: u8)"
proof (rule bit_word_eqI)
  fix i assume n: "b AND 0x0F = c AND 0x0F" "drop_bit 4 b = drop_bit 4 c"
  have "bit b i = bit c i" if "i < 4"
    using arg_cong [OF n(1), of "\<lambda>x. bit x i"] that unfolding bit_and_iff bit_0x0F by blast
  moreover have "bit b i = bit c i" if "4 \<le> i"
    using arg_cong [OF n(2), of "\<lambda>x. bit x (i - 4)"] that by (simp add: bit_drop_bit_eq)
  ultimately show "bit b i = bit c i"
    by linarith
qed

lemma HIGH_entry: "h < 16 \<Longrightarrow> HIGH ! h = (if h < 8 then push_bit h 1 else 0)"
  by (auto simp: HIGH_def nth_Cons numeral_eq_Suc less_Suc_eq push_bit_eq_mult)

lemma and_high_bit: "h < 16 \<Longrightarrow> x AND HIGH ! h \<noteq> 0 \<longleftrightarrow> h < 8 \<and> bit x h"
  for x :: u8
proof -
  assume h: "h < 16"
  have "bit (x AND push_bit h 1) i \<longleftrightarrow> bit x h \<and> i = h \<and> h < 8" for i
    by (auto simp: bit_and_iff bit_exp_iff)
  then have "x AND push_bit h 1 \<noteq> 0 \<longleftrightarrow> h < 8 \<and> bit x h"
    by (metis bit_0_eq bot_apply bot_bool_def bit_eqI)
  then show ?thesis
    using h by (simp add: HIGH_entry)
qed

lemma small_byte: "b < 0x80 \<longleftrightarrow> unat (drop_bit 4 b :: u8) < 8"
proof -
  have "unat (drop_bit 4 b) = unat b div 16"
    using unat_byte [of b] by (simp only: unsigned_drop_bit_eq) (simp add: drop_bit_eq_div take_bit_nat_eq_self)
  then show ?thesis
    by (auto simp: word_less_nat_alt)
qed

definition member_of :: "u8 list \<Rightarrow> u8 \<Rightarrow> bool" where
  "member_of table b \<longleftrightarrow> table ! unat (b AND 0x0F) AND HIGH ! unat (drop_bit 4 b) \<noteq> 0"

lemma member_of_add:
  assumes "length table = 16" and "byte < 0x80"
  shows "member_of (table[unat (byte AND 0x0F) := table ! unat (byte AND 0x0F) OR push_bit (unat (drop_bit 4 byte)) 1]) b
    \<longleftrightarrow> b = byte \<or> member_of table b"
proof (cases "unat (byte AND 0x0F) = unat (b AND 0x0F)")
  case True
  have h: "unat (drop_bit 4 byte) < 8"
    using assms(2) small_byte by simp
  have "b = byte \<longleftrightarrow> unat (drop_bit 4 b) = unat (drop_bit 4 byte)"
    using True byte_by_nibbles [of b byte] by (metis unsigned_word_eqI)
  then show ?thesis
    using True h assms(1) nibbles_less
    by (auto simp: member_of_def and_high_bit bit_or_iff bit_exp_iff)
next
  case False
  then show ?thesis
    using assms(1) nibbles_less by (auto simp: member_of_def)
qed

lemma new_loop_member:
  "length table = 16 \<Longrightarrow>
   (case new_loop table members of
      Some table' \<Rightarrow> length table' = 16 \<and> (\<forall>b. member_of table' b \<longleftrightarrow> b \<in> set members \<or> member_of table b)
        \<and> (\<forall>b \<in> set members. b < 0x80)
    | None \<Rightarrow> \<exists>b \<in> set members. 0x80 \<le> b)"
proof (induction table members rule: new_loop.induct)
  case (2 table byte members)
  show ?case
  proof (cases "0x80 \<le> byte")
    case False
    then show ?thesis
      using "2.IH" [OF False refl] "2.prems" member_of_add [OF "2.prems", of byte]
      by (auto simp: Let_def split: option.splits)
  qed simp
qed simp

lemma contains_member: "contains class b \<longleftrightarrow> member_of (class_lo class) b \<noteq> class_complement class"
  by (simp add: contains_def member_of_def)

section \<open>The masks of the instruction sets\<close>

lemma bit_ones: "bit (0xFFFF :: u64) k \<longleftrightarrow> k < 16" "bit (0xFFFF :: u32) k \<longleftrightarrow> k < 16" "bit (0xFFFFFFFF :: u64) k \<longleftrightarrow> k < 32"
proof -
  have m: "(0xFFFF :: u64) = Bit_Operations.mask 16" "(0xFFFF :: u32) = Bit_Operations.mask 16"
      "(0xFFFFFFFF :: u64) = Bit_Operations.mask 32"
    by (simp_all add: mask_eq_exp_minus_1)
  show "bit (0xFFFF :: u64) k \<longleftrightarrow> k < 16" "bit (0xFFFF :: u32) k \<longleftrightarrow> k < 16" "bit (0xFFFFFFFF :: u64) k \<longleftrightarrow> k < 32"
    unfolding m bit_mask_iff by auto
qed

lemma ones_flipped:
  fixes m all :: u64
  assumes m: "\<And>j. bit m j \<longleftrightarrow> j < w \<and> P j" and all: "\<And>j. bit all j \<longleftrightarrow> j < w"
  shows "map (drop_bit 0) (ones (m XOR (if flip then all else 0))) = filter (\<lambda>j. P j \<noteq> flip) [0..<w]"
proof -
  have "ones (m XOR (if flip then all else 0)) = filter (\<lambda>j. P j \<noteq> flip) [0..<w]"
    by (rule ones_eqI) (auto simp: ones_iff bit_xor_iff m all sorted_filter_upt)
  then show ?thesis
    by (simp only: drop_bit_0_ones)
qed

text \<open>The two entries of a byte meet where the byte is in the class's table.\<close>

definition meeting :: "byte_class \<Rightarrow> u8 \<Rightarrow> u8" where
  "meeting class b = class_lo class ! unat (b AND 0x0F) AND HIGH ! unat (drop_bit 4 b)"

lemma meets: "meeting class b \<noteq> 0 \<longleftrightarrow> contains class b \<noteq> class_complement class"
  by (auto simp: meeting_def contains_def)

lemma length_HIGH: "length HIGH = 16"
  by (simp add: HIGH_def)

lemma entries:
  assumes "class_ok class" and "length v = 16 * n"
  shows "entry_lo (broadcast n (class_lo class)) v = map (\<lambda>b. class_lo class ! unat (b AND 0x0F)) v"
    "entry_high (broadcast n HIGH) v = map (\<lambda>b. HIGH ! unat (drop_bit 4 b)) v"
  using assms shuffle_low [of "class_lo class" v n] shuffle_high [of HIGH v n]
  by (simp_all add: entry_lo_def entry_high_def class_ok_def length_HIGH)

lemma met:
  assumes "class_ok class" and "length v = 16 * n"
  shows "vec_and (entry_lo (broadcast n (class_lo class)) v) (entry_high (broadcast n HIGH) v) = map (meeting class) v"
  by (simp add: entries [OF assms] vec_and_def map2_map_map meeting_def)

lemma bit_zero_lanes:
  "length v = w \<Longrightarrow> w \<le> 64 \<Longrightarrow>
   bit (movemask_epi8 (cmpeq_epi8 (map f v) (set1_epi8 w 0))) j \<longleftrightarrow> j < w \<and> f (v ! j) = 0"
  using ones_movemask [of "map f v" w 0] by (auto simp: ones_iff [symmetric])

lemma broadcast_1: "broadcast 1 t = t"
  by (simp add: broadcast_def)

interpretation ssse3: class_lanes L16 "hits_ssse3 (class_lo class) HIGH" "class" for "class"
proof
  fix v :: "u8 list" and flip
  assume ok: "class_ok class" and "length v = lanes_width L16"
  then have v: "length v = 16 * 1"
    by (simp add: L16_def)
  have "bit (hits_ssse3 (class_lo class) HIGH v) j \<longleftrightarrow> j < 16 \<and> meeting class (v ! j) \<noteq> 0" for j
    unfolding hits_ssse3_def Let_def met [OF ok v, unfolded broadcast_1] bit_ucast_iff bit_xor_iff bit_ones
    using v by (auto simp: bit_zero_lanes)
  then show "map (drop_bit (lanes_shift L16)) (ones (hits_ssse3 (class_lo class) HIGH v XOR (if flip then lanes_all L16 else 0)))
      = filter (\<lambda>j. (contains class (v ! j) \<noteq> class_complement class) \<noteq> flip) [0..<lanes_width L16]"
    unfolding L16_def lane_layout.simps meets by (rule ones_flipped) (rule bit_ones)
qed (simp add: L16_def)

interpretation avx2: class_lanes L32 "hits_avx2 (broadcast 2 (class_lo class)) (broadcast 2 HIGH)" "class" for "class"
proof
  fix v :: "u8 list" and flip
  assume ok: "class_ok class" and "length v = lanes_width L32"
  then have v: "length v = 16 * 2"
    by (simp add: L32_def)
  have "bit (hits_avx2 (broadcast 2 (class_lo class)) (broadcast 2 HIGH) v) j \<longleftrightarrow> j < 32 \<and> meeting class (v ! j) \<noteq> 0" for j
    unfolding hits_avx2_def Let_def met [OF ok v] bit_ucast_iff bit_not_iff
    using v by (auto simp: bit_zero_lanes)
  then show "map (drop_bit (lanes_shift L32))
      (ones (hits_avx2 (broadcast 2 (class_lo class)) (broadcast 2 HIGH) v XOR (if flip then lanes_all L32 else 0)))
      = filter (\<lambda>j. (contains class (v ! j) \<noteq> class_complement class) \<noteq> flip) [0..<lanes_width L32]"
    unfolding L32_def lane_layout.simps meets by (rule ones_flipped) (rule bit_ones)
qed (simp add: L32_def)

interpretation avx512: class_lanes L64 "hits_avx512 (broadcast 4 (class_lo class)) (broadcast 4 HIGH)" "class" for "class"
proof
  fix v :: "u8 list" and flip
  assume ok: "class_ok class" and "length v = lanes_width L64"
  then have v: "length v = 16 * 4"
    by (simp add: L64_def)
  have "bit (hits_avx512 (broadcast 4 (class_lo class)) (broadcast 4 HIGH) v) j \<longleftrightarrow> j < 64 \<and> meeting class (v ! j) \<noteq> 0" for j
    unfolding hits_avx512_def test_epi8_mask_def bits_set entries [OF ok v] using v by (auto simp: meeting_def)
  then show "map (drop_bit (lanes_shift L64))
      (ones (hits_avx512 (broadcast 4 (class_lo class)) (broadcast 4 HIGH) v XOR (if flip then lanes_all L64 else 0)))
      = filter (\<lambda>j. (contains class (v ! j) \<noteq> class_complement class) \<noteq> flip) [0..<lanes_width L64]"
    unfolding L64_def lane_layout.simps meets by (rule ones_flipped) simp
qed (simp add: L64_def)

interpretation neon: class_lanes neon_L16 "neon_hits (class_lo class) HIGH" "class" for "class"
proof
  fix v :: "u8 list" and flip
  assume ok: "class_ok class" and "length v = lanes_width neon_L16"
  then have v: "length v = 16"
    by (simp add: neon_L16_def)
  have "vec_and v (set1_epi8 16 0x0F) = map (\<lambda>b. b AND 0x0F) v"
    using vec_and_low [of v] v by simp
  then have "vtstq_u8 (vqtbl1q_u8 (class_lo class) (vec_and v (set1_epi8 16 0x0F))) (vqtbl1q_u8 HIGH (vshrq_n_u8_4 v))
      = map (\<lambda>b. if meeting class b \<noteq> 0 then 0xFF else 0) v"
    by (simp add: vtstq_u8_def vqtbl1q_u8_def vshrq_n_u8_4_def map2_map_map nibbles_less meeting_def)
  then have "marks (\<lambda>j. meeting class (v ! j) \<noteq> 0)
      (vtstq_u8 (vqtbl1q_u8 (class_lo class) (vec_and v (set1_epi8 16 0x0F))) (vqtbl1q_u8 HIGH (vshrq_n_u8_4 v)))"
    using v by (simp add: marks_def)
  then have "bit (neon_hits (class_lo class) HIGH v) k \<longleftrightarrow> k < 64 \<and> k mod 4 = 3 \<and> meeting class (v ! (k div 4)) \<noteq> 0" for k
    unfolding neon_hits_def by (rule bit_lanes)
  then have "bit (neon_hits (class_lo class) HIGH v XOR (if flip then 0x8888888888888888 else 0)) k
      \<longleftrightarrow> k < 64 \<and> k mod 4 = 3 \<and> (meeting class (v ! (k div 4)) \<noteq> 0) \<noteq> flip" for k
    by (cases flip) (simp_all only: bit_xor_iff bit_8s if_True if_False, auto)
  then show "map (drop_bit (lanes_shift neon_L16)) (ones (neon_hits (class_lo class) HIGH v XOR (if flip then lanes_all neon_L16 else 0)))
      = filter (\<lambda>j. (contains class (v ! j) \<noteq> class_complement class) \<noteq> flip) [0..<lanes_width neon_L16]"
    unfolding neon_L16_def lane_layout.simps meets by (rule ones_fourths)
qed (simp add: neon_L16_def)

section \<open>Maximal runs\<close>

definition maximal_run :: "byte_class \<Rightarrow> u8 list \<Rightarrow> nat \<Rightarrow> nat \<Rightarrow> bool" where
  "maximal_run class v a b \<longleftrightarrow>
     a < b \<and> b \<le> length v \<and> list_all (\<lambda>k. contains class (v ! k)) [a..<b] \<and>
     (a = 0 \<or> \<not> contains class (v ! (a - 1))) \<and> (b = length v \<or> \<not> contains class (v ! b))"

text \<open>What the loop over the breaks knows after the bytes \<open>v\<close>: the runs that ended, and where the last began.\<close>

definition runs_known :: "byte_class \<Rightarrow> nat \<Rightarrow> u8 list \<Rightarrow> nat \<times> (nat \<times> nat) list \<Rightarrow> bool" where
  "runs_known class least v = (\<lambda>(start, out).
     start \<le> length v \<and> (\<forall>k. start \<le> k \<and> k < length v \<longrightarrow> contains class (v ! k)) \<and>
     (start = 0 \<or> \<not> contains class (v ! (start - 1))) \<and>
     set out = {(a, b). b < length v \<and> maximal_run class v a b \<and> least \<le> b - a} \<and>
     sorted_wrt (\<lambda>r s. snd r < fst s) out \<and> (\<forall>r \<in> set out. snd r < start))"

lemma maximal_run_snoc:
  "b < length v \<Longrightarrow> maximal_run class (v @ [x]) a b \<longleftrightarrow> maximal_run class v a b"
  by (auto simp: maximal_run_def nth_append list_all_iff)

lemma maximal_run_last:
  assumes "start \<le> length v" and "\<forall>k. start \<le> k \<and> k < length v \<longrightarrow> contains class (v ! k)"
    and "start = 0 \<or> \<not> contains class (v ! (start - 1))"
  shows "a < length v \<and> list_all (\<lambda>k. contains class (v ! k)) [a..<length v] \<and> (a = 0 \<or> \<not> contains class (v ! (a - 1)))
    \<longleftrightarrow> a = start \<and> start < length v"
proof
  assume r: "a < length v \<and> list_all (\<lambda>k. contains class (v ! k)) [a..<length v] \<and> (a = 0 \<or> \<not> contains class (v ! (a - 1)))"
  have "\<not> start < a"
  proof
    assume "start < a"
    then have "contains class (v ! (a - 1))"
      using assms(2) [rule_format, of "a - 1"] r by linarith
    then show False
      using r \<open>start < a\<close> by auto
  qed
  moreover have "\<not> a < start"
  proof
    assume "a < start"
    then have "start - 1 \<in> set [a..<length v]"
      using assms(1) by auto
    then have "contains class (v ! (start - 1))"
      using r by (metis (mono_tags, lifting) list_all_iff)
    then show False
      using assms(3) \<open>a < start\<close> by simp
  qed
  ultimately show "a = start \<and> start < length v"
    using r by simp
qed (use assms in \<open>auto simp: list_all_iff\<close>)

lemma runs_known_steps:
  assumes "1 \<le> least"
  shows "runs_known class least v (foldl (run_step least) (0, []) (outside class v))"
proof (induction v rule: rev_induct)
  case Nil
  then show ?case
    by (simp add: runs_known_def)
next
  case (snoc x v)
  obtain start out where s: "foldl (run_step least) (0, []) (outside class v) = (start, out)"
    by fastforce
  then have known: "start \<le> length v" "\<forall>k. start \<le> k \<and> k < length v \<longrightarrow> contains class (v ! k)"
      "start = 0 \<or> \<not> contains class (v ! (start - 1))"
      "set out = {(a, b). b < length v \<and> maximal_run class v a b \<and> least \<le> b - a}"
      "sorted_wrt (\<lambda>r s. snd r < fst s) out" "\<forall>r \<in> set out. snd r < start"
    using snoc by (simp_all add: runs_known_def)
  have ended: "{(a, b). b < length v \<and> maximal_run class (v @ [x]) a b \<and> least \<le> b - a} = set out"
    using known(4) by (auto simp: maximal_run_snoc)
  have last_ends: "maximal_run class (v @ [x]) a (length v)
      \<longleftrightarrow> \<not> contains class x \<and> a = start \<and> start < length v" for a
    using maximal_run_last [OF known(1,2,3), of a]
    by (auto simp: maximal_run_def nth_append list_all_iff)
  have runs: "{(a, b). b < length (v @ [x]) \<and> maximal_run class (v @ [x]) a b \<and> least \<le> b - a}
      = set out \<union> (if \<not> contains class x \<and> least \<le> length v - start then {(start, length v)} else {})"
    using ended last_ends assms by (auto simp: less_Suc_eq)
  show ?case
  proof (cases "contains class x")
    case True
    moreover have "start = 0 \<or> start - 1 < length v"
      using known(1) by auto
    ultimately show ?thesis
      using known runs by (auto simp: s outside_snoc runs_known_def nth_append less_Suc_eq)
  next
    case False
    have "sorted_wrt (\<lambda>r s. snd r < fst s) (out @ [(start, length v)])"
      using known by (simp add: sorted_wrt_append)
    then show ?thesis
      using False known runs by (auto simp: s outside_snoc runs_known_def)
  qed
qed

lemma runs_scalar_steps:
  "runs_scalar class v least =
    (case foldl (run_step (max least 1)) (0, []) (outside class v) of
       (start, out) \<Rightarrow> if max least 1 \<le> length v - start then out @ [(start, length v)] else out)"
  by (simp add: runs_scalar_def runs_rest_steps case_prod_beta)

lemma run_reaches:
  assumes "1 \<le> least"
  shows "(case foldl (run_step least) (0, []) (outside class v) of
      (start, out) \<Rightarrow> start \<le> length v \<and> snd (foldl (longest_step class) (0, 0) v) = length v - start \<and>
        (least \<le> fst (foldl (longest_step class) (0, 0) v) \<longleftrightarrow> out \<noteq> [] \<or> least \<le> length v - start))"
proof (induction v rule: rev_induct)
  case (snoc x v)
  obtain start out where s: "foldl (run_step least) (0, []) (outside class v) = (start, out)"
    by fastforce
  obtain l r where l: "foldl (longest_step class) (0, 0) v = (l, r)"
    by fastforce
  show ?case
    using snoc assms by (auto simp: s l outside_snoc)
qed (use assms in simp)

lemma longest_bounded: "fst (foldl (longest_step class) (0, 0) v) \<le> length v"
proof -
  have "(case foldl (longest_step class) (0, 0) v of (longest, run) \<Rightarrow> longest \<le> length v \<and> run \<le> length v)"
    by (induction v rule: rev_induct) (auto split: prod.splits)
  then show ?thesis
    by (simp add: case_prod_beta)
qed

section \<open>What is shown\<close>

text \<open>
  C25: \<open>new\<close> refuses exactly the members that are not all ASCII; the class it builds has tables of sixteen
  and contains exactly the members, its complement exactly the other bytes; and the constants are built.
\<close>

theorem class_contents:
  "(case class_new members of
      Some c \<Rightarrow> class_ok c \<and> class_ok (complement c) \<and> list_all (\<lambda>b. b < 0x80) members \<and>
        (\<forall>b. (contains c b \<longleftrightarrow> b \<in> set members) \<and> (contains (complement c) b \<longleftrightarrow> b \<notin> set members))
    | None \<Rightarrow> list_ex (\<lambda>b. 0x80 \<le> b) members) \<and>
   WHITESPACE \<noteq> None \<and> DIGIT \<noteq> None \<and> WORD \<noteq> None"
proof -
  have new: "case class_new ms of
      Some c \<Rightarrow> class_ok c \<and> class_ok (complement c) \<and> list_all (\<lambda>b. b < 0x80) ms \<and>
        (\<forall>b. (contains c b \<longleftrightarrow> b \<in> set ms) \<and> (contains (complement c) b \<longleftrightarrow> b \<notin> set ms))
    | None \<Rightarrow> list_ex (\<lambda>b. 0x80 \<le> b) ms" for ms
  proof -
    have "\<not> member_of (replicate 16 0) b" for b
      using nibbles_less [of b] by (simp add: member_of_def)
    then show ?thesis
      using new_loop_member [of "replicate 16 0" ms]
      by (auto simp: class_new_def class_ok_def complement_def contains_member list_all_iff list_ex_iff
          split: option.splits)
  qed
  have "class_new ms \<noteq> None" if "list_all (\<lambda>b. b < 0x80) ms" for ms
    using new [of ms] that by (auto simp: list_all_iff list_ex_iff split: option.splits)
  moreover have "list_all (\<lambda>b. b < 0x80) (ascii ''0123456789ABCDEFGHIJKLMNOPQRSTUVWXYZ_abcdefghijklmnopqrstuvwxyz'')"
    by (simp add: ascii_def)
  moreover have "list_all (\<lambda>b. b < 0x80) (ascii ''0123456789'')"
    by (simp add: ascii_def)
  ultimately show ?thesis
    using new by (simp add: WHITESPACE_def DIGIT_def WORD_def)
qed

text \<open>
  C26: \<open>runs\<close> gives exactly the maximal runs of class bytes that are at least as long as asked and not
  empty, in ascending order with a byte outside the class between each and the next; and \<open>has_run_of\<close>
  is whether there is one.
\<close>

theorem runs_are_maximal:
  "set (runs_scalar class v least) = {(a, b). maximal_run class v a b \<and> least \<le> b - a} \<and>
   sorted_wrt (\<lambda>r s. snd r < fst s) (runs_scalar class v least) \<and>
   (has_run_of_scalar class v least \<longleftrightarrow> least = 0 \<or> 0 < length (runs_scalar class v least))"
proof (intro conjI)
  let ?least = "max least 1"
  obtain start out where s: "foldl (run_step ?least) (0, []) (outside class v) = (start, out)"
    by fastforce
  then have known: "start \<le> length v" "\<forall>k. start \<le> k \<and> k < length v \<longrightarrow> contains class (v ! k)"
      "start = 0 \<or> \<not> contains class (v ! (start - 1))"
      "set out = {(a, b). b < length v \<and> maximal_run class v a b \<and> ?least \<le> b - a}"
      "sorted_wrt (\<lambda>r s. snd r < fst s) out" "\<forall>r \<in> set out. snd r < start"
    using runs_known_steps [of ?least "class" v] by (simp_all add: runs_known_def)
  have last_run: "maximal_run class v a (length v) \<longleftrightarrow> a = start \<and> start < length v" for a
    using maximal_run_last [OF known(1,2,3), of a] by (auto simp: maximal_run_def)
  have long: "maximal_run class v a b \<Longrightarrow> least \<le> b - a \<longleftrightarrow> ?least \<le> b - a" for a b
    by (auto simp: maximal_run_def Suc_le_eq)
  have all: "b < length v \<or> b = length v" if "maximal_run class v a b" for a b
    using that by (auto simp: maximal_run_def)
  have "maximal_run class v a b \<and> least \<le> b - a
      \<longleftrightarrow> (a, b) \<in> set out \<or> ?least \<le> length v - start \<and> (a, b) = (start, length v)" for a b
  proof (cases "b = length v")
    case True
    then show ?thesis
      using last_run [of a] known(4) long [of a b] by auto
  next
    case False
    then show ?thesis
      using all [of a b] known(4) long [of a b] by auto
  qed
  moreover have whole: "runs_scalar class v least = (if ?least \<le> length v - start then out @ [(start, length v)] else out)"
    unfolding runs_scalar_steps s by simp
  ultimately show "set (runs_scalar class v least) = {(a, b). maximal_run class v a b \<and> least \<le> b - a}"
    by (auto simp del: max.bounded_iff)
  show "sorted_wrt (\<lambda>r s. snd r < fst s) (runs_scalar class v least)"
    using known(5,6) by (simp add: whole sorted_wrt_append)
  show "has_run_of_scalar class v least \<longleftrightarrow> least = 0 \<or> 0 < length (runs_scalar class v least)"
  proof (cases "least = 0")
    case False
    then have "?least = least"
      by simp
    then show ?thesis
      using run_reaches [of least v "class"] False s agrees_reach [OF longest_rest_agrees, of least "class" 0 0 v]
      by (auto simp: has_run_of_scalar_def longest_scalar_def runs_scalar_steps)
  qed (simp add: has_run_of_scalar_def)
qed

text \<open>
  C27: on every target, machine and \<open>PWRS_CPU_MAX\<close>, every scan of a class gives what its scalar form gives;
  a slice is shorter than \<open>usize::MAX\<close>, where \<open>longest_run\<close> would stop.
\<close>

theorem class_scans_are_scalar:
  assumes "class_ok class" and "length v < USIZE_MAX"
  shows "class_run t m env class v = run_scalar class v \<and>
    class_find t m env class v = class_find_scalar class v \<and>
    longest_run t m env class v = longest_run_scalar class v \<and>
    has_run_of t m env class v least = has_run_of_scalar class v least \<and>
    class_runs t m env class v least = runs_scalar class v least"
proof -
  note scans = ssse3.scans [OF assms(1)] avx2.scans [OF assms(1)] avx512.scans [OF assms(1)] neon.scans [OF assms(1)]
  let ?whole = "fst (foldl (longest_step class) (0, 0) v)"
  have "?whole \<le> length v"
    by (rule longest_bounded)
  then have same: "agrees USIZE_MAX found ?whole \<Longrightarrow> found = ?whole" for found
    using assms(2) by (auto simp: agrees_def)
  have reach: "agrees least found ?whole \<Longrightarrow> least \<le> found \<longleftrightarrow> least \<le> longest_scalar class v least" for found
    using agrees_reach longest_rest_agrees [of least "class" 0 0 v] by (metis longest_scalar_def)
  have first: "first_tiered t m env class v member = first_scalar class v member" for member
    by (simp add: first_tiered_def first_avx512_def first_avx2_def first_ssse3_def neon_first_def scans
        split: arch.split level.split)
  have "longest_tiered t m env class v = ?whole"
    by (simp add: longest_tiered_def longest_avx512_def longest_avx2_def longest_ssse3_def neon_longest_def
        longest_run_scalar_def longest_scalar_def same scans longest_rest_agrees split: arch.split level.split)
  moreover have "longest_run_scalar class v = ?whole"
    by (simp add: longest_run_scalar_def longest_scalar_def same longest_rest_agrees)
  moreover have "has_run_of t m env class v least = has_run_of_scalar class v least"
    by (simp add: has_run_of_def has_run_tiered_def longest_avx512_def longest_avx2_def longest_ssse3_def
        neon_longest_def has_run_of_scalar_def reach [OF scans(2)] reach [OF scans(5)] reach [OF scans(8)]
        reach [OF scans(11)] split: arch.split level.split)
  moreover have "runs_tiered t m env class v least = runs_scalar class v least"
    by (simp add: runs_tiered_def runs_avx512_def runs_avx2_def runs_ssse3_def neon_runs_def scans
        split: arch.split level.split)
  moreover have "(case first_scalar class v False of Some stop \<Rightarrow> stop | None \<Rightarrow> length v) = run_scalar class v"
    using length_takeWhile_le [of "contains class" v] by (simp add: first_scalar_def run_scalar_def Let_def)
  ultimately show ?thesis
    by (simp add: class_run_def class_find_def longest_run_def class_runs_def first first_scalar_def)
qed

theorem class_scans_are_scalar_witness:
  "\<forall>t m env. longest_run t m env \<lparr>class_lo = replicate 16 1, class_complement = True\<rparr> [0x41, 0x42, 0x05, 0x43] = 2"
  using class_scans_are_scalar [of "\<lparr>class_lo = replicate 16 1, class_complement = True\<rparr>" "[0x41, 0x42, 0x05, 0x43]"]
  by (simp add: class_ok_def USIZE_MAX_def longest_run_scalar_def longest_scalar_def Let_def contains_def HIGH_def)

end
