(* ===== verification/Column_Filter.thy ===== *)
theory Column_Filter
  imports Bit_Masks Cpu_Features
begin

unbundle bit_operations_syntax

text \<open>
  \<open>crates/pwrs/src/simd/filter.rs\<close>: an \<open>i32\<close> column filtered to a bitmap of its rows, and a bitmap read back
  into the rows. A vector of \<open>i32\<close> is the list of its lanes.
\<close>

type_synonym i32 = "32 word"

section \<open>Bitmaps\<close>

definition words_for :: "nat \<Rightarrow> nat" where
  "words_for n = (n + 63) div 64"

definition tail_row :: "i32 list \<Rightarrow> (i32 \<Rightarrow> bool) \<Rightarrow> u64 list \<Rightarrow> nat \<Rightarrow> u64 list" where
  "tail_row column pass out i =
     (if pass (column ! i) then out[drop_bit 6 i := out ! drop_bit 6 i OR push_bit (i AND 63) 1] else out)"

definition tail_rows :: "u64 list \<Rightarrow> i32 list \<Rightarrow> nat \<Rightarrow> (i32 \<Rightarrow> bool) \<Rightarrow> u64 list" where
  "tail_rows out column start pass = foldl (tail_row column pass) out [start..<length column]"

definition bitmap_of :: "i32 list \<Rightarrow> (i32 \<Rightarrow> bool) \<Rightarrow> u64 list" where
  "bitmap_of column pass = tail_rows (replicate (words_for (length column)) 0) column 0 pass"

definition eq_i32_scalar :: "i32 list \<Rightarrow> i32 \<Rightarrow> u64 list" where
  "eq_i32_scalar column val = bitmap_of column (\<lambda>x. x = val)"

definition range_i32_scalar :: "i32 list \<Rightarrow> i32 \<Rightarrow> i32 \<Rightarrow> u64 list" where
  "range_i32_scalar column lo hi = bitmap_of column (\<lambda>x. sint lo \<le> sint x \<and> sint x \<le> sint hi)"

definition in_i32_scalar :: "i32 list \<Rightarrow> i32 list \<Rightarrow> u64 list" where
  "in_i32_scalar column vals = bitmap_of column (\<lambda>x. x \<in> set vals)"

section \<open>Rows of a bitmap\<close>

text \<open>The bits of a word, and whether a row at or past \<open>n\<close> was met, which returns at once.\<close>

function word_rows :: "nat \<Rightarrow> nat \<Rightarrow> u64 \<Rightarrow> nat list \<Rightarrow> nat list \<times> bool" where
  "word_rows n w bits out =
     (if bits = 0 then (out, False)
      else let i = push_bit 6 w + trailing_zeros bits
        in if n \<le> i then (out, True) else word_rows n w (bits AND (bits - 1)) (out @ [i]))"
  by pat_completeness auto

termination
  by (relation "measure (\<lambda>(n, w, bits, out). count_ones bits)") (simp_all add: count_ones clear_lowest ones_Nil)

primrec indices_loop :: "nat \<Rightarrow> nat \<Rightarrow> u64 list \<Rightarrow> nat list \<Rightarrow> nat list" where
  "indices_loop n w [] out = out"
| "indices_loop n w (word # ws) out =
     (case word_rows n w word out of (out, met) \<Rightarrow> if met then out else indices_loop n (w + 1) ws out)"

definition indices :: "u64 list \<Rightarrow> nat \<Rightarrow> nat list" where
  "indices bitmap n = indices_loop n 0 bitmap []"

function page_rows :: "nat \<Rightarrow> nat \<Rightarrow> u64 \<Rightarrow> nat \<Rightarrow> nat list \<Rightarrow> nat \<times> nat list" where
  "page_rows most w bits skip out =
     (if bits \<noteq> 0 \<and> length out < most
      then if 0 < skip then page_rows most w (bits AND (bits - 1)) (skip - 1) out
           else page_rows most w (bits AND (bits - 1)) skip (out @ [push_bit 6 w + trailing_zeros bits])
      else (skip, out))"
  by pat_completeness auto

termination
  by (relation "measure (\<lambda>(most, w, bits, skip, out). count_ones bits)") (simp_all add: count_ones clear_lowest ones_Nil)

primrec page_loop :: "nat \<Rightarrow> nat \<Rightarrow> nat \<Rightarrow> u64 list \<Rightarrow> nat \<Rightarrow> nat list \<Rightarrow> nat list" where
  "page_loop n most w [] skip out = out"
| "page_loop n most w (word # ws) skip out =
     (if length out = most \<or> n \<le> push_bit 6 w then out
      else let live = n - push_bit 6 w;
               bits = (if live < 64 then word AND (push_bit live 1 - 1) else word);
               tally = count_ones bits
        in if tally \<le> skip then page_loop n most (w + 1) ws (skip - tally) out
           else (case page_rows most w bits skip out of (skip, out) \<Rightarrow> page_loop n most (w + 1) ws skip out))"

definition indices_page :: "u64 list \<Rightarrow> nat \<Rightarrow> nat \<Rightarrow> nat \<Rightarrow> nat list" where
  "indices_page bitmap n skip most = page_loop n most 0 bitmap skip []"

declare word_rows.simps [simp del] page_rows.simps [simp del]

section \<open>Vectors of lanes\<close>

definition set1_epi32 :: "nat \<Rightarrow> i32 \<Rightarrow> i32 list" where
  "set1_epi32 width x = replicate width x"

definition lanes2 :: "(i32 \<Rightarrow> i32 \<Rightarrow> i32) \<Rightarrow> i32 list \<Rightarrow> i32 list \<Rightarrow> i32 list" where
  "lanes2 f a b = map2 f a b"

definition cmpeq_epi32 :: "i32 list \<Rightarrow> i32 list \<Rightarrow> i32 list" where
  "cmpeq_epi32 = lanes2 (\<lambda>x y. if x = y then - 1 else 0)"

definition cmpgt_epi32 :: "i32 list \<Rightarrow> i32 list \<Rightarrow> i32 list" where
  "cmpgt_epi32 = lanes2 (\<lambda>x y. if sint y < sint x then - 1 else 0)"

definition cmpge_s32 :: "i32 list \<Rightarrow> i32 list \<Rightarrow> i32 list" where
  "cmpge_s32 = lanes2 (\<lambda>x y. if sint y \<le> sint x then - 1 else 0)"

definition cmple_s32 :: "i32 list \<Rightarrow> i32 list \<Rightarrow> i32 list" where
  "cmple_s32 = lanes2 (\<lambda>x y. if sint x \<le> sint y then - 1 else 0)"

definition movemask_ps :: "i32 list \<Rightarrow> u64" where
  "movemask_ps v = foldr (\<lambda>j acc. if bit (v ! j) 31 then push_bit j 1 OR acc else acc) [0..<length v] 0"

text \<open>The compares of AVX-512 into a mask register of sixteen bits.\<close>

definition cmp_mask :: "(i32 \<Rightarrow> i32 \<Rightarrow> bool) \<Rightarrow> i32 list \<Rightarrow> i32 list \<Rightarrow> u16" where
  "cmp_mask p a b = foldr (\<lambda>j acc. if p (a ! j) (b ! j) then push_bit j 1 OR acc else acc) [0..<length a] 0"

section \<open>The scans\<close>

text \<open>One word of 64 rows, \<open>width\<close> of them a compare, and the loop over the whole words.\<close>

definition scan_word :: "nat \<Rightarrow> (i32 list \<Rightarrow> u64) \<Rightarrow> i32 list \<Rightarrow> nat \<Rightarrow> u64 \<Rightarrow> u64" where
  "scan_word width mask_of column w word =
     foldl (\<lambda>word k. word OR push_bit (width * k) (mask_of (take width (drop (push_bit 6 w + width * k) column))))
       word [0..<64 div width]"

definition scan_rows :: "nat \<Rightarrow> (i32 list \<Rightarrow> u64) \<Rightarrow> i32 list \<Rightarrow> (i32 \<Rightarrow> bool) \<Rightarrow> u64 list" where
  "scan_rows width mask_of column pass =
     (let words = drop_bit 6 (length column);
          out = foldl (\<lambda>out w. out[w := scan_word width mask_of column w (out ! w)])
                  (replicate (words_for (length column)) 0) [0..<words]
      in tail_rows out column (push_bit 6 words) pass)"

definition scan_sse2 :: "i32 list \<Rightarrow> (i32 list \<Rightarrow> i32 list) \<Rightarrow> (i32 \<Rightarrow> bool) \<Rightarrow> u64 list" where
  "scan_sse2 column hit pass = scan_rows 4 (\<lambda>v. movemask_ps (hit v)) column pass"

definition scan_avx2 :: "i32 list \<Rightarrow> (i32 list \<Rightarrow> i32 list) \<Rightarrow> (i32 \<Rightarrow> bool) \<Rightarrow> u64 list" where
  "scan_avx2 column hit pass = scan_rows 8 (\<lambda>v. movemask_ps (hit v)) column pass"

definition scan_avx512 :: "i32 list \<Rightarrow> (i32 list \<Rightarrow> u16) \<Rightarrow> (i32 \<Rightarrow> bool) \<Rightarrow> u64 list" where
  "scan_avx512 column hit pass = scan_rows 16 (\<lambda>v. ucast (hit v)) column pass"

text \<open>The compares each filter makes.\<close>

definition eq_hit :: "nat \<Rightarrow> i32 \<Rightarrow> i32 list \<Rightarrow> i32 list" where
  "eq_hit width val v = cmpeq_epi32 v (set1_epi32 width val)"

definition range_hit :: "nat \<Rightarrow> i32 \<Rightarrow> i32 \<Rightarrow> i32 list \<Rightarrow> i32 list" where
  "range_hit width lo hi v =
     lanes2 (\<lambda>a b. NOT a AND b)
       (lanes2 (OR) (cmpgt_epi32 (set1_epi32 width lo) v) (cmpgt_epi32 v (set1_epi32 width hi)))
       (set1_epi32 width (- 1))"

definition in_hit :: "nat \<Rightarrow> i32 list \<Rightarrow> i32 list \<Rightarrow> i32 list" where
  "in_hit width vals v =
     foldl (\<lambda>acc w. lanes2 (OR) acc (cmpeq_epi32 v w)) (set1_epi32 width 0) (map (set1_epi32 width) vals)"

definition eq_sse2 :: "i32 list \<Rightarrow> i32 \<Rightarrow> u64 list" where
  "eq_sse2 column val = scan_sse2 column (eq_hit 4 val) (\<lambda>x. x = val)"

definition range_sse2 :: "i32 list \<Rightarrow> i32 \<Rightarrow> i32 \<Rightarrow> u64 list" where
  "range_sse2 column lo hi = scan_sse2 column (range_hit 4 lo hi) (\<lambda>x. sint lo \<le> sint x \<and> sint x \<le> sint hi)"

definition in_sse2 :: "i32 list \<Rightarrow> i32 list \<Rightarrow> u64 list" where
  "in_sse2 column vals = scan_sse2 column (in_hit 4 vals) (\<lambda>x. x \<in> set vals)"

definition eq_avx2 :: "i32 list \<Rightarrow> i32 \<Rightarrow> u64 list" where
  "eq_avx2 column val = scan_avx2 column (eq_hit 8 val) (\<lambda>x. x = val)"

definition range_avx2 :: "i32 list \<Rightarrow> i32 \<Rightarrow> i32 \<Rightarrow> u64 list" where
  "range_avx2 column lo hi = scan_avx2 column (range_hit 8 lo hi) (\<lambda>x. sint lo \<le> sint x \<and> sint x \<le> sint hi)"

definition in_avx2 :: "i32 list \<Rightarrow> i32 list \<Rightarrow> u64 list" where
  "in_avx2 column vals = scan_avx2 column (in_hit 8 vals) (\<lambda>x. x \<in> set vals)"

definition eq_avx512 :: "i32 list \<Rightarrow> i32 \<Rightarrow> u64 list" where
  "eq_avx512 column val = scan_avx512 column (\<lambda>v. cmp_mask (=) v (set1_epi32 16 val)) (\<lambda>x. x = val)"

definition range_avx512 :: "i32 list \<Rightarrow> i32 \<Rightarrow> i32 \<Rightarrow> u64 list" where
  "range_avx512 column lo hi =
     scan_avx512 column
       (\<lambda>v. cmp_mask (\<lambda>x y. sint y \<le> sint x) v (set1_epi32 16 lo)
             AND cmp_mask (\<lambda>x y. sint x \<le> sint y) v (set1_epi32 16 hi))
       (\<lambda>x. sint lo \<le> sint x \<and> sint x \<le> sint hi)"

definition in_avx512 :: "i32 list \<Rightarrow> i32 list \<Rightarrow> u64 list" where
  "in_avx512 column vals =
     scan_avx512 column (\<lambda>v. foldl (\<lambda>acc w. acc OR cmp_mask (=) v w) 0 (map (set1_epi32 16) vals))
       (\<lambda>x. x \<in> set vals)"

section \<open>NEON\<close>

definition vmovn_u32 :: "i32 list \<Rightarrow> u16 list" where
  "vmovn_u32 v = map ucast v"

definition vmovn_u16 :: "u16 list \<Rightarrow> u8 list" where
  "vmovn_u16 v = map ucast v"

fun pair_sums :: "u8 list \<Rightarrow> u8 list" where
  "pair_sums (x # y # v) = (x + y) # pair_sums v"
| "pair_sums v = []"

definition vpaddq_u8 :: "u8 list \<Rightarrow> u8 list \<Rightarrow> u8 list" where
  "vpaddq_u8 a b = pair_sums a @ pair_sums b"

definition bits16 :: "i32 list list \<Rightarrow> u64" where
  "bits16 c =
     (let low = vmovn_u16 (vmovn_u32 (c ! 0) @ vmovn_u32 (c ! 1));
          high = vmovn_u16 (vmovn_u32 (c ! 2) @ vmovn_u32 (c ! 3));
          m = vec_and (low @ high) [1, 2, 4, 8, 16, 32, 64, 128, 1, 2, 4, 8, 16, 32, 64, 128];
          s = vpaddq_u8 m m; s = vpaddq_u8 s s; s = vpaddq_u8 s s
      in ucast (ucast (s ! 0) OR push_bit 8 (ucast (s ! 1)) :: u16))"

definition neon_scan :: "i32 list \<Rightarrow> (i32 list \<Rightarrow> i32 list) \<Rightarrow> (i32 \<Rightarrow> bool) \<Rightarrow> u64 list" where
  "neon_scan column hit pass =
     scan_rows 16 (\<lambda>q. bits16 [hit (take 4 q), hit (take 4 (drop 4 q)), hit (take 4 (drop 8 q)), hit (take 4 (drop 12 q))])
       column pass"

definition neon_range_hit :: "i32 \<Rightarrow> i32 \<Rightarrow> i32 list \<Rightarrow> i32 list" where
  "neon_range_hit lo hi v = lanes2 (AND) (cmpge_s32 v (set1_epi32 4 lo)) (cmple_s32 v (set1_epi32 4 hi))"

definition neon_eq :: "i32 list \<Rightarrow> i32 \<Rightarrow> u64 list" where
  "neon_eq column val = neon_scan column (eq_hit 4 val) (\<lambda>x. x = val)"

definition neon_range :: "i32 list \<Rightarrow> i32 \<Rightarrow> i32 \<Rightarrow> u64 list" where
  "neon_range column lo hi = neon_scan column (neon_range_hit lo hi) (\<lambda>x. sint lo \<le> sint x \<and> sint x \<le> sint hi)"

definition neon_any_of :: "i32 list \<Rightarrow> i32 list \<Rightarrow> u64 list" where
  "neon_any_of column vals = neon_scan column (in_hit 4 vals) (\<lambda>x. x \<in> set vals)"

section \<open>The choice\<close>

definition eq_i32 :: "target \<Rightarrow> machine \<Rightarrow> string option \<Rightarrow> i32 list \<Rightarrow> i32 \<Rightarrow> u64 list" where
  "eq_i32 t m env column val =
     (case t_arch t of
        Arch_x86_64 \<Rightarrow>
          (case cpu_level t m env of
             V4 \<Rightarrow> eq_avx512 column val
           | V3 \<Rightarrow> eq_avx2 column val
           | _ \<Rightarrow> eq_sse2 column val)
      | Arch_aarch64 \<Rightarrow> neon_eq column val
      | Arch_other \<Rightarrow> eq_i32_scalar column val)"

definition range_i32 :: "target \<Rightarrow> machine \<Rightarrow> string option \<Rightarrow> i32 list \<Rightarrow> i32 \<Rightarrow> i32 \<Rightarrow> u64 list" where
  "range_i32 t m env column lo hi =
     (case t_arch t of
        Arch_x86_64 \<Rightarrow>
          (case cpu_level t m env of
             V4 \<Rightarrow> range_avx512 column lo hi
           | V3 \<Rightarrow> range_avx2 column lo hi
           | _ \<Rightarrow> range_sse2 column lo hi)
      | Arch_aarch64 \<Rightarrow> neon_range column lo hi
      | Arch_other \<Rightarrow> range_i32_scalar column lo hi)"

definition in_i32 :: "target \<Rightarrow> machine \<Rightarrow> string option \<Rightarrow> i32 list \<Rightarrow> i32 list \<Rightarrow> u64 list" where
  "in_i32 t m env column vals =
     (case t_arch t of
        Arch_x86_64 \<Rightarrow>
          (case cpu_level t m env of
             V4 \<Rightarrow> in_avx512 column vals
           | V3 \<Rightarrow> in_avx2 column vals
           | _ \<Rightarrow> in_sse2 column vals)
      | Arch_aarch64 \<Rightarrow> neon_any_of column vals
      | Arch_other \<Rightarrow> in_i32_scalar column vals)"

end
