(* ===== verification/Column_Laws.thy ===== *)
theory Column_Laws
  imports Column_Filter
begin

unbundle bit_operations_syntax

text \<open>
  The filters of \<open>crates/pwrs/src/simd/filter.rs\<close> give at every tier the bitmap their scalar form gives,
  and a bitmap is read back into the rows that passed. \<open>row_mask\<close> is what a compare's mask must be.
\<close>

section \<open>Rows and words\<close>

lemma row_split: "drop_bit 6 i = i div 64" "(i AND 63) = i mod 64" for i :: nat
proof -
  show "drop_bit 6 i = i div 64"
    by (simp add: drop_bit_eq_div)
  have "take_bit 6 i = (i AND 63)"
    by (simp add: take_bit_eq_mask mask_eq_exp_minus_1)
  then show "(i AND 63) = i mod 64"
    by (simp add: take_bit_eq_mod)
qed

lemma push_6: "push_bit 6 (w :: nat) = 64 * w"
  by (simp add: push_bit_eq_mult)

lemma words_for_less: "i < n \<Longrightarrow> i div 64 < words_for n"
  by (simp add: words_for_def)

text \<open>A bitmap holds a set of rows: bit \<open>i mod 64\<close> of word \<open>i div 64\<close> is row \<open>i\<close>.\<close>

definition holds_rows :: "nat \<Rightarrow> (nat \<Rightarrow> bool) \<Rightarrow> u64 list \<Rightarrow> bool" where
  "holds_rows n R out \<longleftrightarrow> length out = words_for n \<and>
     (\<forall>w < length out. \<forall>b < 64. bit (out ! w) b \<longleftrightarrow> 64 * w + b < n \<and> R (64 * w + b))"

lemma holds_unique: "holds_rows n R out \<Longrightarrow> holds_rows n R out' \<Longrightarrow> out = out'"
  by (intro nth_equalityI) (auto simp: holds_rows_def intro!: bit_word_eqI)

lemma holds_cong: "(\<And>i. i < n \<Longrightarrow> R i \<longleftrightarrow> R' i) \<Longrightarrow> holds_rows n R out \<longleftrightarrow> holds_rows n R' out"
  by (auto simp: holds_rows_def)

lemma holds_none: "holds_rows n (\<lambda>_. False) (replicate (words_for n) 0)"
  by (simp add: holds_rows_def)

lemma holds_add:
  assumes "holds_rows n R out" and "i < n"
  shows "holds_rows n (\<lambda>k. R k \<or> k = i) (out[i div 64 := out ! (i div 64) OR push_bit (i mod 64) 1])"
proof -
  have "i div 64 < length out"
    using assms words_for_less by (simp add: holds_rows_def)
  moreover have "64 * w + b = i \<longleftrightarrow> w = i div 64 \<and> b = i mod 64" if "b < 64" for w b
    using that by auto
  ultimately show ?thesis
    using assms by (auto simp: holds_rows_def nth_list_update bit_or_iff bit_exp_iff)
qed

lemma tail_row_holds:
  assumes "holds_rows (length column) R out" and "i < length column"
  shows "holds_rows (length column) (\<lambda>k. R k \<or> k = i \<and> pass (column ! k)) (tail_row column pass out i)"
proof (cases "pass (column ! i)")
  case True
  then show ?thesis
    using holds_add [OF assms] by (auto simp: tail_row_def row_split elim!: holds_cong [THEN iffD1, rotated])
next
  case False
  then show ?thesis
    using assms(1) by (auto simp: tail_row_def elim!: holds_cong [THEN iffD1, rotated])
qed

lemma tail_rows_holds:
  assumes "holds_rows (length column) R out"
  shows "holds_rows (length column) (\<lambda>i. R i \<or> start \<le> i \<and> pass (column ! i)) (tail_rows out column start pass)"
proof -
  have "stop \<le> length column \<Longrightarrow>
      holds_rows (length column) (\<lambda>i. R i \<or> start \<le> i \<and> i < stop \<and> pass (column ! i))
        (foldl (tail_row column pass) out [start..<stop])" for stop
  proof (induction stop)
    case 0
    then show ?case
      using assms by simp
  next
    case (Suc stop)
    then have held: "holds_rows (length column) (\<lambda>i. R i \<or> start \<le> i \<and> i < stop \<and> pass (column ! i))
        (foldl (tail_row column pass) out [start..<stop])"
      by simp
    show ?case
    proof (cases "start \<le> stop")
      case True
      have "holds_rows (length column)
          (\<lambda>k. (R k \<or> start \<le> k \<and> k < stop \<and> pass (column ! k)) \<or> k = stop \<and> pass (column ! k))
          (tail_row column pass (foldl (tail_row column pass) out [start..<stop]) stop)"
        using held Suc.prems by (intro tail_row_holds) simp_all
      moreover have "((R k \<or> start \<le> k \<and> k < stop \<and> pass (column ! k)) \<or> k = stop \<and> pass (column ! k))
          = (R k \<or> start \<le> k \<and> k < Suc stop \<and> pass (column ! k))" for k
        using True by (auto simp: less_Suc_eq)
      ultimately show ?thesis
        using True by simp
    next
      case False
      then have "(R k \<or> start \<le> k \<and> k < Suc stop \<and> pass (column ! k)) = (R k \<or> start \<le> k \<and> k < stop \<and> pass (column ! k))" for k
        by auto
      then show ?thesis
        using False held by simp
    qed
  qed
  from this [of "length column"] show ?thesis
    by (auto simp: tail_rows_def elim!: holds_cong [THEN iffD1, rotated])
qed

lemma bitmap_holds: "holds_rows (length column) (\<lambda>i. pass (column ! i)) (bitmap_of column pass)"
  using tail_rows_holds [OF holds_none, of column 0] by (simp add: bitmap_of_def)

section \<open>The scans\<close>

locale row_mask =
  fixes width :: nat and mask_of :: "i32 list \<Rightarrow> u64" and pass :: "i32 \<Rightarrow> bool"
  assumes width_ok: "width \<in> {4, 8, 16}"
    and lanes_are: "length v = width \<Longrightarrow> bit (mask_of v) j \<longleftrightarrow> j < width \<and> pass (v ! j)"
begin

lemma bit_scan_word:
  assumes "64 * w + 64 \<le> length column" and "b < 64"
  shows "bit (scan_word width mask_of column w word) b \<longleftrightarrow> bit word b \<or> pass (column ! (64 * w + b))"
proof -
  have pos: "0 < width" and all: "width * (64 div width) = 64"
    using width_ok by auto
  have "bit (foldl (\<lambda>word k. word OR push_bit (width * k) (mask_of (take width (drop (push_bit 6 w + width * k) column))))
      word [0..<n]) b \<longleftrightarrow> bit word b \<or> b < width * n \<and> pass (column ! (64 * w + b))" if "n \<le> 64 div width" for n
    using that
  proof (induction n)
    case (Suc n)
    let ?v = "take width (drop (64 * w + width * n) column)"
    have "width * Suc n \<le> 64"
      using Suc.prems all by (metis mult_le_mono2)
    then have v: "length ?v = width" and n: "width * n + width \<le> 64"
      using assms(1) by auto
    have "bit (push_bit (width * n) (mask_of ?v)) b
        \<longleftrightarrow> width * n \<le> b \<and> b < width * Suc n \<and> pass (column ! (64 * w + b))"
    proof (cases "width * n \<le> b")
      case True
      then have "?v ! (b - width * n) = column ! (64 * w + b)" if "b < width * n + width"
        using that n assms(1) by (simp add: nth_drop)
      then show ?thesis
        using True assms(2) lanes_are [OF v, of "b - width * n"] by (auto simp: bit_push_bit_iff)
    qed (simp add: bit_push_bit_iff)
    then show ?case
      using Suc by (auto simp: bit_or_iff push_6)
  qed simp
  from this [of "64 div width"] assms(2) show ?thesis
    by (simp add: scan_word_def all)
qed

lemma scan_holds: "holds_rows (length column) (\<lambda>i. pass (column ! i)) (scan_rows width mask_of column pass)"
proof -
  let ?n = "length column"
  have "holds_rows ?n (\<lambda>i. i < 64 * k \<and> pass (column ! i))
      (foldl (\<lambda>out w. out[w := scan_word width mask_of column w (out ! w)]) (replicate (words_for ?n) 0) [0..<k])"
    if "k \<le> ?n div 64" for k
    using that
  proof (induction k)
    case 0
    then show ?case
      using holds_none by simp
  next
    case (Suc k)
    let ?out = "foldl (\<lambda>out w. out[w := scan_word width mask_of column w (out ! w)]) (replicate (words_for ?n) 0) [0..<k]"
    have held: "holds_rows ?n (\<lambda>i. i < 64 * k \<and> pass (column ! i)) ?out"
      using Suc by simp
    have "64 * k + 64 \<le> ?n"
      using Suc.prems by linarith
    moreover from this have "k < length ?out"
      using held words_for_less [of "64 * k" ?n] by (simp add: holds_rows_def)
    ultimately show ?case
      using held bit_scan_word [of k column] by (auto simp: holds_rows_def nth_list_update)
  qed
  from tail_rows_holds [OF this [of "?n div 64"], of "64 * (?n div 64)" pass] show ?thesis
    by (auto simp: scan_rows_def Let_def row_split push_6 elim!: holds_cong [THEN iffD1, rotated])
qed

lemma scan_is_scalar: "scan_rows width mask_of column pass = bitmap_of column pass"
  using scan_holds bitmap_holds by (rule holds_unique)

end

section \<open>The masks of the instruction sets\<close>

text \<open>A vector a compare leaves: all ones in a lane whose row passes, zero in the others.\<close>

definition hits :: "(i32 \<Rightarrow> bool) \<Rightarrow> i32 list \<Rightarrow> i32 list" where
  "hits pass v = map (\<lambda>x. if pass x then - 1 else 0) v"

lemma lanes2_set1: "lanes2 f v (set1_epi32 (length v) x) = map (\<lambda>y. f y x) v"
    "lanes2 f (set1_epi32 (length v) x) v = map (f x) v"
  by (rule nth_equalityI; simp add: lanes2_def set1_epi32_def)+

lemma lanes2_map: "lanes2 f (map g v) (map h v) = map (\<lambda>x. f (g x) (h x)) v"
  by (simp add: lanes2_def map2_map_map)

lemma eq_hits: "length v = width \<Longrightarrow> eq_hit width val v = hits (\<lambda>x. x = val) v"
  by (auto simp: eq_hit_def cmpeq_epi32_def lanes2_set1 hits_def)

lemma range_hits: "length v = width \<Longrightarrow> range_hit width lo hi v = hits (\<lambda>x. sint lo \<le> sint x \<and> sint x \<le> sint hi) v"
  by (auto simp: range_hit_def cmpgt_epi32_def lanes2_set1 lanes2_map hits_def
      lanes2_set1(1) [of _ "map _ v", simplified])

lemma neon_range_hits:
  "length v = 4 \<Longrightarrow> neon_range_hit lo hi v = hits (\<lambda>x. sint lo \<le> sint x \<and> sint x \<le> sint hi) v"
  using lanes2_set1(1) [of _ v]
  by (auto simp: neon_range_hit_def cmpge_s32_def cmple_s32_def lanes2_map hits_def)

lemma in_hits:
  assumes "length v = width"
  shows "in_hit width vals v = hits (\<lambda>x. x \<in> set vals) v"
proof -
  have "foldl (\<lambda>acc w. lanes2 (OR) acc (cmpeq_epi32 v w)) (hits P v) (map (set1_epi32 width) vals)
      = hits (\<lambda>x. P x \<or> x \<in> set vals) v" for P
  proof (induction vals arbitrary: P)
    case (Cons c vals)
    have "lanes2 (OR) (hits P v) (cmpeq_epi32 v (set1_epi32 width c)) = hits (\<lambda>x. P x \<or> x = c) v"
      using assms by (auto simp: cmpeq_epi32_def lanes2_set1 lanes2_map hits_def)
    then show ?case
      using Cons.IH [of "\<lambda>x. P x \<or> x = c"] by (simp add: disj_assoc)
  qed simp
  from this [of "\<lambda>_. False"] show ?thesis
    using assms by (simp add: in_hit_def hits_def set1_epi32_def map_replicate_const)
qed

lemma bit_movemask: "length v = width \<Longrightarrow> width \<le> 64 \<Longrightarrow> bit (movemask_ps (hits pass v)) j \<longleftrightarrow> j < width \<and> pass (v ! j)"
  by (auto simp: movemask_ps_def bits_set hits_def split: if_splits)

lemma bit_cmp_mask: "bit (cmp_mask p a b) j \<longleftrightarrow> j < length a \<and> j < 16 \<and> p (a ! j) (b ! j)"
proof -
  have "bit (foldr (\<lambda>j acc. if P j then push_bit j 1 OR acc else acc) js 0 :: u16) k \<longleftrightarrow> k \<in> set js \<and> k < 16 \<and> P k" for P js k
    by (induction js) (auto simp: bit_or_iff bit_exp_iff)
  then show ?thesis
    by (auto simp: cmp_mask_def)
qed

lemma bit_any_mask:
  "length v = 16 \<Longrightarrow> bit (foldl (\<lambda>acc w. acc OR cmp_mask (=) v w) acc (map (set1_epi32 16) vals)) j
    \<longleftrightarrow> bit acc j \<or> j < 16 \<and> v ! j \<in> set vals"
proof (induction vals arbitrary: acc)
  case (Cons c vals)
  have "bit (cmp_mask (=) v (set1_epi32 16 c)) j \<longleftrightarrow> j < 16 \<and> v ! j = c"
    using Cons.prems by (auto simp: bit_cmp_mask set1_epi32_def)
  then show ?case
    using Cons by (auto simp: bit_or_iff)
qed simp

text \<open>The pairwise sums of NEON: eight masked bytes, one bit each, sum to the byte of those bits.\<close>

lemma narrow_hit: "(ucast (ucast (if P then - 1 else 0 :: i32) :: u16) :: u8) = (if P then - 1 else 0)"
  by (cases P) (rule bit_word_eqI; simp add: bit_ucast_iff)+
lemma bit_horner: "bit (horner_sum of_bool 2 bs :: u8) j \<longleftrightarrow> j < 8 \<and> j < length bs \<and> bs ! j"
  by (auto simp: bit_horner_sum_bit_iff)
lemma eight_bits:
  fixes b0 b1 b2 b3 b4 b5 b6 b7 :: bool
  shows "((of_bool b0 * 1 + of_bool b1 * 2) + (of_bool b2 * 4 + of_bool b3 * 8))
      + ((of_bool b4 * 16 + of_bool b5 * 32) + (of_bool b6 * 64 + of_bool b7 * 128))
    = (horner_sum of_bool 2 [b0, b1, b2, b3, b4, b5, b6, b7] :: u8)"
  by (simp only: horner_sum_simps list.map) (simp add: distrib_left mult.commute)

lemma masked: "(if P then - 1 else 0) AND w = of_bool P * (w :: u8)"
  by simp

lemma pair_sums_thrice:
  "let s = vpaddq_u8 [a, b, c, d, e, f, g, h, i, j, k, l, m, n, p, q] [a, b, c, d, e, f, g, h, i, j, k, l, m, n, p, q];
       s = vpaddq_u8 s s; s = vpaddq_u8 s s
   in s ! 0 = (a + b) + (c + d) + ((e + f) + (g + h)) \<and> s ! 1 = (i + j) + (k + l) + ((m + n) + (p + q))"
  by (simp only: Let_def vpaddq_u8_def pair_sums.simps append.simps nth_Cons_0 nth_Cons_Suc One_nat_def)

lemma bits16_four:
  "bits16 [a, b, c, d] =
    (let m = vec_and (vmovn_u16 (vmovn_u32 a @ vmovn_u32 b) @ vmovn_u16 (vmovn_u32 c @ vmovn_u32 d))
           [1, 2, 4, 8, 16, 32, 64, 128, 1, 2, 4, 8, 16, 32, 64, 128];
         s = vpaddq_u8 m m; s = vpaddq_u8 s s; s = vpaddq_u8 s s
     in ucast (ucast (s ! 0) OR push_bit 8 (ucast (s ! 1)) :: u16))"
  by (simp add: bits16_def Let_def)

lemma bits16_bit:
  assumes "length q = 16"
  shows "bit (bits16 [hits pass (take 4 q), hits pass (take 4 (drop 4 q)), hits pass (take 4 (drop 8 q)), hits pass (take 4 (drop 12 q))]) j
    \<longleftrightarrow> j < 16 \<and> pass (q ! j)"
proof -
  let ?W = "[1, 2, 4, 8, 16, 32, 64, 128, 1, 2, 4, 8, 16, 32, 64, 128] :: u8 list"
  let ?m = "map (\<lambda>k. of_bool (pass (q ! k)) * ?W ! k) [0..<16]"
  let ?lows = "[pass (q ! 0), pass (q ! 1), pass (q ! 2), pass (q ! 3), pass (q ! 4), pass (q ! 5), pass (q ! 6), pass (q ! 7)]" and ?highs = "[pass (q ! 8), pass (q ! 9), pass (q ! 10), pass (q ! 11), pass (q ! 12), pass (q ! 13), pass (q ! 14), pass (q ! 15)]"
  have all: "[0..<16] = [0, 1, 2, 3, 4, 5, 6, 7, 8, 9, 10, 11, 12, 13, 14, 15 :: nat]"
    by (simp add: upt_rec)
  have "take 4 q @ take 4 (drop 4 q) @ take 4 (drop 8 q) @ take 4 (drop 12 q) = q"
    using assms by (simp add: take_add [symmetric] flip: append_assoc)
  then have narrowed: "vmovn_u16 (vmovn_u32 (hits pass (take 4 q)) @ vmovn_u32 (hits pass (take 4 (drop 4 q)))) @
      vmovn_u16 (vmovn_u32 (hits pass (take 4 (drop 8 q))) @ vmovn_u32 (hits pass (take 4 (drop 12 q))))
    = map (\<lambda>x. if pass x then - 1 else 0) q"
    by (simp add: vmovn_u16_def vmovn_u32_def hits_def narrow_hit comp_def flip: map_append append_assoc)
  have "vec_and (map (\<lambda>x. if pass x then - 1 else 0) q) ?W = ?m"
    using assms by (intro nth_equalityI) (simp_all add: vec_and_def masked del: upt_rec_numeral)
  also have "?m = [of_bool (pass (q ! 0)) * 1, of_bool (pass (q ! 1)) * 2, of_bool (pass (q ! 2)) * 4, of_bool (pass (q ! 3)) * 8, of_bool (pass (q ! 4)) * 16, of_bool (pass (q ! 5)) * 32, of_bool (pass (q ! 6)) * 64, of_bool (pass (q ! 7)) * 128, of_bool (pass (q ! 8)) * 1, of_bool (pass (q ! 9)) * 2, of_bool (pass (q ! 10)) * 4, of_bool (pass (q ! 11)) * 8, of_bool (pass (q ! 12)) * 16, of_bool (pass (q ! 13)) * 32, of_bool (pass (q ! 14)) * 64, of_bool (pass (q ! 15)) * 128]"
    by (simp only: all list.map) simp
  finally have masked: "vec_and (map (\<lambda>x. if pass x then - 1 else 0) q) ?W = [of_bool (pass (q ! 0)) * 1, of_bool (pass (q ! 1)) * 2, of_bool (pass (q ! 2)) * 4, of_bool (pass (q ! 3)) * 8, of_bool (pass (q ! 4)) * 16, of_bool (pass (q ! 5)) * 32, of_bool (pass (q ! 6)) * 64, of_bool (pass (q ! 7)) * 128, of_bool (pass (q ! 8)) * 1, of_bool (pass (q ! 9)) * 2, of_bool (pass (q ! 10)) * 4, of_bool (pass (q ! 11)) * 8, of_bool (pass (q ! 12)) * 16, of_bool (pass (q ! 13)) * 32, of_bool (pass (q ! 14)) * 64, of_bool (pass (q ! 15)) * 128]" .
  note sums = pair_sums_thrice [of "of_bool (pass (q ! 0)) * 1" "of_bool (pass (q ! 1)) * 2" "of_bool (pass (q ! 2)) * 4" "of_bool (pass (q ! 3)) * 8" "of_bool (pass (q ! 4)) * 16" "of_bool (pass (q ! 5)) * 32" "of_bool (pass (q ! 6)) * 64" "of_bool (pass (q ! 7)) * 128"
      "of_bool (pass (q ! 8)) * 1" "of_bool (pass (q ! 9)) * 2" "of_bool (pass (q ! 10)) * 4" "of_bool (pass (q ! 11)) * 8" "of_bool (pass (q ! 12)) * 16" "of_bool (pass (q ! 13)) * 32" "of_bool (pass (q ! 14)) * 64" "of_bool (pass (q ! 15)) * 128",
      unfolded Let_def eight_bits]
  have packed: "bits16 [hits pass (take 4 q), hits pass (take 4 (drop 4 q)), hits pass (take 4 (drop 8 q)), hits pass (take 4 (drop 12 q))]
    = ucast (ucast (horner_sum of_bool 2 ?lows :: u8) OR push_bit 8 (ucast (horner_sum of_bool 2 ?highs :: u8)) :: u16)"
    unfolding bits16_four Let_def narrowed masked sums [THEN conjunct1] sums [THEN conjunct2] ..
  have "j < 8 \<Longrightarrow> ?lows ! j = pass (q ! j)" "8 \<le> j \<Longrightarrow> j < 16 \<Longrightarrow> ?highs ! (j - 8) = pass (q ! j)"
    by (auto simp: nth_Cons numeral_eq_Suc less_Suc_eq Suc_le_eq le_Suc_eq)
  then show ?thesis
    unfolding packed bit_ucast_iff bit_or_iff bit_push_bit_iff bit_horner by (cases "j < 8") auto
qed
text \<open>Each filter's compare at each width.\<close>

lemma neon_mask:
  assumes "\<And>v. length v = 4 \<Longrightarrow> hit v = hits pass v" and "length q = 16"
  shows "bit (bits16 [hit (take 4 q), hit (take 4 (drop 4 q)), hit (take 4 (drop 8 q)), hit (take 4 (drop 12 q))]) j
    \<longleftrightarrow> j < 16 \<and> pass (q ! j)"
  using bits16_bit [OF assms(2), of pass j] assms by simp

interpretation eq4: row_mask 4 "\<lambda>v. movemask_ps (eq_hit 4 val v)" "\<lambda>x. x = val" for val
  by unfold_locales (simp_all add: eq_hits bit_movemask)

interpretation eq8: row_mask 8 "\<lambda>v. movemask_ps (eq_hit 8 val v)" "\<lambda>x. x = val" for val
  by unfold_locales (simp_all add: eq_hits bit_movemask)

interpretation eq16: row_mask 16 "\<lambda>v. ucast (cmp_mask (=) v (set1_epi32 16 val))" "\<lambda>x. x = val" for val
  by unfold_locales (auto simp: bit_ucast_iff bit_cmp_mask set1_epi32_def)

interpretation range4: row_mask 4 "\<lambda>v. movemask_ps (range_hit 4 lo hi v)" "\<lambda>x. sint lo \<le> sint x \<and> sint x \<le> sint hi" for lo hi
  by unfold_locales (simp_all add: range_hits bit_movemask)

interpretation range8: row_mask 8 "\<lambda>v. movemask_ps (range_hit 8 lo hi v)" "\<lambda>x. sint lo \<le> sint x \<and> sint x \<le> sint hi" for lo hi
  by unfold_locales (simp_all add: range_hits bit_movemask)

interpretation range16: row_mask 16
  "\<lambda>v. ucast (cmp_mask (\<lambda>x y. sint y \<le> sint x) v (set1_epi32 16 lo) AND cmp_mask (\<lambda>x y. sint x \<le> sint y) v (set1_epi32 16 hi))"
  "\<lambda>x. sint lo \<le> sint x \<and> sint x \<le> sint hi" for lo hi
  by unfold_locales (auto simp: bit_ucast_iff bit_and_iff bit_cmp_mask set1_epi32_def)

interpretation in4: row_mask 4 "\<lambda>v. movemask_ps (in_hit 4 vals v)" "\<lambda>x. x \<in> set vals" for vals
  by unfold_locales (simp_all add: in_hits bit_movemask)

interpretation in8: row_mask 8 "\<lambda>v. movemask_ps (in_hit 8 vals v)" "\<lambda>x. x \<in> set vals" for vals
  by unfold_locales (simp_all add: in_hits bit_movemask)

interpretation in16: row_mask 16
  "\<lambda>v. ucast (foldl (\<lambda>acc w. acc OR cmp_mask (=) v w) 0 (map (set1_epi32 16) vals))" "\<lambda>x. x \<in> set vals" for vals
  by unfold_locales (auto simp: bit_ucast_iff bit_any_mask)

interpretation neon_eq: row_mask 16
  "\<lambda>q. bits16 [eq_hit 4 val (take 4 q), eq_hit 4 val (take 4 (drop 4 q)), eq_hit 4 val (take 4 (drop 8 q)), eq_hit 4 val (take 4 (drop 12 q))]"
  "\<lambda>x. x = val" for val
  by unfold_locales (simp, rule neon_mask [OF eq_hits])

interpretation neon_range: row_mask 16
  "\<lambda>q. bits16 [neon_range_hit lo hi (take 4 q), neon_range_hit lo hi (take 4 (drop 4 q)),
     neon_range_hit lo hi (take 4 (drop 8 q)), neon_range_hit lo hi (take 4 (drop 12 q))]"
  "\<lambda>x. sint lo \<le> sint x \<and> sint x \<le> sint hi" for lo hi
  by unfold_locales (simp, rule neon_mask [OF neon_range_hits])

interpretation neon_in: row_mask 16
  "\<lambda>q. bits16 [in_hit 4 vals (take 4 q), in_hit 4 vals (take 4 (drop 4 q)), in_hit 4 vals (take 4 (drop 8 q)), in_hit 4 vals (take 4 (drop 12 q))]"
  "\<lambda>x. x \<in> set vals" for vals
  by unfold_locales (simp, rule neon_mask [OF in_hits])

lemmas scans = scan_sse2_def scan_avx2_def scan_avx512_def neon_scan_def
  eq4.scan_is_scalar eq8.scan_is_scalar eq16.scan_is_scalar range4.scan_is_scalar range8.scan_is_scalar
  range16.scan_is_scalar in4.scan_is_scalar in8.scan_is_scalar in16.scan_is_scalar
  neon_eq.scan_is_scalar neon_range.scan_is_scalar neon_in.scan_is_scalar

lemma filter_tiers:
  "eq_i32 t m env column val = eq_i32_scalar column val"
  "range_i32 t m env column lo hi = range_i32_scalar column lo hi"
  "in_i32 t m env column vals = in_i32_scalar column vals"
  by (simp_all add: eq_i32_def range_i32_def in_i32_def eq_i32_scalar_def range_i32_scalar_def in_i32_scalar_def
      eq_sse2_def eq_avx2_def eq_avx512_def neon_eq_def range_sse2_def range_avx2_def range_avx512_def
      neon_range_def in_sse2_def in_avx2_def in_avx512_def neon_any_of_def scans split: arch.split level.split)

text \<open>
  C28: on every target, machine and \<open>PWRS_CPU_MAX\<close>, for every column, the filters give the bitmap their
  scalar form gives.
\<close>

theorem filters_are_scalar:
  "eq_i32 t m env column val = eq_i32_scalar column val \<and>
   range_i32 t m env column lo hi = range_i32_scalar column lo hi \<and>
   in_i32 t m env column vals = in_i32_scalar column vals"
  by (simp add: filter_tiers)

section \<open>Rows read back\<close>

definition word_rows_of :: "nat \<Rightarrow> nat \<Rightarrow> u64 \<Rightarrow> nat list" where
  "word_rows_of n w bits = filter (\<lambda>i. i < n) (map (\<lambda>b. 64 * w + b) (ones bits))"

primrec rows_from :: "nat \<Rightarrow> nat \<Rightarrow> u64 list \<Rightarrow> nat list" where
  "rows_from n w [] = []"
| "rows_from n w (word # ws) = word_rows_of n w word @ rows_from n (w + 1) ws"

lemma ones_parts:
  assumes "m \<noteq> 0"
  shows "ones m = trailing_zeros m # ones (m AND (m - 1))"
    and "\<forall>b \<in> set (ones (m AND (m - 1))). trailing_zeros m \<le> b"
proof -
  show o: "ones m = trailing_zeros m # ones (m AND (m - 1))"
    using assms trailing_zeros_ones [OF assms] clear_lowest [of m] ones_Nil [of m] by (cases "ones m") auto
  show "\<forall>b \<in> set (ones (m AND (m - 1))). trailing_zeros m \<le> b"
    using ones_sorted(1) [of m] o by simp
qed

lemma rows_past: "n \<le> 64 * w \<Longrightarrow> rows_from n w ws = []"
  by (induction ws arbitrary: w) (auto simp: word_rows_of_def filter_empty_conv)

lemma word_rows_are:
  "word_rows n w bits out = (out', met) \<Longrightarrow>
   out' = out @ word_rows_of n w bits \<and> (met \<longrightarrow> n \<le> 64 * w + 64)"
proof (induction n w bits out rule: word_rows.induct)
  case (1 n w bits out)
  show ?case
  proof (cases "bits = 0")
    case True
    then show ?thesis
      using "1.prems" by (subst (asm) word_rows.simps) (simp add: word_rows_of_def ones_def)
  next
    case False
    note parts = ones_parts [OF False]
    have tz: "trailing_zeros bits < 64"
      using parts(1) ones_iff [of "trailing_zeros bits" bits] bit_imp_le_length by fastforce
    show ?thesis
    proof (cases "n \<le> 64 * w + trailing_zeros bits")
      case True
      then have "word_rows_of n w bits = []"
        using parts by (auto simp: word_rows_of_def filter_empty_conv)
      then show ?thesis
        using "1.prems" False True tz by (subst (asm) word_rows.simps) (auto simp: Let_def push_6)
    next
      case less: False
      then show ?thesis
        using "1.IH" [OF False refl] "1.prems" False parts(1)
        by (subst (asm) (2) word_rows.simps) (auto simp: Let_def push_6 word_rows_of_def)
    qed
  qed
qed

lemma indices_are: "indices_loop n w ws out = out @ rows_from n w ws"
proof (induction ws arbitrary: w out)
  case (Cons word ws)
  obtain out' met where r: "word_rows n w word out = (out', met)"
    by fastforce
  show ?case
    using word_rows_are [OF r] Cons.IH [of "w + 1" out'] rows_past [of n "w + 1" ws] r by auto
qed simp

lemma page_rows_are:
  "page_rows most w bits skip out = (skip', out') \<Longrightarrow> length out \<le> most \<Longrightarrow>
   out' = take most (out @ drop skip (map (\<lambda>b. 64 * w + b) (ones bits))) \<and>
   (length out' = most \<or> skip' = skip - length (ones bits))"
proof (induction most w bits skip out rule: page_rows.induct)
  case (1 most w bits skip out)
  show ?case
  proof (cases "bits \<noteq> 0 \<and> length out < most")
    case True
    note parts = ones_parts(1) [of bits]
    show ?thesis
    proof (cases "0 < skip")
      case skipped: True
      then have "page_rows most w (bits AND (bits - 1)) (skip - 1) out = (skip', out')"
        using "1.prems"(1) True by (subst (asm) page_rows.simps) simp
      then show ?thesis
        using "1.IH"(1) [OF True skipped] True skipped parts by (auto simp: drop_Cons' Suc_diff_Suc)
    next
      case taken: False
      then have "page_rows most w (bits AND (bits - 1)) skip (out @ [push_bit 6 w + trailing_zeros bits]) = (skip', out')"
        using "1.prems"(1) True by (subst (asm) page_rows.simps) simp
      then show ?thesis
        using "1.IH"(2) [OF True taken] True taken parts by (auto simp: push_6)
    qed
  next
    case False
    then have "skip' = skip" "out' = out"
      using "1.prems"(1) page_rows.simps [of most w bits skip out] by auto
    then show ?thesis
      using False "1.prems"(2) by (auto simp: ones_def)
  qed
qed

lemma live_rows:
  assumes "64 * w < n"
  shows "map (\<lambda>b. 64 * w + b) (ones (if n - 64 * w < 64 then word AND (push_bit (n - 64 * w) 1 - 1) else word))
    = word_rows_of n w word"
proof (cases "n - 64 * w < 64")
  case True
  have m: "push_bit (n - 64 * w) 1 - 1 = (Bit_Operations.mask (n - 64 * w) :: u64)"
    by (simp add: mask_eq_exp_minus_1)
  have "ones (word AND (push_bit (n - 64 * w) 1 - 1)) = filter (\<lambda>b. b < n - 64 * w) (ones word)"
    unfolding m using True by (intro ones_eqI) (auto simp: ones_iff bit_and_iff bit_mask_iff sorted_filter [where f = id, simplified] dest: bit_imp_le_length)
  then show ?thesis
    using True by (auto simp: word_rows_of_def filter_map comp_def intro!: arg_cong [where f = "map _"] filter_cong)
next
  case False
  then have "\<forall>b \<in> set (ones word). 64 * w + b < n"
    using ones_iff [of _ word] bit_imp_le_length [of word] by fastforce
  then show ?thesis
    using False by (auto simp: word_rows_of_def filter_map comp_def filter_id_conv)
qed

lemma page_is:
  "length out \<le> most \<Longrightarrow> page_loop n most w ws skip out = take most (out @ drop skip (rows_from n w ws))"
proof (induction ws arbitrary: w skip out)
  case (Cons word ws)
  let ?bits = "if n - 64 * w < 64 then word AND (push_bit (n - 64 * w) 1 - 1) else word"
  show ?case
  proof (cases "length out = most \<or> n \<le> 64 * w")
    case True
    then show ?thesis
      using Cons.prems rows_past [of n w "word # ws"] by (auto simp: push_6)
  next
    case False
    then have rows: "map (\<lambda>b. 64 * w + b) (ones ?bits) = word_rows_of n w word"
      by (intro live_rows) simp
    then have tally: "count_ones ?bits = length (word_rows_of n w word)"
      by (metis count_ones length_map)
    show ?thesis
    proof (cases "count_ones ?bits \<le> skip")
      case True
      then have "page_loop n most w (word # ws) skip out = page_loop n most (w + 1) ws (skip - count_ones ?bits) out"
        using False by (simp add: push_6 Let_def)
      then show ?thesis
        using True Cons by (simp add: tally)
    next
      case within: False
      obtain skip' out' where p: "page_rows most w ?bits skip out = (skip', out')"
        by fastforce
      have page: "out' = take most (out @ drop skip (word_rows_of n w word))" "length out' = most \<or> skip' = 0"
        using page_rows_are [OF p Cons.prems] within by (auto simp: rows count_ones)
      have "page_loop n most w (word # ws) skip out = page_loop n most (w + 1) ws skip' out'"
        using False within p by (simp add: push_6 Let_def)
      also have "\<dots> = take most (out' @ drop skip' (rows_from n (w + 1) ws))"
        using page(1) by (intro Cons.IH) simp
      also have "\<dots> = take most ((out @ drop skip (word_rows_of n w word)) @ rows_from n (w + 1) ws)"
        using page by (cases "length out' = most") (auto simp: min_def split: if_splits)
      finally show ?thesis
        using within by (simp add: tally)
    qed
  qed
qed simp

lemma rows_from_bits:
  "rows_from n w ws = filter (\<lambda>i. i < n \<and> bit (ws ! (i div 64 - w)) (i mod 64)) [64 * w..<64 * w + 64 * length ws]"
proof (induction ws arbitrary: w)
  case (Cons word ws)
  let ?R = "\<lambda>i. i < n \<and> bit ((word # ws) ! (i div 64 - w)) (i mod 64)"
  have "word_rows_of n w word = filter (\<lambda>i. i < n) (filter (\<lambda>i. bit word (i - 64 * w)) [64 * w..<64 * w + 64])"
    by (simp add: word_rows_of_def ones_def shifted_filter del: upt_rec_numeral)
  also have "\<dots> = filter ?R [64 * w..<64 * w + 64]"
  proof -
    have "i div 64 = w \<and> i mod 64 = i - 64 * w" if "i \<in> set [64 * w..<64 * w + 64]" for i
      using that by (auto simp: div_nat_eqI modulo_nat_def)
    then show ?thesis
      by (simp add: conj_commute) (rule filter_cong, auto)
  qed
  finally have first: "word_rows_of n w word = filter ?R [64 * w..<64 * w + 64]" .
  have "rows_from n (w + 1) ws = filter ?R [64 * w + 64..<64 * w + 64 + 64 * length ws]"
  proof -
    have "i div 64 - w = Suc (i div 64 - (w + 1))" if "64 * w + 64 \<le> i" for i
    proof -
      have "Suc w \<le> i div 64"
        using that by (simp add: less_eq_div_iff_mult_less_eq)
      then show ?thesis
        by simp
    qed
    then show ?thesis
      unfolding Cons.IH by (simp add: algebra_simps) (rule filter_cong, auto)
  qed
  then show ?case
    using first upt_add_eq_append [of "64 * w" "64 * w + 64" "64 * length ws"] by (simp add: algebra_simps)
qed simp

lemma indices_bits: "indices bitmap n = filter (\<lambda>i. i < n \<and> bit (bitmap ! (i div 64)) (i mod 64)) [0..<64 * length bitmap]"
  using indices_are [of n 0 bitmap "[]"] rows_from_bits [of n 0 bitmap] by (simp add: indices_def)

lemma indices_bitmap: "indices (bitmap_of column pass) (length column) = filter (\<lambda>i. pass (column ! i)) [0..<length column]"
proof -
  let ?b = "bitmap_of column pass"
  note held = bitmap_holds [of column pass]
  have "i < length column \<and> bit (?b ! (i div 64)) (i mod 64) \<longleftrightarrow> i < length column \<and> pass (column ! i)" for i
    using held words_for_less [of i "length column"] mult_div_mod_eq [of 64 i] by (auto simp: holds_rows_def)
  then have "indices ?b (length column) = filter (\<lambda>i. i < length column \<and> pass (column ! i)) [0..<64 * length ?b]"
    unfolding indices_bits by simp
  also have "length column \<le> 64 * length ?b"
    using held by (simp add: holds_rows_def words_for_def)
  then have "[0..<64 * length ?b] = [0..<length column] @ [length column..<64 * length ?b]"
    by (metis le0 upt_add_eq_append add_0 le_Suc_ex)
  then have "filter (\<lambda>i. i < length column \<and> pass (column ! i)) [0..<64 * length ?b] = filter (\<lambda>i. pass (column ! i)) [0..<length column]"
    by (auto simp: filter_empty_conv intro!: filter_cong)
  finally show ?thesis .
qed

text \<open>
  C29: a filter's bitmap is read back into exactly the rows that pass, in order; and for any bitmap a page of
  its rows is the rows after the first \<open>skip\<close>, at most as many as asked.
\<close>

theorem rows_read_back:
  "indices (eq_i32 t m env column val) (length column) = filter (\<lambda>i. column ! i = val) [0..<length column] \<and>
   indices (range_i32 t m env column lo hi) (length column)
     = filter (\<lambda>i. sint lo \<le> sint (column ! i) \<and> sint (column ! i) \<le> sint hi) [0..<length column] \<and>
   indices (in_i32 t m env column vals) (length column) = filter (\<lambda>i. column ! i \<in> set vals) [0..<length column] \<and>
   indices_page bitmap n skip most = take most (drop skip (indices bitmap n))"
  using page_is [of "[]" most n 0 bitmap skip] indices_are [of n 0 bitmap "[]"]
  by (simp add: filter_tiers eq_i32_scalar_def range_i32_scalar_def in_i32_scalar_def indices_bitmap
      indices_page_def indices_def [of bitmap])

end
