(* ===== verification/Simd_Lanes.thy ===== *)
theory Simd_Lanes
  imports Simd Bit_Masks
begin

unbundle bit_operations_syntax

text \<open>
  The 64-bit lanes of a vector: the instructions the integer reductions and the distances use on them, each the
  operation of the vendor's manual, and what each computes. A vector of \<open>u64\<close> is the list of its lanes; \<open>bytes_of\<close>
  is the same register read as bytes.
\<close>

section \<open>Lanes and bytes\<close>

definition bytes_of :: "u64 list \<Rightarrow> u8 list" where
  "bytes_of v = concat (map (\<lambda>q. map (qword_byte q) [0..<8]) v)"

fun u64s_of :: "u8 list \<Rightarrow> u64 list" where
  "u64s_of (a # b # c # d # e # f # g # h # v) = u64_of_bytes [a, b, c, d, e, f, g, h] # u64s_of v"
| "u64s_of v = []"

section \<open>Instructions\<close>

definition add_epi64 :: "u64 list \<Rightarrow> u64 list \<Rightarrow> u64 list" where
  "add_epi64 a b = map2 (+) a b"

definition xor_si :: "u64 list \<Rightarrow> u64 list \<Rightarrow> u64 list" where
  "xor_si a b = map2 (XOR) a b"

definition and_si :: "u64 list \<Rightarrow> u64 list \<Rightarrow> u64 list" where
  "and_si a b = map2 (AND) a b"

definition or_si :: "u64 list \<Rightarrow> u64 list \<Rightarrow> u64 list" where
  "or_si a b = map2 (OR) a b"

text \<open>PANDN complements its first operand, BIC its second.\<close>

definition andnot_si :: "u64 list \<Rightarrow> u64 list \<Rightarrow> u64 list" where
  "andnot_si a b = map2 (\<lambda>x y. NOT x AND y) a b"

definition vbicq_u64 :: "u64 list \<Rightarrow> u64 list \<Rightarrow> u64 list" where
  "vbicq_u64 a b = map2 (\<lambda>x y. x AND NOT y) a b"

text \<open>Signed compares, whose lanes are all ones or all zeros, and the signed choices of AVX-512.\<close>

definition cmpgt_epi64 :: "u64 list \<Rightarrow> u64 list \<Rightarrow> u64 list" where
  "cmpgt_epi64 a b = map2 (\<lambda>x y. if sint y < sint x then - 1 else 0) a b"

definition cmplt_s64 :: "u64 list \<Rightarrow> u64 list \<Rightarrow> u64 list" where
  "cmplt_s64 a b = map2 (\<lambda>x y. if sint x < sint y then - 1 else 0) a b"

definition max_epi64 :: "u64 list \<Rightarrow> u64 list \<Rightarrow> u64 list" where
  "max_epi64 a b = map2 (\<lambda>x y. if sint y < sint x then x else y) a b"

definition min_epi64 :: "u64 list \<Rightarrow> u64 list \<Rightarrow> u64 list" where
  "min_epi64 a b = map2 (\<lambda>x y. if sint x < sint y then x else y) a b"

text \<open>PBLENDVB takes a byte from \<open>b\<close> where the mask's byte has its top bit set; BSL does so bit by bit.\<close>

definition blendv_epi8 :: "u64 list \<Rightarrow> u64 list \<Rightarrow> u64 list \<Rightarrow> u64 list" where
  "blendv_epi8 a b m =
     u64s_of (map2 (\<lambda>(x, y) k. if bit k 7 then y else x) (zip (bytes_of a) (bytes_of b)) (bytes_of m))"

definition vbslq :: "u64 list \<Rightarrow> u64 list \<Rightarrow> u64 list \<Rightarrow> u64 list" where
  "vbslq m x y = map2 (\<lambda>k (x, y). (k AND x) OR (NOT k AND y)) m (zip x y)"

text \<open>PSRLD by 4: each four bytes are a little-endian \<open>u32\<close>.\<close>

fun srli_epi32_4 :: "u8 list \<Rightarrow> u8 list" where
  "srli_epi32_4 (a # b # c # d # v) =
     (let w = drop_bit 4 (ucast a OR push_bit 8 (ucast b) OR push_bit 16 (ucast c) OR push_bit 24 (ucast d) :: u32)
      in ucast w # ucast (drop_bit 8 w) # ucast (drop_bit 16 w) # ucast (drop_bit 24 w) # srli_epi32_4 v)"
| "srli_epi32_4 v = v"

definition add_epi8 :: "u8 list \<Rightarrow> u8 list \<Rightarrow> u8 list" where
  "add_epi8 a b = map2 (+) a b"

text \<open>PSADBW: the absolute differences of eight bytes, summed into their 64-bit lane.\<close>

definition abs_diff :: "'a :: len word \<Rightarrow> 'a word \<Rightarrow> 'a word" where
  "abs_diff x y = (if x < y then y - x else x - y)"

fun sad_epu8 :: "u8 list \<Rightarrow> u8 list \<Rightarrow> u64 list" where
  "sad_epu8 (a # b # c # d # e # f # g # h # v) (a' # b' # c' # d' # e' # f' # g' # h' # v') =
     sum_list (map2 (\<lambda>x y. ucast (abs_diff x y)) [a, b, c, d, e, f, g, h] [a', b', c', d', e', f', g', h'])
     # sad_epu8 v v'"
| "sad_epu8 v v' = []"

text \<open>VPOPCNTQ by lanes, CNT by bytes, and ADDLV, which widens what it adds to 16 bits.\<close>

definition popcnt_epi64 :: "u64 list \<Rightarrow> u64 list" where
  "popcnt_epi64 v = map (\<lambda>q. of_nat (count_ones q)) v"

definition byte_ones :: "u8 \<Rightarrow> nat" where
  "byte_ones b = length (filter (bit b) [0..<8])"

definition vcntq_u8 :: "u8 list \<Rightarrow> u8 list" where
  "vcntq_u8 v = map (\<lambda>b. of_nat (byte_ones b)) v"

definition vaddlvq_u8 :: "u8 list \<Rightarrow> u16" where
  "vaddlvq_u8 v = sum_list (map ucast v)"

section \<open>Bytes read back\<close>

lemma bytes_of_simps [simp]:
  "bytes_of [] = []" "bytes_of (q # v) = map (qword_byte q) [0..<8] @ bytes_of v"
  by (simp_all add: bytes_of_def)

lemma length_bytes_of [simp]: "length (bytes_of v) = 8 * length v"
  by (induction v) simp_all

lemma bit_qword_byte: "bit (qword_byte q k) j \<longleftrightarrow> j < 8 \<and> bit q (8 * k + j)"
  by (auto simp: qword_byte_def bit_ucast_iff bit_drop_bit_eq dest: bit_imp_le_length)

lemma u64_of_qword_bytes: "u64_of_bytes (map (qword_byte q) [0..<8]) = q"
proof (rule bit_word_eqI)
  fix n assume "n < LENGTH(64)"
  then have "n div 8 < 8" "n < 64"
    by simp_all
  then show "bit (u64_of_bytes (map (qword_byte q) [0..<8])) n \<longleftrightarrow> bit q n"
    by (simp add: bit_of_bytes bit_qword_byte del: upt_rec_numeral)
qed

lemma u64s_of_block: "length b = 8 \<Longrightarrow> u64s_of (b @ v) = u64_of_bytes b # u64s_of v"
  by (auto simp: length_Suc_conv eval_nat_numeral)

text \<open>A blend by a mask whose lanes are all ones or all zeros chooses whole lanes.\<close>

lemma blend_lanes:
  assumes "length a = length b" and "length m = length b" and "set m \<subseteq> {0, - 1}"
  shows "blendv_epi8 a b m = map2 (\<lambda>k (x, y). if k = - 1 then y else x) m (zip a b)"
  using assms
proof (induction a b arbitrary: m rule: list_induct2)
  case (Cons x a y b)
  then obtain k ks where m: "m = k # ks" "length ks = length b" "k = 0 \<or> k = - 1" "set ks \<subseteq> {0, - 1}"
    by (cases m) auto
  let ?pick = "map2 (\<lambda>(x, y) k. if bit k 7 then y else x)
    (zip (map (qword_byte x) [0..<8]) (map (qword_byte y) [0..<8])) (map (qword_byte k) [0..<8])"
  have "?pick = map (qword_byte (if k = - 1 then y else x)) [0..<8]"
    using m(3) by (intro nth_equalityI) (auto simp: bit_qword_byte simp del: upt_rec_numeral)
  then have "u64_of_bytes ?pick = (if k = - 1 then y else x)"
    by (simp only: u64_of_qword_bytes)
  then show ?case
    using Cons.IH [OF m(2,4)] by (simp add: m(1) blendv_epi8_def u64s_of_block del: upt_rec_numeral)
qed (simp add: blendv_epi8_def)

lemma vbslq_lanes:
  assumes "set m \<subseteq> {0, - 1}"
  shows "vbslq m x y = map2 (\<lambda>k (x, y). if k = - 1 then x else y) m (zip x y)"
  using assms by (fastforce simp: vbslq_def dest: set_zip_leftD)

section \<open>Counting bits\<close>

lemma upt_64: "[0..<64] = concat (map (\<lambda>k. map (\<lambda>j. 8 * k + j) [0..<8]) [0..<8])"
  by code_simp

lemma count_ones_bytes: "count_ones q = sum_list (map (\<lambda>k. byte_ones (qword_byte q k)) [0..<8])"
  unfolding count_ones_def upt_64 byte_ones_def filter_concat length_concat map_map
  by (intro arg_cong [where f = sum_list] map_cong)
    (auto simp: filter_map comp_def bit_qword_byte simp del: upt_rec_numeral intro!: arg_cong [where f = length] filter_cong)

lemma byte_ones_nibbles:
  "byte_ones b = length (filter (bit (unat (b AND 0x0F))) [0..<4]) + length (filter (bit (unat (drop_bit 4 b))) [0..<4])"
proof -
  have "[0..<8] = [0..<4] @ map (\<lambda>j. 4 + j) [0..<4]"
    by code_simp
  then have "byte_ones b = length (filter (bit b) [0..<4]) + length (filter (\<lambda>j. bit b (4 + j)) [0..<4])"
    by (simp only: byte_ones_def filter_append filter_map length_append length_map comp_def)
  moreover have "filter (bit b) [0..<4] = filter (bit (unat (b AND 0x0F))) [0..<4]"
    by (rule filter_cong) (simp_all only: bit_unsigned_iff bit_and_iff bit_0x0F set_upt, auto)
  moreover have "filter (\<lambda>j. bit b (4 + j)) [0..<4] = filter (bit (unat (drop_bit 4 b))) [0..<4]"
    by (rule filter_cong) (simp_all only: bit_unsigned_iff bit_drop_bit_eq set_upt, auto)
  ultimately show ?thesis
    by simp
qed

lemma byte_ones_le: "byte_ones b \<le> 8"
  using length_filter_le [of "bit b" "[0..<8]"] by (simp add: byte_ones_def)

lemma nibble_of_u32:
  assumes "\<And>j. j < 8 \<Longrightarrow> bit (w :: u32) (s + j) = bit b j"
  shows "ucast (drop_bit s (drop_bit 4 w)) AND 0x0F = drop_bit 4 (b :: u8)"
proof (rule bit_word_eqI)
  fix n assume n: "n < LENGTH(8)"
  have "bit (ucast (drop_bit s (drop_bit 4 w)) AND 0x0F :: u8) n \<longleftrightarrow> n < 4 \<and> bit w (s + (4 + n))"
    unfolding bit_and_iff bit_0x0F using n by (auto simp: bit_ucast_iff bit_drop_bit_eq ac_simps)
  also have "\<dots> \<longleftrightarrow> bit (drop_bit 4 b) n"
    using assms [of "4 + n"] bit_imp_le_length [of b "4 + n"] by (auto simp: bit_drop_bit_eq)
  finally show "bit (ucast (drop_bit s (drop_bit 4 w)) AND 0x0F :: u8) n \<longleftrightarrow> bit (drop_bit 4 b) n" .
qed

lemma srli32_masked: "length v mod 4 = 0 \<Longrightarrow> map (\<lambda>b. b AND 0x0F) (srli_epi32_4 v) = map (drop_bit 4) v"
proof (induction v rule: srli_epi32_4.induct)
  case (1 a b c d v)
  let ?w = "ucast a OR push_bit 8 (ucast b) OR push_bit 16 (ucast c) OR push_bit 24 (ucast d) :: u32"
  have past: "\<not> bit (x :: u8) n" if "8 \<le> n" for x n
    using that by (auto dest: bit_imp_le_length)
  have "ucast (drop_bit 0 (drop_bit 4 ?w)) AND 0x0F = drop_bit 4 a"
      "ucast (drop_bit 8 (drop_bit 4 ?w)) AND 0x0F = drop_bit 4 b"
      "ucast (drop_bit 16 (drop_bit 4 ?w)) AND 0x0F = drop_bit 4 c"
      "ucast (drop_bit 24 (drop_bit 4 ?w)) AND 0x0F = drop_bit 4 d"
    by (rule nibble_of_u32, simp add: bit_or_iff bit_ucast_iff bit_push_bit_iff past)+
  then show ?case
    using 1 by (simp only: srli_epi32_4.simps Let_def list.map drop_bit_0 id_apply) simp
qed (simp_all add: mod_Suc)

lemma length_srli32 [simp]: "length (srli_epi32_4 v) = length v"
  by (induction v rule: srli_epi32_4.induct) (simp_all add: Let_def)

lemma shuffle_high32:
  assumes "length t = 16" and "length v = 16 * n"
  shows "shuffle_epi8 (broadcast n t) (vec_and (srli_epi32_4 v) (set1_epi8 (16 * n) 0x0F))
    = map (\<lambda>b. t ! unat (drop_bit 4 b)) v"
proof -
  have "vec_and (srli_epi32_4 v) (set1_epi8 (16 * n) 0x0F) = map (drop_bit 4) v"
    using vec_and_low [of "srli_epi32_4 v"] srli32_masked [of v] assms(2) by simp
  then show ?thesis
    by (simp only:, subst shuffle_nibbles) (use assms in \<open>auto simp: high_nibble\<close>)
qed

text \<open>Summed against zero, the bit counts of a lane's bytes are the bit count of the lane.\<close>

lemma ucast_byte_ones: "ucast (of_nat (byte_ones b) :: u8) = (of_nat (byte_ones b) :: 'a :: len word)" if "3 < LENGTH('a)"
proof -
  have "byte_ones b < 2 ^ 4" "(2 :: nat) ^ 4 \<le> 2 ^ LENGTH('a)"
    using byte_ones_le [of b] that by (simp, intro power_increasing) auto
  then show ?thesis
    by (simp add: word_unat_eq_iff unsigned_ucast_eq unat_of_nat take_bit_nat_eq_self)
qed

lemma sad_counts:
  "sad_epu8 (map (\<lambda>b. of_nat (byte_ones b)) (bytes_of v)) (replicate (8 * length v) 0) = map (\<lambda>q. of_nat (count_ones q)) v"
proof (induction v)
  case (Cons q v)
  have "[0..<8] = [0, 1, 2, 3, 4, 5, 6, 7]"
    by code_simp
  moreover have "abs_diff (x :: u8) 0 = x" for x
    by (simp add: abs_diff_def)
  moreover have "replicate (8 * length (q # v)) (0 :: u8) = [0, 0, 0, 0, 0, 0, 0, 0] @ replicate (8 * length v) 0"
    by (simp add: replicate_add [symmetric] eval_nat_numeral)
  ultimately show ?case
    using Cons.IH by (simp add: count_ones_bytes ucast_byte_ones del: upt_rec_numeral)
qed simp

end
