(* ===== verification/Int_Reductions.thy ===== *)
theory Int_Reductions
  imports Simd_Lanes Cpu_Features
begin

unbundle bit_operations_syntax

text \<open>
  \<open>crates/pwrs/src/simd/ints.rs\<close>: sums, XORs, bit counts, minima and maxima of a slice of 64-bit integers, and the
  element-wise operations on two slices, with the body of each tier and the choice among them. An \<open>i64\<close> is a
  64-bit word read by \<open>sint\<close>. Addition wraps, as it does in the release build; the bit counts, which the code adds
  with the checked operator, stay below the length times 64 (\<open>Int_Laws\<close>).
\<close>

type_synonym i64 = "64 word"

section \<open>Scalar forms\<close>

definition sum_u64_scalar :: "u64 list \<Rightarrow> u64" where
  "sum_u64_scalar vs = foldl (+) 0 vs"

definition xor_u64_scalar :: "u64 list \<Rightarrow> u64" where
  "xor_u64_scalar vs = foldl (XOR) 0 vs"

definition count_ones_scalar :: "u64 list \<Rightarrow> u64" where
  "count_ones_scalar vs = sum_list (map (\<lambda>v. of_nat (count_ones v)) vs)"

definition i64_max :: "i64 \<Rightarrow> i64 \<Rightarrow> i64" where
  "i64_max a b = (if sint b < sint a then a else b)"

definition i64_min :: "i64 \<Rightarrow> i64 \<Rightarrow> i64" where
  "i64_min a b = (if sint b < sint a then b else a)"

definition I64_MIN :: i64 where "I64_MIN = push_bit 63 1"
definition I64_MAX :: i64 where "I64_MAX = NOT I64_MIN"

definition pick_scalar :: "i64 list \<Rightarrow> bool \<Rightarrow> i64" where
  "pick_scalar vs largest = (if largest then foldl i64_max I64_MIN vs else foldl i64_min I64_MAX vs)"

definition min_i64_scalar :: "i64 list \<Rightarrow> i64 option" where
  "min_i64_scalar vs = (if vs = [] then None else Some (pick_scalar vs False))"

definition max_i64_scalar :: "i64 list \<Rightarrow> i64 option" where
  "max_i64_scalar vs = (if vs = [] then None else Some (pick_scalar vs True))"

datatype op = And | Or | AndNot

primrec apply_op :: "op \<Rightarrow> u64 \<Rightarrow> u64 \<Rightarrow> u64" where
  "apply_op And x y = x AND y"
| "apply_op Or x y = x OR y"
| "apply_op AndNot x y = x AND NOT y"

definition bitwise_scalar :: "op \<Rightarrow> u64 list \<Rightarrow> u64 list \<Rightarrow> u64 list \<Rightarrow> u64 list" where
  "bitwise_scalar f a b out = map2 (apply_op f) (take (length out) a) b @ drop (min (length a) (length b)) out"

section \<open>The loops\<close>

text \<open>The loop of every reduction: while a block is left, it is loaded and added to the accumulator.\<close>

function lanes_loop :: "nat \<Rightarrow> ('s \<Rightarrow> 'a list \<Rightarrow> 's) \<Rightarrow> 'a list \<Rightarrow> nat \<Rightarrow> 's \<Rightarrow> nat \<times> 's" where
  "lanes_loop width step v i acc =
     (if 0 < width \<and> i + width \<le> length v
      then lanes_loop width step v (i + width) (step acc (load width i v))
      else (i, acc))"
  by pat_completeness auto

termination
  by (relation "measure (\<lambda>(width, step, v, i, acc). length v - i)") auto

declare lanes_loop.simps [simp del]

text \<open>The lanes stored to an array, chained with what no block held, and folded.\<close>

definition chained :: "(u64 \<Rightarrow> u64 \<Rightarrow> u64) \<Rightarrow> u64 \<Rightarrow> u64 list \<Rightarrow> nat \<times> u64 list \<Rightarrow> u64" where
  "chained f e v io = (case io of (i, lanes) \<Rightarrow> foldl f e (lanes @ drop i v))"

definition sum_lanes :: "nat \<Rightarrow> u64 list \<Rightarrow> u64" where
  "sum_lanes width v = chained (+) 0 v (lanes_loop width add_epi64 v 0 (replicate width 0))"

definition xor_lanes :: "nat \<Rightarrow> u64 list \<Rightarrow> u64" where
  "xor_lanes width v = chained (XOR) 0 v (lanes_loop width xor_si v 0 (replicate width 0))"

section \<open>Counting\<close>

definition NIBBLE_ONES :: "u8 list" where
  "NIBBLE_ONES = [0, 1, 1, 2, 1, 2, 2, 3, 1, 2, 2, 3, 2, 3, 3, 4]"

text \<open>A step of Mula's count, on a block of \<open>n\<close> times sixteen bytes, and of VPOPCNTQ.\<close>

definition nibble_counts :: "nat \<Rightarrow> u8 list \<Rightarrow> u8 list" where
  "nibble_counts n x =
     (let table = broadcast n NIBBLE_ONES; low = set1_epi8 (16 * n) 0x0F
      in add_epi8 (shuffle_epi8 table (vec_and x low)) (shuffle_epi8 table (vec_and (srli_epi32_4 x) low)))"

definition mula_step :: "nat \<Rightarrow> u64 list \<Rightarrow> u64 list \<Rightarrow> u64 list" where
  "mula_step n acc x = add_epi64 acc (sad_epu8 (nibble_counts n (bytes_of x)) (set1_epi8 (16 * n) 0))"

definition counted :: "u64 list \<Rightarrow> nat \<times> u64 list \<Rightarrow> u64" where
  "counted v io = (case io of (i, lanes) \<Rightarrow> sum_list lanes + count_ones_scalar (drop i v))"

definition ones_popcnt :: "u64 list \<Rightarrow> u64" where
  "ones_popcnt v = count_ones_scalar v"

definition ones_avx2 :: "u64 list \<Rightarrow> u64" where
  "ones_avx2 v = counted v (lanes_loop 4 (mula_step 2) v 0 (replicate 4 0))"

definition ones_avx512bw :: "u64 list \<Rightarrow> u64" where
  "ones_avx512bw v = counted v (lanes_loop 8 (mula_step 4) v 0 (replicate 8 0))"

definition ones_vpopcntq :: "u64 list \<Rightarrow> u64" where
  "ones_vpopcntq v = counted v (lanes_loop 8 (\<lambda>acc x. add_epi64 acc (popcnt_epi64 x)) v 0 (replicate 8 0))"

definition ones_neon :: "u64 list \<Rightarrow> u64" where
  "ones_neon v =
     (case lanes_loop 2 (\<lambda>n x. n + ucast (vaddlvq_u8 (vcntq_u8 (bytes_of x)))) v 0 0 of
        (i, n) \<Rightarrow> n + count_ones_scalar (drop i v))"

section \<open>Choosing\<close>

definition blend_step :: "bool \<Rightarrow> i64 list \<Rightarrow> i64 list \<Rightarrow> i64 list" where
  "blend_step largest best x =
     (let gt = cmpgt_epi64 x best in if largest then blendv_epi8 best x gt else blendv_epi8 x best gt)"

definition avx512_pick :: "bool \<Rightarrow> i64 list \<Rightarrow> i64 list \<Rightarrow> i64 list" where
  "avx512_pick largest best x = (if largest then max_epi64 best x else min_epi64 best x)"

definition neon_step :: "bool \<Rightarrow> i64 list \<Rightarrow> i64 list \<Rightarrow> i64 list" where
  "neon_step largest best x =
     (let m = (if largest then cmpgt_epi64 x best else cmplt_s64 x best) in vbslq m x best)"

definition folded :: "bool \<Rightarrow> i64 list \<Rightarrow> nat \<times> i64 list \<Rightarrow> i64" where
  "folded largest v io =
     (if largest then chained i64_max I64_MIN v io else chained i64_min I64_MAX v io)"

definition pick_lanes :: "nat \<Rightarrow> (i64 list \<Rightarrow> i64 list \<Rightarrow> i64 list) \<Rightarrow> i64 list \<Rightarrow> bool \<Rightarrow> i64" where
  "pick_lanes width step v largest = folded largest v (lanes_loop width step v 0 (replicate width (v ! 0)))"

definition pick_sse42 :: "i64 list \<Rightarrow> bool \<Rightarrow> i64" where
  "pick_sse42 v largest = pick_lanes 2 (blend_step largest) v largest"

definition pick_avx2 :: "i64 list \<Rightarrow> bool \<Rightarrow> i64" where
  "pick_avx2 v largest = pick_lanes 4 (blend_step largest) v largest"

definition pick_avx512 :: "i64 list \<Rightarrow> bool \<Rightarrow> i64" where
  "pick_avx512 v largest = pick_lanes 8 (avx512_pick largest) v largest"

definition pick_neon :: "i64 list \<Rightarrow> bool \<Rightarrow> i64" where
  "pick_neon v largest = pick_lanes 2 (neon_step largest) v largest"

section \<open>Two slices\<close>

primrec vec_op :: "op \<Rightarrow> u64 list \<Rightarrow> u64 list \<Rightarrow> u64 list" where
  "vec_op And x y = and_si x y"
| "vec_op Or x y = or_si x y"
| "vec_op AndNot x y = andnot_si y x"

primrec neon_op :: "op \<Rightarrow> u64 list \<Rightarrow> u64 list \<Rightarrow> u64 list" where
  "neon_op And x y = and_si x y"
| "neon_op Or x y = or_si x y"
| "neon_op AndNot x y = vbicq_u64 x y"

definition op_step :: "bool \<Rightarrow> op \<Rightarrow> u64 list \<Rightarrow> u64 list \<Rightarrow> u64 list" where
  "op_step neon g x y = (if neon then neon_op g x y else vec_op g x y)"

lemma length_op_step [simp]: "length (op_step neon g x y) = min (length x) (length y)"
  by (cases g) (simp_all add: op_step_def and_si_def or_si_def andnot_si_def vbicq_u64_def min.commute)

function pair_loop ::
  "bool \<Rightarrow> nat \<Rightarrow> op \<Rightarrow> u64 list \<Rightarrow> u64 list \<Rightarrow> nat \<Rightarrow> u64 list \<Rightarrow> nat \<times> u64 list"
where
  "pair_loop neon width g a b i out =
     (if 0 < width \<and> i + width \<le> length out
      then pair_loop neon width g a b (i + width)
             (store i (op_step neon g (load width i a) (load width i b)) out)
      else (i, out))"
  by pat_completeness auto

termination
  by (relation "measure (\<lambda>(neon, width, g, a, b, i, out). length out - i)") (auto simp: store_def load_def)

declare pair_loop.simps [simp del]

definition bitwise_lanes :: "bool \<Rightarrow> nat \<Rightarrow> op \<Rightarrow> u64 list \<Rightarrow> u64 list \<Rightarrow> u64 list \<Rightarrow> u64 list" where
  "bitwise_lanes neon width g a b out =
     (case pair_loop neon width g a b 0 out of
        (i, out) \<Rightarrow> take i out @ bitwise_scalar g (drop i a) (drop i b) (drop i out))"

section \<open>The choice\<close>

text \<open>What the match of each \<open>tiered\<close> module calls, by the architecture it is compiled for.\<close>

definition tiered_sum_u64 :: "target \<Rightarrow> machine \<Rightarrow> string option \<Rightarrow> u64 list \<Rightarrow> u64" where
  "tiered_sum_u64 t m env v =
     (case t_arch t of
        Arch_x86_64 \<Rightarrow> (case cpu_level t m env of V4 \<Rightarrow> sum_lanes 8 v | V3 \<Rightarrow> sum_lanes 4 v | _ \<Rightarrow> sum_lanes 2 v)
      | Arch_aarch64 \<Rightarrow> sum_lanes 2 v
      | Arch_other \<Rightarrow> sum_u64_scalar v)"

definition tiered_xor_u64 :: "target \<Rightarrow> machine \<Rightarrow> string option \<Rightarrow> u64 list \<Rightarrow> u64" where
  "tiered_xor_u64 t m env v =
     (case t_arch t of
        Arch_x86_64 \<Rightarrow> (case cpu_level t m env of V4 \<Rightarrow> xor_lanes 8 v | V3 \<Rightarrow> xor_lanes 4 v | _ \<Rightarrow> xor_lanes 2 v)
      | Arch_aarch64 \<Rightarrow> xor_lanes 2 v
      | Arch_other \<Rightarrow> xor_u64_scalar v)"

definition tiered_count_ones :: "target \<Rightarrow> machine \<Rightarrow> string option \<Rightarrow> u64 list \<Rightarrow> u64" where
  "tiered_count_ones t m env v =
     (case t_arch t of
        Arch_x86_64 \<Rightarrow>
          (case cpu_level t m env of
             V4 \<Rightarrow> if has t m env Avx512vpopcntdq then ones_vpopcntq v else ones_avx512bw v
           | V3 \<Rightarrow> ones_avx2 v
           | V2 \<Rightarrow> ones_popcnt v
           | _ \<Rightarrow> count_ones_scalar v)
      | Arch_aarch64 \<Rightarrow> ones_neon v
      | Arch_other \<Rightarrow> count_ones_scalar v)"

definition tiered_pick :: "target \<Rightarrow> machine \<Rightarrow> string option \<Rightarrow> i64 list \<Rightarrow> bool \<Rightarrow> i64 option" where
  "tiered_pick t m env v largest =
     (case t_arch t of
        Arch_x86_64 \<Rightarrow>
          if v = [] then None
          else (case cpu_level t m env of
             V4 \<Rightarrow> Some (pick_avx512 v largest)
           | V3 \<Rightarrow> Some (pick_avx2 v largest)
           | V2 \<Rightarrow> Some (pick_sse42 v largest)
           | _ \<Rightarrow> if largest then max_i64_scalar v else min_i64_scalar v)
      | Arch_aarch64 \<Rightarrow> if v = [] then None else Some (pick_neon v largest)
      | Arch_other \<Rightarrow> if largest then max_i64_scalar v else min_i64_scalar v)"

definition tiered_bitwise ::
  "target \<Rightarrow> machine \<Rightarrow> string option \<Rightarrow> op \<Rightarrow> u64 list \<Rightarrow> u64 list \<Rightarrow> u64 list \<Rightarrow> u64 list"
where
  "tiered_bitwise t m env g a b out =
     (case t_arch t of
        Arch_x86_64 \<Rightarrow>
          (case cpu_level t m env of
             V4 \<Rightarrow> bitwise_lanes False 8 g a b out
           | V3 \<Rightarrow> bitwise_lanes False 4 g a b out
           | _ \<Rightarrow> bitwise_lanes False 2 g a b out)
      | Arch_aarch64 \<Rightarrow> bitwise_lanes True 2 g a b out
      | Arch_other \<Rightarrow> bitwise_scalar g a b out)"

section \<open>The public functions\<close>

definition sum_u64 :: "target \<Rightarrow> machine \<Rightarrow> string option \<Rightarrow> u64 list \<Rightarrow> u64" where
  "sum_u64 = tiered_sum_u64"

definition xor_u64 :: "target \<Rightarrow> machine \<Rightarrow> string option \<Rightarrow> u64 list \<Rightarrow> u64" where
  "xor_u64 = tiered_xor_u64"

definition total_ones :: "target \<Rightarrow> machine \<Rightarrow> string option \<Rightarrow> u64 list \<Rightarrow> u64" where
  "total_ones = tiered_count_ones"

definition min_i64 :: "target \<Rightarrow> machine \<Rightarrow> string option \<Rightarrow> i64 list \<Rightarrow> i64 option" where
  "min_i64 t m env vs = tiered_pick t m env vs False"

definition max_i64 :: "target \<Rightarrow> machine \<Rightarrow> string option \<Rightarrow> i64 list \<Rightarrow> i64 option" where
  "max_i64 t m env vs = tiered_pick t m env vs True"

text \<open>\<open>and_u64\<close>, \<open>or_u64\<close> and \<open>and_not_u64\<close>, which differ only in the operation they name.\<close>

definition op_u64 :: "op \<Rightarrow> target \<Rightarrow> machine \<Rightarrow> string option \<Rightarrow> u64 list \<Rightarrow> u64 list \<Rightarrow> u64 list \<Rightarrow> u64 list" where
  "op_u64 g t m env a b out =
     (let n = min (min (length a) (length b)) (length out)
      in tiered_bitwise t m env g (take n a) (take n b) (take n out) @ drop n out)"

end
