(* ===== verification/Int_Laws.thy ===== *)
theory Int_Laws
  imports Int_Reductions
begin

unbundle bit_operations_syntax

text \<open>
  Every tier of \<open>simd/ints.rs\<close> gives what its scalar form gives: an interface for the loop that folds blocks into an
  accumulator, one for the operations whose lanes may be folded in any order, and the loop over two slices.
\<close>

section \<open>Folding blocks\<close>

text \<open>
  What a step has to promise: the total its accumulator stands for grows by the elements of the block it takes.
\<close>

locale block_fold =
  fixes width :: nat and step :: "'s \<Rightarrow> 'a list \<Rightarrow> 's" and ok :: "'s \<Rightarrow> bool"
    and worth :: "'s \<Rightarrow> 'r" and f :: "'r \<Rightarrow> 'a \<Rightarrow> 'r"
  assumes width_pos: "0 < width"
    and step_ok: "ok acc \<Longrightarrow> length x = width \<Longrightarrow> ok (step acc x)"
    and step_worth: "ok acc \<Longrightarrow> length x = width \<Longrightarrow> worth (step acc x) = foldl f (worth acc) x"
begin

lemma loop_worth:
  assumes "ok acc" and "lanes_loop width step v i acc = (j, acc')"
  shows "ok acc' \<and> foldl f (worth acc') (drop j v) = foldl f (worth acc) (drop i v)"
  using assms
proof (induction "length v - i" arbitrary: i acc rule: less_induct)
  case less
  show ?case
  proof (cases "i + width \<le> length v")
    case True
    let ?x = "load width i v"
    have x: "length ?x = width" "drop i v = ?x @ drop (i + width) v"
      using True by (simp_all add: load_rest) (simp add: load_def)
    have "lanes_loop width step v (i + width) (step acc ?x) = (j, acc')"
      using less.prems(2) True width_pos by (subst (asm) lanes_loop.simps) simp
    then show ?thesis
      using less.hyps [of "i + width" "step acc ?x"] True width_pos less.prems(1) x
      by (simp add: step_ok step_worth)
  next
    case False
    then show ?thesis
      using less.prems by (subst (asm) lanes_loop.simps) simp
  qed
qed

end

section \<open>Operations whose lanes fold in any order\<close>

locale any_order =
  fixes f :: "'a \<Rightarrow> 'a \<Rightarrow> 'a" and e :: 'a
  assumes assoc: "f (f a b) c = f a (f b c)"
    and commute: "f a b = f b a"
    and unit: "f e a = a"
begin

lemma fold_out: "foldl f a xs = f a (foldl f e xs)"
proof (induction xs arbitrary: a)
  case (Cons x xs)
  show ?case
    using Cons.IH [of "f a x"] Cons.IH [of "f e x"] by (simp add: assoc unit)
qed (use commute unit in simp)

lemma fold_lanes: "length a = length b \<Longrightarrow> foldl f e (map2 f a b) = foldl f (foldl f e a) b"
proof (induction a b rule: list_induct2)
  case (Cons x xs y ys)
  have "foldl f e (map2 f (x # xs) (y # ys)) = f (f x y) (f (foldl f e xs) (foldl f e ys))"
    using Cons.IH fold_out [of "f x y" "map2 f xs ys"] fold_out [of "foldl f e xs" ys] by (simp add: unit)
  also have "\<dots> = f (f x (foldl f e xs)) (f y (foldl f e ys))"
    by (metis assoc commute)
  also have "\<dots> = foldl f (foldl f e (x # xs)) (y # ys)"
    using fold_out [of x xs] fold_out [of "f (f x (foldl f e xs)) y" ys] by (simp add: unit assoc)
  finally show ?case .
qed simp

end

text \<open>A register operation that is such an operation on each lane.\<close>

locale lane_reduction = any_order f e for f :: "u64 \<Rightarrow> u64 \<Rightarrow> u64" and e :: u64 +
  fixes width :: nat and step :: "u64 list \<Rightarrow> u64 list \<Rightarrow> u64 list"
  assumes positive: "0 < width"
    and by_lane: "length a = width \<Longrightarrow> length x = width \<Longrightarrow> step a x = map2 f a x"

sublocale lane_reduction \<subseteq> block_fold width step "\<lambda>a. length a = width" "foldl f e" f
  by unfold_locales (simp_all add: positive by_lane fold_lanes)

context lane_reduction
begin

lemma chained_is_fold:
  assumes "length start = width"
  shows "chained f e v (lanes_loop width step v 0 start) = foldl f (foldl f e start) v"
  using loop_worth [OF assms, of v 0] by (auto simp: chained_def split: prod.split)

end

text \<open>An accumulator that starts with an element in every lane adds nothing, where the operation chooses.\<close>

locale lane_choice = lane_reduction +
  assumes idem: "f a a = a"
begin

lemma fold_same: "foldl f e (replicate (Suc n) x) = x"
proof (induction n)
  case (Suc n)
  then show ?case
    unfolding replicate_Suc [of "Suc n"] replicate_append_same [symmetric] by (simp add: idem)
qed (simp add: unit)

lemma chosen_from:
  assumes "0 < length v" and "width = Suc n"
  shows "chained f e v (lanes_loop width step v 0 (replicate width (v ! 0))) = foldl f e v"
proof -
  have "foldl f (v ! 0) v = foldl f e v"
    using assms(1) by (cases v) (simp_all add: idem unit)
  then show ?thesis
    by (subst chained_is_fold) (simp_all only: length_replicate assms(2) fold_same)
qed

end

section \<open>The operations\<close>

interpretation add: lane_reduction "(+)" 0 "Suc n" add_epi64 for n
  by unfold_locales (simp_all add: add_epi64_def)

interpretation xor: lane_reduction "(XOR)" 0 "Suc n" xor_si for n
  by unfold_locales (simp_all add: xor_si_def ac_simps)

lemma i64_least: "sint I64_MIN \<le> sint (x :: i64)" "sint x \<le> sint I64_MAX"
proof -
  have "sint I64_MIN = - (2 ^ 63)" "sint I64_MAX = 2 ^ 63 - 1"
    by (simp_all add: I64_MIN_def I64_MAX_def)
  moreover have "- (2 ^ 63) \<le> sint x" "sint x < 2 ^ 63"
    using sint_ge [of x] sint_lt [of x] by simp_all
  ultimately show "sint I64_MIN \<le> sint x" "sint x \<le> sint I64_MAX"
    by simp_all
qed

lemma i64_eqI: "\<not> sint x < sint y \<Longrightarrow> \<not> sint y < sint x \<Longrightarrow> x = (y :: i64)"
  by (simp add: signed_word_eqI)

interpretation biggest: any_order i64_max I64_MIN
  using i64_least(1) by unfold_locales (auto simp: i64_max_def intro: i64_eqI dest: leD)

interpretation smallest: any_order i64_min I64_MAX
  using i64_least(2) by unfold_locales (auto simp: i64_min_def intro: i64_eqI dest: leD)

text \<open>What each choosing step does to a lane, whatever blend it is written with.\<close>

lemma masks_subset:
  "set (map2 (\<lambda>x y. if P x y then - 1 else 0) a b) \<subseteq> {0, - 1 :: u64}"
  by (auto split: if_splits)

lemma choosing_steps:
  assumes "length best = length x"
  shows "blend_step True best x = map2 i64_max best x" "blend_step False best x = map2 i64_min best x"
    "avx512_pick True best x = map2 i64_max best x" "avx512_pick False best x = map2 i64_min best x"
    "neon_step True best x = map2 i64_max best x" "neon_step False best x = map2 i64_min best x"
  using assms
  by (intro nth_equalityI; auto simp: blend_step_def avx512_pick_def neon_step_def max_epi64_def min_epi64_def
      cmpgt_epi64_def cmplt_s64_def blend_lanes [OF _ _ masks_subset] vbslq_lanes [OF masks_subset]
      i64_max_def i64_min_def intro: i64_eqI)+

interpretation blend_max: lane_choice i64_max I64_MIN "Suc n" "blend_step True" for n
  by unfold_locales (simp_all add: choosing_steps i64_max_def i64_min_def)

interpretation blend_min: lane_choice i64_min I64_MAX "Suc n" "blend_step False" for n
  by unfold_locales (simp_all add: choosing_steps i64_max_def i64_min_def)

interpretation wide_max: lane_choice i64_max I64_MIN "Suc n" "avx512_pick True" for n
  by unfold_locales (simp_all add: choosing_steps i64_max_def i64_min_def)

interpretation wide_min: lane_choice i64_min I64_MAX "Suc n" "avx512_pick False" for n
  by unfold_locales (simp_all add: choosing_steps i64_max_def i64_min_def)

interpretation bsl_max: lane_choice i64_max I64_MIN "Suc n" "neon_step True" for n
  by unfold_locales (simp_all add: choosing_steps i64_max_def i64_min_def)

interpretation bsl_min: lane_choice i64_min I64_MAX "Suc n" "neon_step False" for n
  by unfold_locales (simp_all add: choosing_steps i64_max_def i64_min_def)

section \<open>Every body\<close>

lemma fold_replicate_unit: "foldl (+) 0 (replicate n (0 :: u64)) = 0" "foldl (XOR) 0 (replicate n (0 :: u64)) = 0"
  by (induction n) simp_all

lemma sums_are_scalar: "sum_lanes (Suc n) v = sum_u64_scalar v" "xor_lanes (Suc n) v = xor_u64_scalar v"
  by (simp_all only: sum_lanes_def xor_lanes_def sum_u64_scalar_def xor_u64_scalar_def length_replicate
      add.chained_is_fold xor.chained_is_fold fold_replicate_unit)

lemma picks_are_scalar:
  assumes "0 < length v"
  shows "pick_lanes (Suc n) (blend_step largest) v largest = pick_scalar v largest"
    "pick_lanes (Suc n) (avx512_pick largest) v largest = pick_scalar v largest"
    "pick_lanes (Suc n) (neon_step largest) v largest = pick_scalar v largest"
  using assms by (cases largest; simp add: pick_lanes_def folded_def pick_scalar_def blend_max.chosen_from blend_min.chosen_from
      wide_max.chosen_from wide_min.chosen_from bsl_max.chosen_from bsl_min.chosen_from del: replicate_Suc)+

text \<open>Counts: a step adds each lane's bit count to its lane.\<close>

lemma sum_list_add_epi64:
  "length a = length b \<Longrightarrow> sum_list (add_epi64 a b) = sum_list a + (sum_list b :: u64)"
  by (induction a b rule: list_induct2) (simp_all add: add_epi64_def ac_simps)

lemma fold_counts: "foldl (\<lambda>n q. n + of_nat (count_ones q)) m v = m + (count_ones_scalar v :: u64)"
  by (induction v arbitrary: m) (simp_all add: count_ones_scalar_def)

locale lane_count =
  fixes width :: nat and step :: "u64 list \<Rightarrow> u64 list \<Rightarrow> u64 list"
  assumes positive: "0 < width"
    and by_lane: "length a = width \<Longrightarrow> length x = width \<Longrightarrow> step a x = add_epi64 a (popcnt_epi64 x)"

sublocale lane_count \<subseteq> block_fold width step "\<lambda>a. length a = width" sum_list "\<lambda>n q. n + of_nat (count_ones q)"
  by unfold_locales
    (simp_all add: positive by_lane sum_list_add_epi64 popcnt_epi64_def fold_counts count_ones_scalar_def, simp add: add_epi64_def)

context lane_count
begin

lemma counted_is_scalar: "counted v (lanes_loop width step v 0 (replicate width 0)) = count_ones_scalar v"
  using loop_worth [of "replicate width 0" v 0]
  by (auto simp: counted_def fold_counts sum_list_replicate split: prod.split)

end

lemma nibble_counts_map:
  assumes "length v = 16 * n"
  shows "nibble_counts n v = map (\<lambda>b. of_nat (byte_ones b)) v"
proof -
  have table: "NIBBLE_ONES ! k = of_nat (length (filter (bit k) [0..<4]))" if "k < 16" for k
  proof -
    have "list_all (\<lambda>k. NIBBLE_ONES ! k = of_nat (length (filter (bit k) [0..<4]))) [0..<16]"
      by code_simp
    then show ?thesis
      using that by (simp add: list_all_iff del: upt_rec_numeral)
  qed
  have "length NIBBLE_ONES = 16"
    by (simp add: NIBBLE_ONES_def)
  then show ?thesis
    unfolding nibble_counts_def Let_def shuffle_low [OF \<open>length NIBBLE_ONES = 16\<close> assms]
      shuffle_high32 [OF \<open>length NIBBLE_ONES = 16\<close> assms]
    by (simp add: add_epi8_def map2_map_map table nibble_less high_nibble_less byte_ones_nibbles)
qed

interpretation mula: lane_count "2 * Suc n" "mula_step (Suc n)" for n
proof
  fix a x :: "u64 list" assume "length a = 2 * Suc n" "length x = 2 * Suc n"
  then show "mula_step (Suc n) a x = add_epi64 a (popcnt_epi64 x)"
    using nibble_counts_map [of "bytes_of x" "Suc n"] sad_counts [of x]
    by (simp add: mula_step_def popcnt_epi64_def set1_epi8_def)
qed simp

interpretation vpopcnt: lane_count "Suc n" "\<lambda>acc x. add_epi64 acc (popcnt_epi64 x)" for n
  by unfold_locales simp_all

lemma count_ones_le: "count_ones q \<le> 64"
  using length_filter_le [of "bit q" "[0..<64]"] by (simp add: count_ones_def)

lemma cnt_step:
  assumes "length x = 2"
  shows "ucast (vaddlvq_u8 (vcntq_u8 (bytes_of x))) = count_ones_scalar x"
proof -
  obtain q r where x: "x = [q, r]"
    using assms by (auto simp: length_Suc_conv eval_nat_numeral)
  have "[0..<8] = [0, 1, 2, 3, 4, 5, 6, 7]"
    by code_simp
  then have "vaddlvq_u8 (vcntq_u8 (bytes_of x)) = of_nat (count_ones q + count_ones r)"
    by (simp add: x vaddlvq_u8_def vcntq_u8_def ucast_byte_ones count_ones_bytes)
  moreover have "count_ones q + count_ones r < 2 ^ 16"
    using count_ones_le [of q] count_ones_le [of r] by simp
  ultimately have "ucast (vaddlvq_u8 (vcntq_u8 (bytes_of x))) = (of_nat (count_ones q + count_ones r) :: u64)"
    by (simp add: word_unat_eq_iff unsigned_ucast_eq unat_of_nat take_bit_nat_eq_self del: of_nat_add)
  then show ?thesis
    by (simp add: x count_ones_scalar_def)
qed

interpretation cnt: block_fold 2 "\<lambda>(n :: u64) x. n + ucast (vaddlvq_u8 (vcntq_u8 (bytes_of x)))" "\<lambda>_. True" id
  "\<lambda>n q. n + of_nat (count_ones q)"
  by unfold_locales (simp_all add: cnt_step fold_counts)

lemma counts_are_scalar:
  "ones_avx2 v = count_ones_scalar v" "ones_avx512bw v = count_ones_scalar v"
  "ones_vpopcntq v = count_ones_scalar v" "ones_neon v = count_ones_scalar v"
  using mula.counted_is_scalar [where n = 1 and v = v] mula.counted_is_scalar [where n = 3 and v = v]
    vpopcnt.counted_is_scalar [where n = 7 and v = v] cnt.loop_worth [where acc = 0 and v = v and i = 0]
  by (auto simp: ones_avx2_def ones_avx512bw_def ones_vpopcntq_def ones_neon_def fold_counts eval_nat_numeral
      simp del: replicate_Suc split: prod.split)

section \<open>Two slices\<close>

lemma op_step_map: "op_step neon g x y = map2 (apply_op g) x y"
  by (cases g; rule nth_equalityI)
    (auto simp: op_step_def and_si_def or_si_def andnot_si_def vbicq_u64_def and.commute)

lemma bitwise_same_length:
  "length a = length out \<Longrightarrow> length b = length out \<Longrightarrow> bitwise_scalar g a b out = map2 (apply_op g) a b"
  by (simp add: bitwise_scalar_def)

lemma pair_loop_from:
  assumes "length a = length out" and "length b = length out" and "i \<le> length out"
    and "pair_loop neon (Suc n) g a b i out = (j, out')"
  shows "take j out' @ bitwise_scalar g (drop j a) (drop j b) (drop j out')
    = take i out @ map2 (apply_op g) (drop i a) (drop i b)"
  using assms
proof (induction "length out - i" arbitrary: i out rule: less_induct)
  case less
  show ?case
  proof (cases "i + Suc n \<le> length out")
    case True
    let ?w = "Suc n"
    let ?r = "op_step neon g (load ?w i a) (load ?w i b)"
    let ?out = "store i ?r out"
    have r: "length ?r = ?w"
      using True less.prems by (simp add: load_def)
    have out: "length ?out = length out" "take (i + ?w) ?out = take i out @ ?r"
      using True r less.prems by (simp_all add: store_def)
    have "pair_loop neon ?w g a b (i + ?w) ?out = (j, out')"
      using less.prems(4) True by (subst (asm) pair_loop.simps) simp
    then have "take j out' @ bitwise_scalar g (drop j a) (drop j b) (drop j out')
        = take i out @ ?r @ map2 (apply_op g) (drop (i + ?w) a) (drop (i + ?w) b)"
      using less.hyps [of ?out "i + ?w"] True out less.prems by simp
    moreover have "?r @ map2 (apply_op g) (drop (i + ?w) a) (drop (i + ?w) b) = map2 (apply_op g) (drop i a) (drop i b)"
      using True less.prems zip_append [of "load ?w i a" "load ?w i b" "drop (i + ?w) a" "drop (i + ?w) b"]
      by (simp only: op_step_map load_rest flip: map_append) (simp add: load_def op_step_map load_rest)
    ultimately show ?thesis
      by simp
  next
    case False
    then show ?thesis
      using less.prems by (subst (asm) pair_loop.simps) (simp add: bitwise_same_length)
  qed
qed

lemma bitwise_are_scalar:
  assumes "length a = length out" and "length b = length out"
  shows "bitwise_lanes neon (Suc n) g a b out = bitwise_scalar g a b out"
  using pair_loop_from [OF assms, of 0 neon n g] assms
  by (auto simp: bitwise_lanes_def bitwise_same_length split: prod.split)

section \<open>Every tier\<close>

lemma bitwise_scalar_nth:
  "bitwise_scalar g a b out
   = map (\<lambda>k. if k < length a \<and> k < length b then apply_op g (a ! k) (b ! k) else out ! k) [0..<length out]"
  by (rule nth_equalityI) (auto simp: bitwise_scalar_def nth_append min_def)

lemma bitwise_scalar_take:
  "n = min (min (length a) (length b)) (length out) \<Longrightarrow>
   bitwise_scalar g (take n a) (take n b) (take n out) @ drop n out = bitwise_scalar g a b out"
  by (rule nth_equalityI) (auto simp: bitwise_scalar_nth nth_append)

lemma tiered_bitwise_scalar:
  "length a = length out \<Longrightarrow> length b = length out \<Longrightarrow> tiered_bitwise t m env g a b out = bitwise_scalar g a b out"
  using bitwise_are_scalar [of a out b False 7 g] bitwise_are_scalar [of a out b False 3 g]
    bitwise_are_scalar [of a out b False 1 g] bitwise_are_scalar [of a out b True 1 g]
  by (simp add: tiered_bitwise_def eval_nat_numeral split: arch.split level.split)

lemma tiered_pick_scalar:
  "tiered_pick t m env v largest = (if largest then max_i64_scalar v else min_i64_scalar v)"
  using picks_are_scalar [of v 7 largest] picks_are_scalar [of v 3 largest] picks_are_scalar [of v 1 largest]
  by (auto simp: tiered_pick_def pick_avx512_def pick_avx2_def pick_sse42_def pick_neon_def max_i64_scalar_def
      min_i64_scalar_def eval_nat_numeral split: arch.split level.split)

lemma tiered_folds_scalar:
  "tiered_sum_u64 t m env v = sum_u64_scalar v" "tiered_xor_u64 t m env v = xor_u64_scalar v"
  "tiered_count_ones t m env v = count_ones_scalar v"
  using sums_are_scalar [of 7 v] sums_are_scalar [of 3 v] sums_are_scalar [of 1 v]
  by (simp_all add: tiered_sum_u64_def tiered_xor_u64_def tiered_count_ones_def counts_are_scalar ones_popcnt_def
      eval_nat_numeral split: arch.split level.split)

lemma op_is_scalar: "op_u64 g t m env a b out = bitwise_scalar g a b out"
  by (simp add: op_u64_def Let_def tiered_bitwise_scalar bitwise_scalar_take)

lemmas public_defs = sum_u64_def xor_u64_def total_ones_def min_i64_def max_i64_def op_is_scalar

text \<open>
  C33: on every target, machine and \<open>PWRS_CPU_MAX\<close>, each reduction and each element-wise operation gives what its
  scalar form gives, for slices of any lengths.
\<close>

theorem ints_are_scalar:
  "sum_u64 t m env vs = sum_u64_scalar vs \<and> xor_u64 t m env vs = xor_u64_scalar vs
   \<and> total_ones t m env vs = count_ones_scalar vs
   \<and> min_i64 t m env ws = min_i64_scalar ws \<and> max_i64 t m env ws = max_i64_scalar ws
   \<and> op_u64 g t m env a b out = bitwise_scalar g a b out"
  by (simp add: public_defs tiered_folds_scalar tiered_pick_scalar)

section \<open>What they compute\<close>

lemma sum_scalar_int: "sum_u64_scalar vs = of_int (sum_list (map uint vs))"
proof -
  have "foldl (+) a vs = a + of_int (sum_list (map uint vs))" for a :: u64
    by (induction vs arbitrary: a) (simp_all add: ac_simps)
  then show ?thesis
    by (simp add: sum_u64_scalar_def)
qed

lemma xor_scalar_bit: "bit (xor_u64_scalar vs) k \<longleftrightarrow> odd (length (filter (\<lambda>v. bit v k) vs))"
proof -
  have "bit (foldl (XOR) a vs) k \<longleftrightarrow> bit a k \<noteq> odd (length (filter (\<lambda>v. bit v k) vs))" for a :: u64
    by (induction vs arbitrary: a) (auto simp: bit_xor_iff)
  then show ?thesis
    by (simp add: xor_u64_scalar_def)
qed

lemma count_scalar_nat: "count_ones_scalar vs = of_nat (sum_list (map count_ones vs))"
  by (induction vs) (simp_all add: count_ones_scalar_def)

lemma fold_i64:
  "sint (foldl i64_max a vs) = foldl max (sint a) (map sint vs)"
  "sint (foldl i64_min a vs) = foldl min (sint a) (map sint vs)"
  by (induction vs arbitrary: a) (simp_all add: i64_max_def i64_min_def max_def min_def)

lemma foldl_extreme:
  "foldl max (a :: int) xs = Max (set (a # xs))" "foldl min a xs = Min (set (a # xs))"
proof -
  have "foldl max a xs = fold max xs a" "foldl min a xs = fold min xs a"
    by (induction xs arbitrary: a) (simp_all add: max.commute min.commute)
  then show "foldl max a xs = Max (set (a # xs))" "foldl min a xs = Min (set (a # xs))"
    by (simp_all only: Max.set_eq_fold Min.set_eq_fold)
qed

lemma pick_extreme:
  assumes "0 < length vs"
  shows "sint (pick_scalar vs True) = Max (sint ` set vs)" "sint (pick_scalar vs False) = Min (sint ` set vs)"
proof -
  obtain v ws where vs: "vs = v # ws"
    using assms by (cases vs) auto
  have "i64_max I64_MIN v = v" "i64_min I64_MAX v = v"
    by (rule biggest.unit, rule smallest.unit)
  then have "sint (pick_scalar vs True) = foldl max (sint v) (map sint ws)"
      "sint (pick_scalar vs False) = foldl min (sint v) (map sint ws)"
    by (simp_all add: pick_scalar_def vs fold_i64)
  then show "sint (pick_scalar vs True) = Max (sint ` set vs)" "sint (pick_scalar vs False) = Min (sint ` set vs)"
    by (simp_all only: foldl_extreme vs list.set_map list.set image_insert)
qed

text \<open>
  C34: the sum is the integers' sum wrapped to 64 bits, a bit of the XOR is set where an odd number of the values set
  it, the count is the bits set across the values, the minimum and the maximum are those of the signed values, absent
  only for no values, and an element-wise operation rewrites exactly the positions all three slices have.
\<close>

theorem ints_compute:
  "sum_u64 t m env vs = of_int (sum_list (map uint vs))
   \<and> bit (xor_u64 t m env vs) k = odd (length (filter (\<lambda>v. bit v k) vs))
   \<and> total_ones t m env vs = of_nat (sum_list (map count_ones vs))
   \<and> map_option sint (min_i64 t m env vs) = (if vs = [] then None else Some (Min (sint ` set vs)))
   \<and> map_option sint (max_i64 t m env vs) = (if vs = [] then None else Some (Max (sint ` set vs)))
   \<and> op_u64 g t m env a b out
     = map (\<lambda>j. if j < length a \<and> j < length b then apply_op g (a ! j) (b ! j) else out ! j) [0..<length out]"
proof -
  have "map_option sint (min_i64_scalar vs) = (if vs = [] then None else Some (Min (sint ` set vs)))"
      "map_option sint (max_i64_scalar vs) = (if vs = [] then None else Some (Max (sint ` set vs)))"
    by (simp_all add: min_i64_scalar_def max_i64_scalar_def pick_extreme)
  then show ?thesis
    by (simp add: public_defs tiered_folds_scalar tiered_pick_scalar bitwise_scalar_nth sum_scalar_int xor_scalar_bit count_scalar_nat)
qed

end
