(* ===== verification/Distance.thy ===== *)
theory Distance
  imports Int_Laws
begin

unbundle bit_operations_syntax

text \<open>
  \<open>crates/pwrs/src/simd/distance.rs\<close>: the L1 distance of two slices of bytes or of \<open>u32\<close>, over the shorter of the
  two, with the body of each tier and the choice among them.
\<close>

section \<open>Scalar forms\<close>

definition l1_scalar :: "'a :: len word list \<Rightarrow> 'a word list \<Rightarrow> u64" where
  "l1_scalar a b = foldl (\<lambda>n (x, y). n + ucast (abs_diff x y)) 0 (zip a b)"

section \<open>Instructions\<close>

definition sub_epi32 :: "u32 list \<Rightarrow> u32 list \<Rightarrow> u32 list" where
  "sub_epi32 a b = map2 (-) a b"

definition xor_epi32 :: "u32 list \<Rightarrow> u32 list \<Rightarrow> u32 list" where
  "xor_epi32 a b = map2 (XOR) a b"

definition cmpgt_i32 :: "u32 list \<Rightarrow> u32 list \<Rightarrow> u32 list" where
  "cmpgt_i32 a b = map2 (\<lambda>x y. if sint y < sint x then - 1 else 0) a b"

definition max_epu32 :: "u32 list \<Rightarrow> u32 list \<Rightarrow> u32 list" where
  "max_epu32 a b = map2 max a b"

definition min_epu32 :: "u32 list \<Rightarrow> u32 list \<Rightarrow> u32 list" where
  "min_epu32 a b = map2 min a b"

text \<open>
  PUNPCKLDQ and PUNPCKHDQ against zero: the two lower, or the two upper, of four \<open>u32\<close>, each with zero above it.
\<close>

definition unpack_lo_zero :: "u32 list \<Rightarrow> u64 list" where
  "unpack_lo_zero d = map ucast (take 2 d)"

definition unpack_hi_zero :: "u32 list \<Rightarrow> u64 list" where
  "unpack_hi_zero d = map ucast (drop 2 d)"

definition cvtepu32_epi64 :: "u32 list \<Rightarrow> u64 list" where
  "cvtepu32_epi64 d = map ucast d"

text \<open>UABD, and the pairwise adds UADALP and UADDLP, which widen what they add.\<close>

definition vabdq :: "'a :: len word list \<Rightarrow> 'a word list \<Rightarrow> 'a word list" where
  "vabdq a b = map2 abs_diff a b"

fun vpaddlq :: "'a :: len word list \<Rightarrow> 'b :: len word list" where
  "vpaddlq (x # y # v) = (ucast x + ucast y) # vpaddlq v"
| "vpaddlq v = []"

definition vpadalq :: "'b :: len word list \<Rightarrow> 'a :: len word list \<Rightarrow> 'b word list" where
  "vpadalq acc v = map2 (+) acc (vpaddlq v)"

section \<open>Bodies\<close>

text \<open>Both slices advance together, as a slice of their pairs does.\<close>

definition left :: "('a \<times> 'b) list \<Rightarrow> 'a list" where "left v = map fst v"
definition right :: "('a \<times> 'b) list \<Rightarrow> 'b list" where "right v = map snd v"

text \<open>
  The lanes and the distance of what no block held: the lanes first, or AVX2's fold from the distance over the lanes.
\<close>

definition added :: "'a :: len word list \<Rightarrow> 'a word list \<Rightarrow> nat \<times> u64 list \<Rightarrow> u64" where
  "added a b io = (case io of (i, lanes) \<Rightarrow> sum_list lanes + l1_scalar (drop i a) (drop i b))"

definition folded_in :: "'a :: len word list \<Rightarrow> 'a word list \<Rightarrow> nat \<times> u64 list \<Rightarrow> u64" where
  "folded_in a b io = (case io of (i, lanes) \<Rightarrow> foldl (+) (l1_scalar (drop i a) (drop i b)) lanes)"

definition sad_step :: "u64 list \<Rightarrow> (u8 \<times> u8) list \<Rightarrow> u64 list" where
  "sad_step acc v = add_epi64 acc (sad_epu8 (left v) (right v))"

definition l1_u8_sse2 :: "u8 list \<Rightarrow> u8 list \<Rightarrow> u64" where
  "l1_u8_sse2 a b = added a b (lanes_loop 16 sad_step (zip a b) 0 (replicate 2 0))"

definition l1_u8_avx2 :: "u8 list \<Rightarrow> u8 list \<Rightarrow> u64" where
  "l1_u8_avx2 a b = folded_in a b (lanes_loop 32 sad_step (zip a b) 0 (replicate 4 0))"

definition l1_u8_avx512 :: "u8 list \<Rightarrow> u8 list \<Rightarrow> u64" where
  "l1_u8_avx512 a b = added a b (lanes_loop 64 sad_step (zip a b) 0 (replicate 8 0))"

definition sse2_step :: "u64 list \<Rightarrow> (u32 \<times> u32) list \<Rightarrow> u64 list" where
  "sse2_step acc v =
     (let x = left v; y = right v; bias = replicate 4 (push_bit 31 1);
          below = cmpgt_i32 (xor_epi32 y bias) (xor_epi32 x bias);
          d = sub_epi32 (xor_epi32 (sub_epi32 x y) below) below
      in add_epi64 acc (add_epi64 (unpack_lo_zero d) (unpack_hi_zero d)))"

definition wide_step :: "nat \<Rightarrow> u64 list \<Rightarrow> (u32 \<times> u32) list \<Rightarrow> u64 list" where
  "wide_step n acc v =
     (let x = left v; y = right v; d = sub_epi32 (max_epu32 x y) (min_epu32 x y)
      in add_epi64 acc (add_epi64 (cvtepu32_epi64 (take n d)) (cvtepu32_epi64 (drop n d))))"

definition l1_u32_sse2 :: "u32 list \<Rightarrow> u32 list \<Rightarrow> u64" where
  "l1_u32_sse2 a b = added a b (lanes_loop 4 sse2_step (zip a b) 0 (replicate 2 0))"

definition l1_u32_avx2 :: "u32 list \<Rightarrow> u32 list \<Rightarrow> u64" where
  "l1_u32_avx2 a b = folded_in a b (lanes_loop 8 (wide_step 4) (zip a b) 0 (replicate 4 0))"

definition l1_u32_avx512 :: "u32 list \<Rightarrow> u32 list \<Rightarrow> u64" where
  "l1_u32_avx512 a b = added a b (lanes_loop 16 (wide_step 8) (zip a b) 0 (replicate 8 0))"

definition neon_u32_step :: "u64 list \<Rightarrow> (u32 \<times> u32) list \<Rightarrow> u64 list" where
  "neon_u32_step acc v = vpadalq acc (vabdq (left v) (right v))"

definition l1_u32_neon :: "u32 list \<Rightarrow> u32 list \<Rightarrow> u64" where
  "l1_u32_neon a b = added a b (lanes_loop 4 neon_u32_step (zip a b) 0 (replicate 2 0))"

text \<open>
  The inner loop of NEON's byte distance, at most 128 steps into eight 16-bit lanes, and the outer one, which widens
  them into the two 64-bit lanes.
\<close>

function neon_inner :: "(u8 \<times> u8) list \<Rightarrow> nat \<Rightarrow> u16 list \<Rightarrow> nat \<Rightarrow> u16 list \<times> nat" where
  "neon_inner v steps lanes i =
     (if steps < 128 \<and> i + 16 \<le> length v
      then neon_inner v (steps + 1) (vpadalq lanes (vabdq (left (load 16 i v)) (right (load 16 i v)))) (i + 16)
      else (lanes, i))"
  by pat_completeness auto

termination
  by (relation "measure (\<lambda>(v, steps, lanes, i). 128 - steps)") auto

declare neon_inner.simps [simp del]

lemma neon_inner_ge: "i \<le> snd (neon_inner v steps lanes i)"
  by (induction v steps lanes i rule: neon_inner.induct) (subst neon_inner.simps, auto)

lemma neon_inner_moves: "i + 16 \<le> length v \<Longrightarrow> i + 16 \<le> snd (neon_inner v 0 lanes i)"
  by (subst neon_inner.simps) (simp add: neon_inner_ge)

function neon_outer :: "(u8 \<times> u8) list \<Rightarrow> u64 list \<Rightarrow> nat \<Rightarrow> nat \<times> u64 list" where
  "neon_outer v n i =
     (if i + 16 \<le> length v
      then neon_outer v (vpadalq n (vpaddlq (fst (neon_inner v 0 (replicate 8 0) i)) :: u32 list))
             (snd (neon_inner v 0 (replicate 8 0) i))
      else (i, n))"
  by pat_completeness auto

termination
proof (relation "measure (\<lambda>(v, n, i). length v - i)")
  fix v :: "(u8 \<times> u8) list" and n :: "u64 list" and i
  assume "i + 16 \<le> length v"
  then show "((v, vpadalq n (vpaddlq (fst (neon_inner v 0 (replicate 8 0) i)) :: u32 list),
      snd (neon_inner v 0 (replicate 8 0) i)), v, n, i) \<in> measure (\<lambda>(v, n, i). length v - i)"
    using neon_inner_moves [of i v "replicate 8 0"] by simp
qed simp

declare neon_outer.simps [simp del]

definition l1_u8_neon :: "u8 list \<Rightarrow> u8 list \<Rightarrow> u64" where
  "l1_u8_neon a b = added a b (neon_outer (zip a b) (replicate 2 0) 0)"

section \<open>The choice\<close>

definition tiered_l1_u8 :: "target \<Rightarrow> machine \<Rightarrow> string option \<Rightarrow> u8 list \<Rightarrow> u8 list \<Rightarrow> u64" where
  "tiered_l1_u8 t m env a b =
     (case t_arch t of
        Arch_x86_64 \<Rightarrow>
          (case cpu_level t m env of V4 \<Rightarrow> l1_u8_avx512 a b | V3 \<Rightarrow> l1_u8_avx2 a b | _ \<Rightarrow> l1_u8_sse2 a b)
      | Arch_aarch64 \<Rightarrow> l1_u8_neon a b
      | Arch_other \<Rightarrow> l1_scalar a b)"

definition tiered_l1_u32 :: "target \<Rightarrow> machine \<Rightarrow> string option \<Rightarrow> u32 list \<Rightarrow> u32 list \<Rightarrow> u64" where
  "tiered_l1_u32 t m env a b =
     (case t_arch t of
        Arch_x86_64 \<Rightarrow>
          (case cpu_level t m env of V4 \<Rightarrow> l1_u32_avx512 a b | V3 \<Rightarrow> l1_u32_avx2 a b | _ \<Rightarrow> l1_u32_sse2 a b)
      | Arch_aarch64 \<Rightarrow> l1_u32_neon a b
      | Arch_other \<Rightarrow> l1_scalar a b)"

definition l1_u8 :: "target \<Rightarrow> machine \<Rightarrow> string option \<Rightarrow> u8 list \<Rightarrow> u8 list \<Rightarrow> u64" where
  "l1_u8 t m env a b =
     (let n = min (length a) (length b) in tiered_l1_u8 t m env (take n a) (take n b))"

definition l1_u32 :: "target \<Rightarrow> machine \<Rightarrow> string option \<Rightarrow> u32 list \<Rightarrow> u32 list \<Rightarrow> u64" where
  "l1_u32 t m env a b =
     (let n = min (length a) (length b) in tiered_l1_u32 t m env (take n a) (take n b))"

end
