(* ===== verification/Distance_Laws.thy ===== *)
theory Distance_Laws
  imports Distance
begin

unbundle bit_operations_syntax

text \<open>
  Every tier of \<open>simd/distance.rs\<close> gives the sum of the absolute differences, and the 16-bit lanes NEON adds bytes
  into are widened before they could wrap.
\<close>

section \<open>Distances of pairs\<close>

definition apart :: "('a :: len word \<times> 'a word) list \<Rightarrow> nat" where
  "apart v = sum_list (map (\<lambda>(x, y). unat (abs_diff x y)) v)"

lemma apart_simps [simp]: "apart [] = 0" "apart (v @ w) = apart v + apart w" "apart ((x, y) # v) = unat (abs_diff x y) + apart v"
  by (simp_all add: apart_def)

lemma fold_apart: "foldl (\<lambda>n (x, y). n + ucast (abs_diff x y)) m v = (m + of_nat (apart v) :: u64)"
  by (induction v arbitrary: m) (auto simp: ac_simps)

lemma l1_scalar_apart: "l1_scalar a b = of_nat (apart (zip a b))"
  by (simp add: l1_scalar_def fold_apart)

lemma sides [simp]: "length (left v) = length v" "length (right v) = length v"
  "left (p # v) = fst p # left v" "right (p # v) = snd p # right v" "left [] = []" "right [] = []"
  by (simp_all add: left_def right_def)

lemma map2_sides: "map2 f (left v) (right v) = map (\<lambda>(x, y). f x y) v"
  by (induction v) auto

section \<open>Sums of lanes\<close>

lemma foldl_add: "foldl (+) m xs = m + (sum_list xs :: u64)"
  by (induction xs arbitrary: m) (simp_all add: ac_simps)

lemma length_add_epi64: "length (add_epi64 a b) = min (length a) (length b)"
  by (simp add: add_epi64_def)

lemma of_nat_unats: "sum_list (map ucast ds) = (of_nat (sum_list (map unat ds)) :: u64)"
  by (induction ds) simp_all

locale lane_distance =
  fixes width lanes :: nat and step :: "u64 list \<Rightarrow> ('a :: len word \<times> 'a word) list \<Rightarrow> u64 list"
  assumes positive: "0 < width"
    and length_step: "length acc = lanes \<Longrightarrow> length v = width \<Longrightarrow> length (step acc v) = lanes"
    and sum_step: "length acc = lanes \<Longrightarrow> length v = width \<Longrightarrow> sum_list (step acc v) = sum_list acc + of_nat (apart v)"

sublocale lane_distance \<subseteq> block_fold width step "\<lambda>acc. length acc = lanes" sum_list "\<lambda>n (x, y). n + ucast (abs_diff x y)"
  by unfold_locales (simp_all add: positive length_step sum_step fold_apart)

context lane_distance
begin

lemma loop_total:
  assumes "lanes_loop width step v 0 (replicate lanes 0) = (i, acc)"
  shows "sum_list acc + of_nat (apart (drop i v)) = of_nat (apart v)"
  using loop_worth [OF _ assms] by (simp add: fold_apart sum_list_replicate)

lemma bodies:
  "added a b (lanes_loop width step (zip a b) 0 (replicate lanes 0)) = l1_scalar a b"
  "folded_in a b (lanes_loop width step (zip a b) 0 (replicate lanes 0)) = l1_scalar a b"
  using loop_total [of "zip a b"]
  by (auto simp: added_def folded_in_def l1_scalar_apart drop_zip foldl_add add.commute split: prod.split)

end

section \<open>The steps\<close>

lemma sad_total:
  "length v = 8 * n \<Longrightarrow> length (sad_epu8 (left v) (right v)) = n
   \<and> sum_list (sad_epu8 (left v) (right v)) = of_nat (apart v)"
proof (induction n arbitrary: v)
  case (Suc n)
  obtain p0 p1 p2 p3 p4 p5 p6 p7 w where v: "v = p0 # p1 # p2 # p3 # p4 # p5 # p6 # p7 # w" "length w = 8 * n"
    using Suc.prems by (auto simp: length_Suc_conv eval_nat_numeral)
  then show ?case
    using Suc.IH [of w] by (simp add: apart_def case_prod_beta)
qed simp

interpretation sad: lane_distance "8 * Suc n" "Suc n" sad_step for n
  by unfold_locales (simp_all add: sad_step_def sum_list_add_epi64 sad_total length_add_epi64 del: mult_Suc_right)

text \<open>Signed, a \<open>u32\<close> with its top bit flipped is the value less \<open>2^31\<close>.\<close>

lemma sint_top: "sint (w :: u32) = (if bit w 31 then uint w - 2 ^ 32 else uint w)"
  using uint_bounded [of w] by (simp add: sint_uint signed_take_bit_eq_take_bit_minus take_bit_int_eq_self_iff bit_uint_iff)

lemma sint_biased: "sint (x XOR push_bit 31 1 :: u32) = uint x - 2 ^ 31"
proof -
  let ?b = "push_bit 31 1 :: u32"
  have plus: "uint (z XOR ?b) = uint z + 2 ^ 31" "bit (z XOR ?b) 31" if "\<not> bit z 31" for z :: u32
  proof -
    have "z AND ?b = 0"
    proof (rule bit_word_eqI)
      fix n assume "n < LENGTH(32)"
      then have "31 \<le> n \<Longrightarrow> n = 31"
        by simp
      then show "bit (z AND ?b) n \<longleftrightarrow> bit (0 :: u32) n"
        unfolding bit_and_iff bit_push_bit_iff bit_1_iff using that by auto
    qed
    then have "z XOR ?b = z + ?b"
      by (simp add: disjunctive_add_eq_xor)
    moreover have "uint z < 2 ^ 31"
    proof -
      have "uint z = take_bit (Suc 31) (uint z)"
        using uint_bounded [of z] by (simp add: take_bit_int_eq_self)
      then have "uint z = take_bit 31 (uint z)"
        unfolding take_bit_Suc_from_most using that by (simp add: bit_uint_iff)
      then show ?thesis
        using take_bit_int_less_exp [of 31 "uint z"] by simp
    qed
    ultimately show "uint (z XOR ?b) = uint z + 2 ^ 31"
      by (simp add: uint_word_ariths)
    show "bit (z XOR ?b) 31"
      unfolding bit_xor_iff bit_push_bit_iff bit_1_iff using that by simp
  qed
  show ?thesis
  proof (cases "bit x 31")
    case True
    then have "\<not> bit (x XOR ?b) 31"
      unfolding bit_xor_iff bit_push_bit_iff bit_1_iff by simp
    moreover have "(x XOR ?b) XOR ?b = x"
      by (rule bit_word_eqI) (unfold bit_xor_iff, auto)
    ultimately show ?thesis
      using plus(1) [of "x XOR ?b"] by (simp add: sint_top)
  next
    case False
    then show ?thesis
      using plus [of x] by (simp add: sint_top)
  qed
qed

lemma biased_less: "sint (x XOR push_bit 31 1) < sint (y XOR push_bit 31 1 :: u32) \<longleftrightarrow> x < y"
  by (simp only: sint_biased) (simp add: word_less_def)

lemma sum_halves: "length d = 2 * n \<Longrightarrow>
  sum_list (add_epi64 (map ucast (take n d)) (map ucast (drop n d))) = (of_nat (sum_list (map unat d)) :: u64)"
  by (subst sum_list_add_epi64) (simp_all add: of_nat_unats flip: of_nat_add sum_list_append map_append)

lemma apart_unats: "apart v = sum_list (map unat (map (\<lambda>(x, y). abs_diff x y) v))"
  by (simp add: apart_def comp_def case_prod_beta')

lemma length_abs_map: "map (\<lambda>(x, y). abs_diff x y) v = map2 abs_diff (left v) (right v)"
  by (simp add: map2_sides)

lemma sse2_lanes:
  assumes "length v = 4"
  shows "sub_epi32 (xor_epi32 (sub_epi32 (left v) (right v))
      (cmpgt_i32 (xor_epi32 (right v) (replicate 4 (push_bit 31 1))) (xor_epi32 (left v) (replicate 4 (push_bit 31 1)))))
      (cmpgt_i32 (xor_epi32 (right v) (replicate 4 (push_bit 31 1))) (xor_epi32 (left v) (replicate 4 (push_bit 31 1))))
    = map (\<lambda>(x, y). abs_diff x y) v"
  using assms
  by (intro nth_equalityI)
    (auto simp: sub_epi32_def xor_epi32_def cmpgt_i32_def left_def right_def case_prod_beta biased_less
      abs_diff_def not_eq_complement simp del: push_bit_of_1)

interpretation sse2: lane_distance 4 2 sse2_step
proof
  fix acc :: "u64 list" and v :: "(u32 \<times> u32) list"
  assume "length acc = 2" "length v = 4"
  then show "length (sse2_step acc v) = 2" "sum_list (sse2_step acc v) = sum_list acc + of_nat (apart v)"
    using sum_halves [of "map (\<lambda>(x, y). abs_diff x y) v" 2] sse2_lanes [of v]
    by (simp_all add: sse2_step_def Let_def unpack_lo_zero_def unpack_hi_zero_def sum_list_add_epi64 length_add_epi64
        apart_unats del: push_bit_of_1)
qed simp

interpretation wide: lane_distance "2 * Suc n" "Suc n" "wide_step (Suc n)" for n
proof
  fix acc :: "u64 list" and v :: "(u32 \<times> u32) list"
  assume l: "length acc = Suc n" "length v = 2 * Suc n"
  have "sub_epi32 (max_epu32 (left v) (right v)) (min_epu32 (left v) (right v)) = map (\<lambda>(x, y). abs_diff x y) v"
    by (intro nth_equalityI)
      (auto simp: sub_epi32_def max_epu32_def min_epu32_def left_def right_def case_prod_beta abs_diff_def max_def min_def)
  then show "length (wide_step (Suc n) acc v) = Suc n"
      "sum_list (wide_step (Suc n) acc v) = sum_list acc + of_nat (apart v)"
    using l sum_halves [of "map (\<lambda>(x, y). abs_diff x y) v" "Suc n"]
    by (simp_all add: wide_step_def Let_def cvtepu32_epi64_def sum_list_add_epi64 length_add_epi64 apart_unats)
qed simp

section \<open>Widening adds\<close>

lemma vpaddlq_sum:
  "length v = 2 * n \<Longrightarrow> length (vpaddlq v :: 'b :: len word list) = n
   \<and> sum_list (vpaddlq v :: 'b word list) = of_nat (sum_list (map unat v))"
proof (induction n arbitrary: v)
  case (Suc n)
  then obtain x y w where "v = x # y # w" "length w = 2 * n"
    by (auto simp: length_Suc_conv)
  then show ?case
    using Suc.IH [of w] by (simp add: add.assoc)
qed simp

lemma sum_map2_add: "length a = length b \<Longrightarrow> sum_list (map2 (+) a b) = sum_list a + (sum_list b :: 'b :: len word)"
  by (induction a b rule: list_induct2) (simp_all add: ac_simps)

interpretation uadalp: lane_distance 4 2 neon_u32_step
proof
  fix acc :: "u64 list" and v :: "(u32 \<times> u32) list"
  assume "length acc = 2" "length v = 4"
  then show "length (neon_u32_step acc v) = 2" "sum_list (neon_u32_step acc v) = sum_list acc + of_nat (apart v)"
    using vpaddlq_sum [of "vabdq (left v) (right v)" 2, where 'b = 64]
    by (simp_all add: neon_u32_step_def vpadalq_def sum_map2_add vabdq_def map2_sides apart_unats)
qed simp

text \<open>While each 16-bit lane stays under its bound, its sums are exact.\<close>

lemma abs_diff_byte: "unat (abs_diff x y :: u8) \<le> 255"
  using unat_byte [of "abs_diff x y"] by simp

lemma pair_exact:
  "unat (ucast x + ucast y :: u16) = unat x + unat y" for x y :: u8
  using unat_byte [of x] unat_byte [of y] by (simp add: unat_word_ariths unsigned_ucast_eq take_bit_nat_eq_self)

lemma paddl_bytes:
  "length ds = 2 * n \<Longrightarrow> sum_list (map unat (vpaddlq ds :: u16 list)) = sum_list (map unat (ds :: u8 list))
   \<and> (\<forall>l \<in> set (vpaddlq ds :: u16 list). unat l \<le> 510)"
proof (induction n arbitrary: ds)
  case (Suc n)
  then obtain x y w where "ds = x # y # w" "length w = 2 * n"
    by (auto simp: length_Suc_conv)
  then show ?case
    using Suc.IH [of w] unat_byte [of x] unat_byte [of y] by (simp add: pair_exact)
qed simp

lemma add_exact:
  assumes "length a = length b" and "\<forall>l \<in> set a. unat l \<le> m" and "\<forall>l \<in> set b. unat l \<le> k" and "m + k < 2 ^ 16"
  shows "sum_list (map unat (map2 (+) a b)) = sum_list (map unat a) + sum_list (map unat (b :: u16 list))
    \<and> (\<forall>l \<in> set (map2 (+) a b). unat l \<le> m + k)"
  using assms
proof (induction a b rule: list_induct2)
  case (Cons x a y b)
  then have "unat (x + y) = unat x + unat y"
    by (auto simp: unat_word_ariths)
  then show ?case
    using Cons by auto
qed simp

lemma unat_u16: "unat (x :: u16) < 65536"
  using unsigned_less [of x] by simp

lemma paddl_u16:
  "length ds = 2 * n \<Longrightarrow> sum_list (map unat (vpaddlq ds :: u32 list)) = sum_list (map unat (ds :: u16 list))"
proof (induction n arbitrary: ds)
  case (Suc n)
  then obtain x y w where "ds = x # y # w" "length w = 2 * n"
    by (auto simp: length_Suc_conv)
  moreover have "unat (ucast x + ucast y :: u32) = unat x + unat y"
    using unat_u16 [of x] unat_u16 [of y]
    by (simp add: unat_word_ariths unsigned_ucast_eq take_bit_nat_eq_self)
  ultimately show ?case
    using Suc.IH [of w] by simp
qed simp

lemma inner_exact:
  assumes "length lanes = 8" and "\<forall>l \<in> set lanes. unat l \<le> 510 * steps" and "steps \<le> 128"
    and "neon_inner v steps lanes i = (lanes', j)"
  shows "length lanes' = 8 \<and> sum_list (map unat lanes') + apart (drop j v) = sum_list (map unat lanes) + apart (drop i v)"
  using assms
proof (induction v steps lanes i rule: neon_inner.induct)
  case (1 v steps lanes i)
  show ?case
  proof (cases "steps < 128 \<and> i + 16 \<le> length v")
    case True
    let ?ds = "vabdq (left (load 16 i v)) (right (load 16 i v))"
    let ?l = "vpadalq lanes ?ds"
    have b: "length (load 16 i v) = 16"
      using True by (auto simp: load_def)
    then have ds: "length ?ds = 2 * 8" "sum_list (map unat ?ds) = apart (load 16 i v)"
      by (simp_all add: vabdq_def map2_sides apart_unats)
    have len: "length (vpaddlq ?ds :: u16 list) = 8"
      by (rule conjunct1 [OF vpaddlq_sum [OF ds(1)]])
    have "510 * steps + 510 < (2 :: nat) ^ 16"
      using True by simp
    then have sum: "sum_list (map unat ?l) = sum_list (map unat lanes) + apart (load 16 i v)"
        "\<forall>l \<in> set ?l. unat l \<le> 510 * (steps + 1)" "length ?l = 8"
      using add_exact [of lanes "vpaddlq ?ds" "510 * steps" 510] paddl_bytes [OF ds(1)] 1(2,3) len ds(2)
      by (auto simp: vpadalq_def)
    have "neon_inner v (steps + 1) ?l (i + 16) = (lanes', j)"
      using 1(5) True by (subst (asm) neon_inner.simps) simp
    then have "length lanes' = 8
        \<and> sum_list (map unat lanes') + apart (drop j v) = sum_list (map unat ?l) + apart (drop (i + 16) v)"
      using 1(1) [OF True] sum True by simp
    moreover have "apart (drop i v) = apart (load 16 i v) + apart (drop (i + 16) v)"
      by (simp flip: load_rest [of 16 i v])
    ultimately show ?thesis
      using sum(1) by simp
  next
    case False
    then show ?thesis
      using 1(2,5) by (subst (asm) neon_inner.simps) (auto split: if_splits)
  qed
qed

lemma outer_total:
  assumes "length n = 2" and "neon_outer v n i = (j, n')"
  shows "sum_list n' + of_nat (apart (drop j v)) = sum_list n + of_nat (apart (drop i v))"
  using assms
proof (induction v n i rule: neon_outer.induct)
  case (1 v n i)
  show ?case
  proof (cases "i + 16 \<le> length v")
    case True
    obtain lanes k where inner: "neon_inner v 0 (replicate 8 0) i = (lanes, k)"
      by fastforce
    then have exact: "length lanes = 2 * 4" "sum_list (map unat lanes) + apart (drop k v) = apart (drop i v)"
      using inner_exact [OF _ _ _ inner] by (simp_all add: sum_list_replicate)
    let ?w = "vpaddlq lanes :: u32 list"
    have w: "length ?w = 2 * 2" "sum_list (map unat ?w) = sum_list (map unat lanes)"
      using vpaddlq_sum [OF exact(1), where 'b = 32] paddl_u16 [OF exact(1)] by simp_all
    have "length (vpadalq n ?w) = 2"
        "sum_list (vpadalq n ?w) = sum_list n + of_nat (sum_list (map unat lanes))"
      using vpaddlq_sum [OF w(1), where 'b = 64] w(2) 1(2) by (simp_all add: vpadalq_def sum_map2_add)
    moreover have "neon_outer v (vpadalq n ?w) k = (j, n')"
      using 1(3) True inner by (subst (asm) neon_outer.simps) simp
    ultimately show ?thesis
      using 1(1) [OF True] inner by (simp flip: exact(2))
  next
    case False
    then show ?thesis
      using 1(3) by (subst (asm) neon_outer.simps) simp
  qed
qed

lemma l1_u8_neon_scalar: "l1_u8_neon a b = l1_scalar a b"
  using outer_total [of "replicate 2 0" "zip a b" 0]
  by (auto simp: l1_u8_neon_def added_def l1_scalar_apart drop_zip sum_list_replicate split: prod.split)

section \<open>Every tier\<close>

lemma zip_shorter: "n = min (length a) (length b) \<Longrightarrow> zip (take n a) (take n b) = zip a b"
  by (intro nth_equalityI) auto

lemma tiers_apart:
  "tiered_l1_u8 t m env a b = l1_scalar a b" "tiered_l1_u32 t m env a' b' = l1_scalar a' b'"
  using sad.bodies [where n = 1 and a = a and b = b] sad.bodies [where n = 3 and a = a and b = b]
    sad.bodies [where n = 7 and a = a and b = b] sse2.bodies [of a' b'] wide.bodies [where n = 3 and a = a' and b = b']
    wide.bodies [where n = 7 and a = a' and b = b'] uadalp.bodies [of a' b']
  by (simp_all add: tiered_l1_u8_def tiered_l1_u32_def l1_u8_sse2_def l1_u8_avx2_def l1_u8_avx512_def l1_u32_sse2_def
      l1_u32_avx2_def l1_u32_avx512_def l1_u32_neon_def l1_u8_neon_scalar eval_nat_numeral del: replicate_Suc
      split: arch.split level.split)

lemma abs_diff_int: "uint (abs_diff x y) = \<bar>uint x - uint y\<bar>"
  by (auto simp: abs_diff_def word_less_def uint_sub_if' word_le_def)

lemma apart_int: "int (apart v) = sum_list (map (\<lambda>(x, y). \<bar>uint x - uint y\<bar>) v)"
  by (induction v) (auto simp: abs_diff_int)

lemma of_nat_apart: "of_nat (apart v) = of_int (sum_list (map (\<lambda>(x, y). \<bar>uint x - uint y\<bar>) v))"
  by (simp only: flip: apart_int) simp

text \<open>
  C35: on every target, machine and \<open>PWRS_CPU_MAX\<close>, both distances give what their scalar form gives for slices of any
  lengths, which is the sum of the absolute differences over the shorter slice, wrapped to 64 bits.
\<close>

theorem distances_are_scalar:
  "l1_u8 t m env a b = l1_scalar a b \<and> l1_u32 t m env a' b' = l1_scalar a' b'
   \<and> l1_scalar a b = of_int (sum_list (map (\<lambda>(x, y). \<bar>uint x - uint y\<bar>) (zip a b)))
   \<and> l1_scalar a' b' = of_int (sum_list (map (\<lambda>(x, y). \<bar>uint x - uint y\<bar>) (zip a' b')))"
  by (simp add: l1_u8_def l1_u32_def Let_def tiers_apart l1_scalar_apart zip_shorter of_nat_apart)

text \<open>
  A run of NEON's inner loop ends at or past where it began, and its eight 16-bit lanes hold exactly the sum of the
  differences of the bytes it passed: 128 steps of at most 510 never wrap them.
\<close>

lemma lanes_never_wrap:
  "case neon_inner v 0 (replicate 8 0) i of (lanes, j) \<Rightarrow>
     i \<le> j \<and> length lanes = 8
     \<and> sum_list (map unat lanes) = sum_list (map (\<lambda>(x, y). unat (abs_diff x y)) (slice v i j))"
proof -
  obtain lanes j where inner: "neon_inner v 0 (replicate 8 0) i = (lanes, j)"
    by fastforce
  then have "i \<le> j"
    using neon_inner_ge [of i v 0 "replicate 8 0"] by simp
  then have "drop i v = slice v i j @ drop j v"
    by (simp add: slice_def) (metis append_take_drop_id drop_drop le_add_diff_inverse2)
  then have "apart (drop i v) = apart (slice v i j) + apart (drop j v)"
    by simp
  then show ?thesis
    using inner_exact [OF _ _ _ inner] inner \<open>i \<le> j\<close> by (simp add: apart_def sum_list_replicate)
qed

end
