(* ===== verification/Merge.thy ===== *)
theory Merge
  imports Prelude "HOL-Library.AList" "HOL-Library.List_Lexorder" "HOL-Library.Char_ord"
begin

text \<open>
  \<open>crates/cargo-pwrs/src/merge.rs\<close>: \<open>cargo pwrs merge\<close>, which copies the \<open>runtimes/<rid>\<close> folders of several builds
  of one module into one module folder.

  A folder is a tree of named entries in the order \<open>read_dir\<close> gives them. The operations on the destination return it
  as they leave it, with the error if there is one, so what a failed merge has already copied is part of the result.
  The folders merged are apart from the destination; errors of the disk itself (a read or a write the operating system
  refuses for a file that is there) are not modelled, nor are links.
\<close>

section \<open>Folders\<close>

datatype node = File string | Folder "(string \<times> node) list"

primrec is_folder :: "node \<Rightarrow> bool" where
  "is_folder (File t) = False"
| "is_folder (Folder es) = True"

fun get :: "string list \<Rightarrow> node \<Rightarrow> node option" where
  "get [] n = Some n"
| "get (p # ps) (Folder es) = (case map_of es p of Some c \<Rightarrow> get ps c | None \<Rightarrow> None)"
| "get (p # ps) (File t) = None"

text \<open>\<open>create_dir_all\<close>: every missing folder of the path; a file on it is an error.\<close>

fun create_dirs :: "string list \<Rightarrow> node \<Rightarrow> node option" where
  "create_dirs [] (Folder es) = Some (Folder es)"
| "create_dirs (p # ps) (Folder es) =
     map_option (\<lambda>c. Folder (AList.update p c es))
       (create_dirs ps (case map_of es p of Some c \<Rightarrow> c | None \<Rightarrow> Folder []))"
| "create_dirs ps (File t) = None"

text \<open>\<open>fs::copy\<close> to a path: the folder it is in exists, and a file of that name is written over.\<close>

fun write_file :: "string list \<Rightarrow> string \<Rightarrow> node \<Rightarrow> node option" where
  "write_file [] t n = (if is_folder n then None else Some (File t))"
| "write_file (p # ps) t (Folder es) =
     (case map_of es p of
        Some c \<Rightarrow> map_option (\<lambda>c. Folder (AList.update p c es)) (write_file ps t c)
      | None \<Rightarrow> if ps = [] then Some (Folder (AList.update p (File t) es)) else None)"
| "write_file (p # ps) t (File t') = None"

section \<open>Errors\<close>

text \<open>A path is of the destination or of the folder merged; the constructors are the messages.\<close>

datatype place = Into "string list" | From "string list"

datatype merge_error =
    Cannot_create place
  | Cannot_read place
  | Cannot_copy place place
  | No_manifest place
  | Many_manifests place nat
  | Not_module place string string
  | Manifests_differ place place
  | Already_has place string string
  | Lacks_bundled string

section \<open>Manifests\<close>

text \<open>\<open>Path::extension\<close> and \<open>Path::file_stem\<close> of an entry's name.\<close>

definition extension :: "string \<Rightarrow> string option" where
  "extension name =
     (case rposition (\<lambda>c. c = CHR ''.'') name of
        Some i \<Rightarrow> if i = 0 \<or> name = ''..'' then None else Some (drop (i + 1) name)
      | None \<Rightarrow> None)"

definition file_stem :: "string \<Rightarrow> string" where
  "file_stem name = (case extension name of Some x \<Rightarrow> take (length name - length x - 1) name | None \<Rightarrow> name)"

definition manifest_of :: "place \<Rightarrow> node option \<Rightarrow> merge_error + (string \<times> string)" where
  "manifest_of at dir =
     (case dir of
        Some (Folder es) \<Rightarrow>
          (case filter (\<lambda>name. extension name = Some ''psd1'') (map fst es) of
             [one] \<Rightarrow> Inr (one, file_stem one)
           | [] \<Rightarrow> Inl (No_manifest at)
           | many \<Rightarrow> Inl (Many_manifests at (length many)))
      | _ \<Rightarrow> Inl (Cannot_read at))"

text \<open>\<open>read_to_string\<close>, which a text that is not UTF-8 fails.\<close>

definition read_to_string :: "place \<Rightarrow> node option \<Rightarrow> merge_error + string" where
  "read_to_string at n =
     (case n of Some (File t) \<Rightarrow> if utf8_ok t then Inr t else Inl (Cannot_read at) | _ \<Rightarrow> Inl (Cannot_read at))"

definition BOM :: string where "BOM = [CHR 0xEF, CHR 0xBB, CHR 0xBF]"
definition CRLF :: string where "CRLF = [CHR 0x0D, CHR 0x0A]"
definition SIG_BEGIN :: string where "SIG_BEGIN = CRLF @ ''# SIG # Begin signature block'' @ CRLF"
definition SIG_END :: string where "SIG_END = ''# SIG # End signature block''"

definition rfind :: "string \<Rightarrow> string \<Rightarrow> nat option" where
  "rfind needle xs = map_option (\<lambda>i. length xs - i - length needle) (find_sub (rev needle) (rev xs))"

definition unsigned_text :: "string \<Rightarrow> string" where
  "unsigned_text t =
     (let t = (case strip_prefix BOM t of Some rest \<Rightarrow> rest | None \<Rightarrow> t)
      in case rfind SIG_BEGIN t of
           Some at \<Rightarrow> if suffix SIG_END (trim_end t) then take at t else t
         | None \<Rightarrow> t)"

section \<open>Copying\<close>

type_synonym 'e outcome = "node \<times> 'e option"

text \<open>\<open>copy_tree\<close>: the loop over a folder's entries is \<open>copy_entries\<close>.\<close>

fun copy_tree :: "string list \<Rightarrow> node \<Rightarrow> string list \<Rightarrow> node \<Rightarrow> merge_error outcome"
  and copy_entries :: "string list \<Rightarrow> (string \<times> node) list \<Rightarrow> string list \<Rightarrow> node \<Rightarrow> merge_error outcome" where
  "copy_tree src n dest w =
     (case create_dirs dest w of
        None \<Rightarrow> (w, Some (Cannot_create (Into dest)))
      | Some w \<Rightarrow>
          (case n of
             File t \<Rightarrow> (w, Some (Cannot_read (From src)))
           | Folder es \<Rightarrow> copy_entries src es dest w))"
| "copy_entries src [] dest w = (w, None)"
| "copy_entries src ((name, n) # es) dest w =
     (let src_path = src @ [name]; to = dest @ [name]
      in case n of
           Folder _ \<Rightarrow>
             (case copy_tree src_path n to w of
                (w, None) \<Rightarrow> copy_entries src es dest w
              | (w, Some e) \<Rightarrow> (w, Some e))
         | File t \<Rightarrow>
             (case write_file to t w of
                Some w \<Rightarrow> copy_entries src es dest w
              | None \<Rightarrow> (w, Some (Cannot_copy (From src_path) (Into to)))))"

text \<open>The loop over the entries of the merged folder's \<open>runtimes\<close>.\<close>

primrec merge_rids ::
  "string list \<Rightarrow> string list \<Rightarrow> string \<Rightarrow> (string \<times> node) list \<Rightarrow> node \<Rightarrow> merge_error outcome"
where
  "merge_rids at src label [] w = (w, None)"
| "merge_rids at src label (entry # es) w =
     (let rid = fst entry; dest = at @ [''runtimes'', rid]
      in if get dest w \<noteq> None then (w, Some (Already_has (Into at) label rid))
         else case copy_tree (src @ [''runtimes'', rid]) (snd entry) dest w of
                (w, None) \<Rightarrow> merge_rids at src label es w
              | (w, Some e) \<Rightarrow> (w, Some e))"

text \<open>
  What \<open>merge_runtimes\<close> checks before it copies, in the code's order, and what it then copies: the entries of the
  merged folder's \<open>runtimes\<close>.
\<close>

definition rids_to_merge ::
  "string list \<Rightarrow> node option \<Rightarrow> string list \<Rightarrow> node option \<Rightarrow> merge_error + (string \<times> node) list"
where
  "rids_to_merge at into src from =
     and_then (manifest_of (Into at) into) (\<lambda>(into_manifest, name).
     and_then (read_to_string (Into (at @ [into_manifest])) (Option.bind into (get [into_manifest]))) (\<lambda>into_text.
     and_then (manifest_of (From src) from) (\<lambda>(src_manifest, src_name).
     if src_name \<noteq> name then Inl (Not_module (From src) src_name name)
     else and_then (read_to_string (From (src @ [src_manifest])) (Option.bind from (get [src_manifest]))) (\<lambda>src_text.
     if unsigned_text src_text \<noteq> unsigned_text into_text then Inl (Manifests_differ (From src) (Into at))
     else case Option.bind from (get [''runtimes'']) of
            Some (Folder es) \<Rightarrow> Inr es
          | _ \<Rightarrow> Inl (Cannot_read (From (src @ [''runtimes'']))))))) "

definition merge_runtimes ::
  "string list \<Rightarrow> string list \<Rightarrow> node option \<Rightarrow> string \<Rightarrow> node \<Rightarrow> merge_error outcome"
where
  "merge_runtimes at src from label w =
     (case rids_to_merge at (get at w) src from of
        Inl e \<Rightarrow> (w, Some e)
      | Inr es \<Rightarrow> merge_rids at src label es w)"

section \<open>Bundled modules\<close>

definition bundled_in :: "node \<Rightarrow> string list" where
  "bundled_in dir =
     (case dir of
        Folder es \<Rightarrow>
          sort (filter (\<lambda>name. case get [name, name @ ''.psd1''] dir of Some (File t) \<Rightarrow> True | _ \<Rightarrow> False) (map fst es))
      | File t \<Rightarrow> [])"

primrec merge_bundled :: "node \<Rightarrow> string list \<Rightarrow> node \<Rightarrow> merge_error outcome" where
  "merge_bundled from [] w = (w, None)"
| "merge_bundled from (bundled # rest) w =
     (case get [bundled, bundled @ ''.psd1''] w of
        Some (File t) \<Rightarrow>
          (case merge_runtimes [bundled] [bundled] (get [bundled] from) (bundled @ ''/'') w of
             (w, None) \<Rightarrow> merge_bundled from rest w
           | (w, Some e) \<Rightarrow> (w, Some e))
      | _ \<Rightarrow> (w, Some (Lacks_bundled bundled)))"

primrec merge :: "node list \<Rightarrow> node \<Rightarrow> merge_error outcome" where
  "merge [] w = (w, None)"
| "merge (from # rest) w =
     (case merge_runtimes [] [] (Some from) [] w of
        (w, None) \<Rightarrow>
          (case merge_bundled from (bundled_in from) w of
             (w, None) \<Rightarrow> merge rest w
           | (w, Some e) \<Rightarrow> (w, Some e))
      | (w, Some e) \<Rightarrow> (w, Some e))"

end
