(* ===== verification/Merge_Laws.thy ===== *)
theory Merge_Laws
  imports Merge
begin

text \<open>
  What a merge leaves: the files of the destination, as a map from paths to contents, before and after each operation.
\<close>

section \<open>The files of a folder\<close>

fun files :: "node \<Rightarrow> string list \<rightharpoonup> string" where
  "files (File t) [] = Some t"
| "files (File t) (p # ps) = None"
| "files (Folder es) [] = None"
| "files (Folder es) (p # ps) = (case map_of es p of Some c \<Rightarrow> files c ps | None \<Rightarrow> None)"

lemma files_get: "files n q = (case get q n of Some (File t) \<Rightarrow> Some t | _ \<Rightarrow> None)"
  by (induction n q rule: files.induct) (auto split: option.split node.split)

lemma get_None_below: "get p n = None \<Longrightarrow> get (p @ q) n = None"
  by (induction p n rule: get.induct) (auto split: option.splits)



text \<open>The files of a tree set down at a path.\<close>

definition placed :: "string list \<Rightarrow> node \<Rightarrow> string list \<rightharpoonup> string" where
  "placed p n q = (if prefix p q then files n (drop (length p) q) else None)"

lemma placed_Nil [simp]: "placed [] n = files n"
  by (simp add: placed_def fun_eq_iff)

lemma placed_outside: "\<not> prefix p q \<Longrightarrow> placed p n q = None"
  by (simp add: placed_def)

section \<open>One operation\<close>

lemma files_create_dirs: "create_dirs p w = Some w' \<Longrightarrow> files w' = files w"
proof (induction p w arbitrary: w' rule: create_dirs.induct)
  case (2 p ps es)
  then obtain c where c: "create_dirs ps (case map_of es p of Some c \<Rightarrow> c | None \<Rightarrow> Folder []) = Some c"
      "w' = Folder (AList.update p c es)"
    by auto
  then have "files c = files (case map_of es p of Some c \<Rightarrow> c | None \<Rightarrow> Folder [])"
    using "2.IH" by blast
  moreover have "files (Folder []) q = None" for q
    by (cases q) simp_all
  ultimately have "files w' q = files (Folder es) q" for q
    by (cases q) (auto simp: c(2) update_conv' split: option.splits)
  then show ?case
    by (rule ext)
qed auto

lemma files_write: "write_file p t w = Some w' \<Longrightarrow> files w' = (files w)(p \<mapsto> t)"
proof (induction p t w arbitrary: w' rule: write_file.induct)
  case (1 t n)
  show ?case
  proof (rule ext)
    fix q
    show "files w' q = ((files n)([] \<mapsto> t)) q"
      using 1 by (cases n; cases q) (auto split: if_splits)
  qed
next
  case (2 p ps t es)
  show ?case
  proof (cases "map_of es p")
    case None
    then have "ps = []" "w' = Folder (AList.update p (File t) es)"
      using "2.prems" by (auto split: if_splits)
    then have "files w' q = ((files (Folder es))(p # ps \<mapsto> t)) q" for q
      using None by (cases q) (auto simp: update_conv' neq_Nil_conv)
    then show ?thesis
      by (rule ext)
  next
    case (Some c)
    then obtain c' where "write_file ps t c = Some c'" "w' = Folder (AList.update p c' es)"
      using "2.prems" by auto
    then have "files w' q = ((files (Folder es))(p # ps \<mapsto> t)) q" for q
      using Some "2.IH" [OF Some] by (cases q) (auto simp: update_conv')
    then show ?thesis
      by (rule ext)
  qed
qed auto

section \<open>Copying a tree\<close>

text \<open>Nothing outside the path copied to changes, whether or not the copy ends with an error.\<close>

lemma copy_outside:
  "copy_tree src n dest w = (w', e) \<Longrightarrow> \<not> prefix dest q \<Longrightarrow> files w' q = files w q"
  "copy_entries src es dest w = (w', e) \<Longrightarrow> \<not> prefix dest q \<Longrightarrow> files w' q = files w q"
proof (induction src n dest w and src es dest w arbitrary: w' e and w' e rule: copy_tree_copy_entries.induct)
  case (1 src n dest w)
  then show ?case
    by (subst (asm) copy_tree.simps) (auto split: option.splits node.splits dest: files_create_dirs)
next
  case (3 src name n es dest w)
  have q: "\<not> prefix (dest @ [name]) q"
    using "3.prems"(2) by (auto dest: append_prefixD)
  show ?case
  proof (cases n)
    case (File t)
    then show ?thesis
      using 3 q by (auto simp: Let_def split: option.splits dest!: files_write)
  next
    case (Folder fs)
    then show ?thesis
      using 3 q by (auto simp: Let_def simp del: copy_tree.simps split: option.splits prod.splits)
  qed
qed auto





section \<open>Merging runtimes\<close>

text \<open>Every file that was there is there with its contents, whatever the merge comes to.\<close>

lemma rids_keep:
  "merge_rids at src label es w = (w', e) \<Longrightarrow> files w \<subseteq>\<^sub>m files w'"
proof (induction es arbitrary: w)
  case (Cons entry es)
  let ?dest = "at @ [''runtimes'', fst entry]"
  show ?case
  proof (cases "get ?dest w")
    case None
    obtain w1 e1 where c: "copy_tree (src @ [''runtimes'', fst entry]) (snd entry) ?dest w = (w1, e1)"
      by fastforce
    have "files w q = files w1 q \<or> files w q = None" for q
    proof (cases "prefix ?dest q")
      case True
      then show ?thesis
        using get_None_below [OF None] by (auto simp: files_get prefix_def)
    qed (use copy_outside(1) [OF c] in simp)
    then have "files w \<subseteq>\<^sub>m files w1"
      by (metis map_le_def domIff)
    moreover have "files w1 \<subseteq>\<^sub>m files w'"
      using Cons c None by (cases e1) (auto simp: Let_def)
    ultimately show ?thesis
      by (rule map_le_trans)
  qed (use Cons in \<open>auto simp: Let_def\<close>)
qed simp






section \<open>Merging folders\<close>

lemma runtimes_keep: "merge_runtimes at src from label w = (w', e) \<Longrightarrow> files w \<subseteq>\<^sub>m files w'"
  by (auto simp: merge_runtimes_def split: sum.splits dest: rids_keep)




lemma bundled_keep: "merge_bundled from bs w = (w', e) \<Longrightarrow> files w \<subseteq>\<^sub>m files w'"
proof (induction bs arbitrary: w)
  case (Cons b bs)
  then show ?case
    by (auto split: option.splits node.splits prod.splits dest: runtimes_keep intro: map_le_trans)
qed simp



lemma merge_keeps_files: "merge froms w = (w', e) \<Longrightarrow> files w \<subseteq>\<^sub>m files w'"
proof (induction froms arbitrary: w)
  case (Cons "from" froms)
  then show ?case
    by (auto split: option.splits prod.splits dest!: runtimes_keep bundled_keep) (meson map_le_trans)+
qed simp


text \<open>
  C37: whatever a merge comes to, error or not, every file the destination held is in it with its contents.
\<close>

theorem merge_keeps: "files w \<subseteq>\<^sub>m files (fst (merge froms w))"
  by (rule merge_keeps_files [OF surjective_pairing])





text \<open>
  A runtime \<open>into\<close> already has is met only when the loop over \<open>runtimes\<close> comes to it, after the runtimes before it
  have been copied: the merge is refused, and the first of its runtimes stays copied.
\<close>

lemma refused_after_copying:
  "(let from = Folder [(''runtimes'', Folder [(''a'', Folder [(''x'', File ''1'')]), (''b'', Folder [])]), (''M.psd1'', File [])];
        into = Folder [(''runtimes'', Folder [(''b'', Folder [])]), (''M.psd1'', File [])];
        (left, e) = merge_runtimes [] [] (Some from) [] into
    in e = Some (Already_has (Into []) [] ''b'') \<and> get [''runtimes'', ''a'', ''x''] left = Some (File ''1'')
       \<and> get [''runtimes'', ''a''] into = None)"
  by code_simp

section \<open>Signatures\<close>

lemma rfind_last:
  assumes "needle \<noteq> []" and "find_sub needle (tl (needle @ rest)) = None"
  shows "rfind needle (t @ needle @ rest) = Some (length t)"
proof -
  let ?n = "rev needle" and ?x = "rev rest @ rev needle @ rev t"
  have here: "prefix ?n (drop (length rest) ?x)"
    by simp
  have none: "\<not> prefix ?n (drop m ?x)" if "m < length rest" for m
  proof
    assume "prefix ?n (drop m ?x)"
    then obtain y where "drop m ?x = ?n @ y"
      by (auto simp: prefix_def)
    then have x: "?x = take m ?x @ ?n @ y"
      by (metis append_take_drop_id)
    have "length y \<ge> length t + 1"
      using arg_cong [OF x, of length] that by simp
    have "t @ needle @ rest = rev y @ needle @ rev (take m ?x)"
      using arg_cong [OF x, of rev] by simp
    then have "drop (length t + 1) (t @ needle @ rest) = drop (length t + 1) (rev y) @ needle @ rev (take m ?x)"
      using \<open>length y \<ge> length t + 1\<close> by simp
    moreover have "drop (length t + 1) (t @ needle @ rest) = tl (needle @ rest)"
      by (simp only: Suc_eq_plus1 [symmetric] drop_Suc drop_tl) simp
    ultimately have "suffix (needle @ rev (take m ?x)) (tl (needle @ rest))"
      by (simp only: suffix_def) blast
    then have "sublist needle (tl (needle @ rest))"
      by (auto simp: suffix_def sublist_def)
    then show False
      using assms find_sub_sublist by blast
  qed
  have "find_sub ?n ?x \<noteq> None"
    using find_sub_None [of ?n ?x] here assms(1) by (metis rev_is_Nil_conv)
  then obtain k where k: "find_sub ?n ?x = Some k"
    by blast
  then have "find_sub ?n ?x = Some (length rest)"
    using find_sub_Some [OF _ k] here none assms(1) by (metis linorder_neqE_nat rev_is_Nil_conv)
  then show ?thesis
    by (simp add: rfind_def)
qed

lemma whites_reversed:
  "map rev whites = 
     [[CHR 0x09], [CHR 0x0A], [CHR 0x0B], [CHR 0x0C], [CHR 0x0D], [CHR 0x20], [CHR 0x85, CHR 0xC2], [CHR 0xA0, CHR
     0xC2], [CHR 0x80, CHR 0x9A, CHR 0xE1], [CHR 0x80, CHR 0x80, CHR 0xE2], [CHR 0x81, CHR 0x80, CHR 0xE2], [CHR
     0x82, CHR 0x80, CHR 0xE2], [CHR 0x83, CHR 0x80, CHR 0xE2], [CHR 0x84, CHR 0x80, CHR 0xE2], [CHR 0x85, CHR
     0x80, CHR 0xE2], [CHR 0x86, CHR 0x80, CHR 0xE2], [CHR 0x87, CHR 0x80, CHR 0xE2], [CHR 0x88, CHR 0x80, CHR
     0xE2], [CHR 0x89, CHR 0x80, CHR 0xE2], [CHR 0x8A, CHR 0x80, CHR 0xE2], [CHR 0xA8, CHR 0x80, CHR 0xE2], [CHR
     0xA9, CHR 0x80, CHR 0xE2], [CHR 0xAF, CHR 0x80, CHR 0xE2], [CHR 0x9F, CHR 0x81, CHR 0xE2], [CHR 0x80, CHR
     0x80, CHR 0xE3]]"
  by code_simp

lemma trim_end_signed: "trim_end (t @ SIG_END @ CRLF) = t @ SIG_END"
proof -
  have "trim_with (map rev whites) (CHR 0x0A # CHR 0x0D # CHR ''k'' # s) = CHR ''k'' # s" for s
    by (simp add: whites_reversed)
  then show ?thesis
    by (simp add: trim_end_def SIG_END_def CRLF_def)
qed

text \<open>
  A signed copy of a manifest compares as the manifest itself: with or without the byte order mark the signing adds,
  the text before the signature block is what is compared, where the block is the last of its kind in the text.
\<close>

lemma signature_ignored:
  assumes "\<not> sublist SIG_BEGIN t" and "\<not> prefix BOM t"
    and "find_sub SIG_BEGIN (tl (SIG_BEGIN @ block @ SIG_END @ CRLF)) = None"
  shows "unsigned_text t = t \<and> unsigned_text (BOM @ t) = t
    \<and> unsigned_text (t @ SIG_BEGIN @ block @ SIG_END @ CRLF) = t
    \<and> unsigned_text (BOM @ t @ SIG_BEGIN @ block @ SIG_END @ CRLF) = t"
proof -
  have nonempty: "SIG_BEGIN \<noteq> []"
    by (simp add: SIG_BEGIN_def CRLF_def)
  have plain: "unsigned_text t = t" "unsigned_text (BOM @ t) = t"
  proof -
    have "rfind SIG_BEGIN t = None"
      using assms(1) find_sub_sublist [of "rev SIG_BEGIN" "rev t"] nonempty by (simp add: rfind_def)
    then show "unsigned_text t = t" "unsigned_text (BOM @ t) = t"
      using assms(2) by (simp_all add: unsigned_text_def strip_prefix_def)
  qed
  let ?s = "t @ SIG_BEGIN @ block @ SIG_END @ CRLF"
  have "strip_prefix BOM ?s = None"
    using assms(2) by (cases t; cases "tl t"; cases "tl (tl t)") (auto simp: strip_prefix_def BOM_def SIG_BEGIN_def CRLF_def)
  moreover have "rfind SIG_BEGIN ?s = Some (length t)"
    by (rule rfind_last [OF nonempty assms(3)])
  moreover have "suffix SIG_END (trim_end ?s)"
    using trim_end_signed [of "t @ SIG_BEGIN @ block"] by (simp add: suffix_def)
  ultimately have "unsigned_text ?s = t" "unsigned_text (BOM @ ?s) = t"
    by (simp_all add: unsigned_text_def strip_prefix_def)
  then show ?thesis
    using plain by simp
qed

lemma signature_ignored_witness:
  "unsigned_text (BOM @ ''{}'' @ SIG_BEGIN @ ''# AAAA'' @ SIG_END @ CRLF) = ''{}''"
proof -
  have "\<not> sublist SIG_BEGIN ''{}''"
    using find_sub_sublist [of SIG_BEGIN "''{}''"] by (simp add: SIG_BEGIN_def CRLF_def)
  moreover have "\<not> prefix BOM ''{}''"
    by (simp add: BOM_def)
  moreover have "find_sub SIG_BEGIN (tl (SIG_BEGIN @ ''# AAAA'' @ SIG_END @ CRLF)) = None"
    by (simp add: SIG_BEGIN_def SIG_END_def CRLF_def)
  ultimately show ?thesis
    using signature_ignored by blast
qed

end
