(* ===== verification/Pinned.thy ===== *)
theory Pinned
  imports Fallible Transitions Simd "HOL-Library.Multiset"
begin

unbundle bit_operations_syntax

text \<open>
  \<open>crates/pwrs/src/pinned.rs\<close>: views of pinned managed arrays and the thread's list of them, the copy into a view, and
  the buffers passed to the engine as memory. The host pins and unpins across the C ABI: its answer to a pin is an
  argument, and a pin it gave stays held until it is given back. Addresses and sizes are those of a 64-bit target.
\<close>

section \<open>Pins\<close>

record raw_pin =
  data :: nat
  pin_len :: nat
  elem_size :: nat
  pin :: handle

record pinned =
  raw :: raw_pin
  listed :: bool

text \<open>
  A thread: its list \<open>PINNED_HERE\<close>, whether the list has been dropped because the thread exits, the pins the host
  holds for it, and its views that are alive.
\<close>

record pins =
  pinned_here :: "nat list"
  exiting :: bool
  held :: "raw_pin list"
  views :: "pinned list"

definition no_pins :: pins where
  "no_pins = \<lparr>pinned_here = [], exiting = False, held = [], views = []\<rparr>"

definition already_pinned :: ps_error where
  "already_pinned = new_error ResourceBusy ''PwrsArrayPinned''
     ''this array is already pinned on this thread, by a view that is still in use, as when one array is passed for two arguments''"

text \<open>\<open>alloc\<close> is what \<open>try_reserve\<close> answers for a list of that length.\<close>

definition list_pin :: "allocator \<Rightarrow> nat \<Rightarrow> pins \<Rightarrow> (ps_error + unit) \<times> pins" where
  "list_pin alloc d s =
     (if exiting s
      then (Inl (new_error InvalidOperation ''PwrsArrayPinned''
                  ''this thread is exiting, and an array cannot be pinned on it''), s)
      else if d \<in> set (pinned_here s) then (Inl already_pinned, s)
      else case alloc (length (pinned_here s) + 1) of
             Some refusal \<Rightarrow> (Inl (error_of_reserve refusal), s)
           | None \<Rightarrow> (Inr (), s\<lparr>pinned_here := pinned_here s @ [d]\<rparr>))"

text \<open>\<open>Vec::swap_remove\<close>.\<close>

definition swap_remove :: "nat \<Rightarrow> 'a list \<Rightarrow> 'a list" where
  "swap_remove i xs = (if i = length xs - 1 then butlast xs else (butlast xs)[i := last xs])"

definition unlist_pin :: "nat \<Rightarrow> pins \<Rightarrow> pins" where
  "unlist_pin d s =
     (if exiting s then s
      else case position (\<lambda>p. p = d) (pinned_here s) of
             Some i \<Rightarrow> s\<lparr>pinned_here := swap_remove i (pinned_here s)\<rparr>
           | None \<Rightarrow> s)"

definition array_unpin :: "raw_pin \<Rightarrow> pins \<Rightarrow> pins" where
  "array_unpin r s = s\<lparr>held := remove1 r (held s)\<rparr>"

text \<open>\<open>pin_tagged\<close>, for elements of \<open>width\<close> bytes.\<close>

definition pin_tagged ::
  "nat \<Rightarrow> allocator \<Rightarrow> ps_error + raw_pin \<Rightarrow> pins \<Rightarrow> (ps_error + pinned) \<times> pins"
where
  "pin_tagged width alloc answer s =
     (case answer of
        Inl e \<Rightarrow> (Inl e, s)
      | Inr r \<Rightarrow>
          let s = s\<lparr>held := held s @ [r]\<rparr>
          in if elem_size r \<noteq> width
             then (Inl (new_error InvalidType ''PwrsPinElementSize''
                     (''array elements are '' @ decimal (elem_size r) @ '' bytes, expected '' @ decimal width)),
                   array_unpin r s)
             else if pin_len r \<noteq> 0
             then (case list_pin alloc (data r) s of
                     (Inl refused, s) \<Rightarrow> (Inl refused, array_unpin r s)
                   | (Inr _, s) \<Rightarrow> (Inr \<lparr>raw = r, listed = True\<rparr>, s))
             else (Inr \<lparr>raw = r, listed = False\<rparr>, s))"

text \<open>
  \<open>pin\<close>: the call is one the host makes, a \<open>Decimal[]\<close> is laid out as the elements are (the verdict of the process),
  and the array's element type is the one asked for, before the host is asked to pin.
\<close>

definition pin_array ::
  "ps_error + unit \<Rightarrow> (ps_error + unit) option \<Rightarrow> ps_error + nat \<Rightarrow> nat \<Rightarrow> nat \<Rightarrow> allocator \<Rightarrow> ps_error + raw_pin
   \<Rightarrow> pins \<Rightarrow> (ps_error + pinned) \<times> pins"
where
  "pin_array called_in decimal_layout element_tag expected width alloc answer s =
     (case and_then called_in (\<lambda>_.
           and_then (case decimal_layout of Some verdict \<Rightarrow> verdict | None \<Rightarrow> Inr ()) (\<lambda>_.
           and_then element_tag (\<lambda>tag.
           if tag \<noteq> expected
           then Inl (new_error InvalidType ''PwrsPinElementType''
                  (''array elements are type tag '' @ decimal tag @ '', expected '' @ decimal expected))
           else Inr ()))) of
        Inl e \<Rightarrow> (Inl e, s)
      | Inr _ \<Rightarrow> pin_tagged width alloc answer s)"

text \<open>\<open>Pinned::from_raw\<close>, which pins a string to read it, and the drop of a view.\<close>

definition from_raw :: "raw_pin \<Rightarrow> pins \<Rightarrow> pinned \<times> pins" where
  "from_raw r s = (\<lparr>raw = r, listed = False\<rparr>, s\<lparr>held := held s @ [r]\<rparr>)"

definition drop_pinned :: "pinned \<Rightarrow> pins \<Rightarrow> pins" where
  "drop_pinned v s = array_unpin (raw v) (if listed v then unlist_pin (data (raw v)) s else s)"

text \<open>What a thread does with its pins, and its exit, which drops the list before the views that are left.\<close>

datatype pin_event = Pins | Refused | Reads_string | Drops | Exits

inductive pin_step :: "(pins, pin_event) steps" where
  pins: "pin_tagged width alloc answer s = (Inr v, s') \<Longrightarrow> pin_step s Pins (s'\<lparr>views := views s' @ [v]\<rparr>)"
| refused: "pin_tagged width alloc answer s = (Inl e, s') \<Longrightarrow> pin_step s Refused s'"
| reads_string: "from_raw r s = (v, s') \<Longrightarrow> pin_step s Reads_string (s'\<lparr>views := views s' @ [v]\<rparr>)"
| drops: "v \<in> set (views s) \<Longrightarrow> pin_step s Drops (drop_pinned v (s\<lparr>views := remove1 v (views s)\<rparr>))"
| exits: "pin_step s Exits (s\<lparr>pinned_here := [], exiting := True\<rparr>)"

inductive_cases pin_stepE: "pin_step s t s'"

section \<open>Copying into a view\<close>

definition PAGE :: nat where "PAGE = 4096"
definition LARGE_COPY :: nat where "LARGE_COPY = push_bit 20 1"

definition copies_down :: "u64 \<Rightarrow> u64 \<Rightarrow> nat \<Rightarrow> bool" where
  "copies_down dst src bytes =
     (let ahead = unat (dst - src) mod PAGE
      in LARGE_COPY \<le> bytes \<and> ahead \<noteq> 0 \<and> ahead < PAGE div 2)"

text \<open>The destination as the copy leaves it, and the offsets of the 16-byte streaming stores it made.\<close>

type_synonym copying = "u8 list \<times> nat list"

text \<open>One byte at a time, from \<open>at\<close> down to \<open>stop\<close>.\<close>

fun down_bytes :: "u8 list \<Rightarrow> nat \<Rightarrow> nat \<Rightarrow> u8 list \<Rightarrow> u8 list" where
  "down_bytes src stop at out =
     (if stop < at then down_bytes src stop (at - 1) (out[at - 1 := src ! (at - 1)]) else out)"

declare down_bytes.simps [simp del]

definition stream_16 :: "u8 list \<Rightarrow> nat \<Rightarrow> copying \<Rightarrow> copying" where
  "stream_16 src at c = (store at (load 16 at src) (fst c), snd c @ [at])"

fun down_64 :: "u8 list \<Rightarrow> nat \<Rightarrow> nat \<Rightarrow> copying \<Rightarrow> nat \<times> copying" where
  "down_64 src head at c =
     (if head + 64 \<le> at
      then let at = at - 64
        in down_64 src head at
             (stream_16 src at (stream_16 src (at + 16) (stream_16 src (at + 32) (stream_16 src (at + 48) c))))
      else (at, c))"

declare down_64.simps [simp del]

fun down_16 :: "u8 list \<Rightarrow> nat \<Rightarrow> nat \<Rightarrow> copying \<Rightarrow> nat \<times> copying" where
  "down_16 src head at c =
     (if head < at then down_16 src head (at - 16) (stream_16 src (at - 16) c) else (at, c))"

declare down_16.simps [simp del]

definition copy_down_streaming :: "u64 \<Rightarrow> u8 list \<Rightarrow> u8 list \<Rightarrow> copying" where
  "copy_down_streaming dst src out =
     (let len = length src;
          head = min (unat ((16 - (dst AND 15)) AND 15)) len;
          end = head + push_bit 4 (drop_bit 4 (len - head));
          out = down_bytes src end len out;
          (at, c) = down_64 src head end (out, []);
          (at, c) = down_16 src head at c
      in (down_bytes src 0 at (fst c), snd c))"

text \<open>\<open>copy_from_slice\<close> panics where the lengths differ, which is \<open>None\<close>.\<close>

definition copy_into :: "u64 \<Rightarrow> u64 \<Rightarrow> u8 list \<Rightarrow> u8 list \<Rightarrow> u8 list option" where
  "copy_into dst src out xs =
     (if length out = length xs \<and> copies_down dst src (length xs) then Some (fst (copy_down_streaming dst xs out))
      else if length out = length xs then Some xs
      else None)"

section \<open>Buffers\<close>

datatype primitive = P_u8 | P_i8 | P_u16 | P_i16 | P_u32 | P_i32 | P_u64 | P_i64 | P_f32 | P_f64 | P_decimal

primrec size_of :: "primitive \<Rightarrow> nat" where
  "size_of P_u8 = 1" | "size_of P_i8 = 1" | "size_of P_u16 = 2" | "size_of P_i16 = 2" | "size_of P_u32 = 4"
| "size_of P_i32 = 4" | "size_of P_u64 = 8" | "size_of P_i64 = 8" | "size_of P_f32 = 4" | "size_of P_f64 = 8"
| "size_of P_decimal = 16"

primrec align_of :: "primitive \<Rightarrow> nat" where
  "align_of P_u8 = 1" | "align_of P_i8 = 1" | "align_of P_u16 = 2" | "align_of P_i16 = 2" | "align_of P_u32 = 4"
| "align_of P_i32 = 4" | "align_of P_u64 = 8" | "align_of P_i64 = 8" | "align_of P_f32 = 4" | "align_of P_f64 = 8"
| "align_of P_decimal = 4"

text \<open>\<open>usize\<close>: eight bytes, aligned to eight.\<close>

definition data_offset :: "primitive \<Rightarrow> nat" where
  "data_offset p = ((8 + align_of p - 1) div align_of p) * align_of p"

record layout =
  bytes_of_layout :: nat
  align_of_layout :: nat

definition checked :: "nat \<Rightarrow> nat option" where
  "checked n = (if n < 2 ^ 64 then Some n else None)"

text \<open>\<open>Layout::from_size_align\<close> for an alignment that is a power of two: rounded up, the size is an \<open>isize\<close>.\<close>

definition layout_error :: string where
  "layout_error = ''invalid parameters to Layout::from_size_align''"

definition from_size_align :: "nat \<Rightarrow> nat \<Rightarrow> string + layout" where
  "from_size_align n a =
     (if n \<le> 2 ^ 63 - a then Inr \<lparr>bytes_of_layout = n, align_of_layout = a\<rparr> else Inl layout_error)"

definition buffer_layout :: "primitive \<Rightarrow> nat \<Rightarrow> ps_error + layout" where
  "buffer_layout p len =
     (let align = max (align_of p) 8
      in case Option.bind (checked (len * size_of p)) (\<lambda>b. checked (b + data_offset p)) of
           None \<Rightarrow> Inl (new_error InvalidArgument ''PwrsBufferSize'' (decimal len @ '' elements do not fit in memory''))
         | Some b \<Rightarrow>
             (case from_size_align b align of
                Inr l \<Rightarrow> Inr l
              | Inl e \<Rightarrow> Inl (new_error InvalidArgument ''PwrsBufferSize'' (decimal len @ '' elements: '' @ e))))"

record ps_memory =
  allocation :: "u8 list"
  memory_len :: nat
  layout_of :: layout
  read_only :: bool
  revocation :: "nat option"

text \<open>A \<open>usize\<close> written at the start of the allocation, little-endian.\<close>

definition usize_bytes :: "nat \<Rightarrow> u8 list" where
  "usize_bytes n = map (qword_byte (of_nat n)) [0..<8]"

definition zeroed :: "allocator \<Rightarrow> primitive \<Rightarrow> nat \<Rightarrow> ps_error + ps_memory" where
  "zeroed alloc p len =
     and_then (buffer_layout p len) (\<lambda>l.
       case alloc (bytes_of_layout l) of
         Some _ \<Rightarrow> Inl (new_error ResourceUnavailable ''PwrsOutOfMemory''
                    (''cannot allocate '' @ decimal (bytes_of_layout l) @ '' bytes''))
       | None \<Rightarrow>
           Inr \<lparr>allocation = store 0 (usize_bytes len) (replicate (bytes_of_layout l) 0), memory_len = len,
                layout_of = l, read_only = False, revocation = None\<rparr>)"

text \<open>\<open>Deref\<close>: the bytes of the elements; \<open>DerefMut\<close> writes them.\<close>

definition memory_slice :: "primitive \<Rightarrow> ps_memory \<Rightarrow> u8 list" where
  "memory_slice p m = load (memory_len m * size_of p) (data_offset p) (allocation m)"

definition set_slice :: "primitive \<Rightarrow> u8 list \<Rightarrow> ps_memory \<Rightarrow> ps_memory" where
  "set_slice p bs m = m\<lparr>allocation := store (data_offset p) bs (allocation m)\<rparr>"

text \<open>
  \<open>PsMemory::from_slice\<close> of the \<open>len\<close> elements whose bytes are \<open>bs\<close>, with the addresses of the two blocks;
  \<open>None\<close> is the panic of a copy between lengths that differ.
\<close>

definition memory_from_slice ::
  "allocator \<Rightarrow> u64 \<Rightarrow> u64 \<Rightarrow> primitive \<Rightarrow> nat \<Rightarrow> u8 list \<Rightarrow> ps_error + ps_memory option"
where
  "memory_from_slice alloc dst src p len bs =
     and_then (zeroed alloc p len) (\<lambda>m.
       Inr (map_option (\<lambda>out. set_slice p out m) (copy_into dst src (memory_slice p m) bs)))"

definition make_read_only :: "ps_memory \<Rightarrow> ps_memory" where
  "make_read_only m = m\<lparr>read_only := True\<rparr>"

definition revocable :: "nat \<Rightarrow> ps_memory \<Rightarrow> ps_memory" where
  "revocable flag m = m\<lparr>revocation := Some flag\<rparr>"

end
