(* ===== verification/Pinned_Laws.thy ===== *)
theory Pinned_Laws
  imports Pinned
begin

unbundle bit_operations_syntax

text \<open>
  A thread never has two listed views of one array, gives back every pin it does not keep, copies exactly, and lays a
  buffer out so that its elements are inside the allocation.
\<close>

section \<open>The list\<close>

definition listed_at :: "pins \<Rightarrow> nat list" where
  "listed_at s = map (\<lambda>v. data (raw v)) (filter listed (views s))"

definition pins_ok :: "pins \<Rightarrow> bool" where
  "pins_ok s \<longleftrightarrow>
     distinct (listed_at s) \<and> (\<not> exiting s \<longrightarrow> mset (pinned_here s) = mset (listed_at s))
     \<and> mset (held s) = mset (map raw (views s))"

lemma mset_swap_remove: "i < length xs \<Longrightarrow> mset (swap_remove i xs) = mset xs - {#xs ! i#}"
proof -
  assume i: "i < length xs"
  then obtain ys y where xs: "xs = ys @ [y]"
    by (cases xs rule: rev_cases) auto
  show ?thesis
    using i by (cases "i = length ys") (auto simp: xs swap_remove_def nth_append mset_update less_Suc_eq)
qed

lemma mset_unlist:
  assumes "\<not> exiting s"
  shows "mset (pinned_here (unlist_pin d s)) = mset (pinned_here s) - {#d#}"
proof (cases "position (\<lambda>p. p = d) (pinned_here s)")
  case None
  then have "d \<notin> set (pinned_here s)"
    by (auto simp: found)
  then show ?thesis
    using assms None by (simp add: unlist_pin_def)
next
  case (Some i)
  then show ?thesis
    using assms position_less [OF Some] position_holds [OF Some] by (simp add: unlist_pin_def mset_swap_remove)
qed

lemma unlist_fields [simp]:
  "exiting (unlist_pin d s) = exiting s" "held (unlist_pin d s) = held s" "views (unlist_pin d s) = views s"
  by (simp_all add: unlist_pin_def split: option.split)

text \<open>A pin that is refused gives the host its pin back; one that is not is held, and listed if it has elements.\<close>

lemma pin_cases:
  assumes "pin_tagged width alloc answer s = (res, s')"
  shows "views s' = views s \<and> exiting s' = exiting s
    \<and> (case res of
         Inl e \<Rightarrow> pinned_here s' = pinned_here s \<and> mset (held s') = mset (held s)
       | Inr v \<Rightarrow> answer = Inr (raw v) \<and> mset (held s') = mset (held s) + {#raw v#}
           \<and> listed v = (pin_len (raw v) \<noteq> 0) \<and> (listed v \<longrightarrow> \<not> exiting s \<and> data (raw v) \<notin> set (pinned_here s))
           \<and> pinned_here s' = pinned_here s @ (if listed v then [data (raw v)] else []))"
  using assms
  by (auto simp: pin_tagged_def list_pin_def array_unpin_def Let_def split: sum.splits if_splits option.splits)

lemma listed_at_simps [simp]:
  "listed_at (s\<lparr>views := views s @ [v]\<rparr>) = listed_at s @ (if listed v then [data (raw v)] else [])"
  "listed_at (s\<lparr>pinned_here := ps, exiting := e\<rparr>) = listed_at s"
  by (simp_all add: listed_at_def)

interpretation pins: protocol no_pins pin_step pins_ok
proof
  show "pins_ok no_pins"
    by (simp add: pins_ok_def no_pins_def listed_at_def)
next
  fix s s' t assume ok: "pins_ok s" and step: "pin_step s t s'"
  show "pins_ok s'"
    using step
  proof cases
    case (pins width alloc answer v s1)
    note p = pin_cases [OF pins(3)]
    have at: "listed_at s' = listed_at s @ (if listed v then [data (raw v)] else [])"
      using p by (simp add: pins(2) listed_at_def)
    have "data (raw v) \<notin> set (listed_at s)" if "listed v"
      using p ok that mset_eq_setD [of "pinned_here s" "listed_at s"] by (auto simp: pins_ok_def)
    then show ?thesis
      using p ok by (auto simp: pins_ok_def at) (auto simp: pins(2))
  next
    case (refused width alloc answer e)
    then show ?thesis
      using pin_cases [OF refused(2)] ok by (simp add: pins_ok_def listed_at_def)
  next
    case (reads_string r v s1)
    then show ?thesis
      using ok by (auto simp: pins_ok_def from_raw_def listed_at_def)
  next
    case (drops v)
    define us where "us = remove1 v (views s)"
    let ?t = "s\<lparr>views := us\<rparr>"
    have vs: "mset (views s) = mset (v # us)"
      using drops(3) by (simp add: us_def)
    have at: "mset (listed_at s) = mset ((if listed v then [data (raw v)] else []) @ listed_at ?t)"
      using vs by (simp add: listed_at_def)
    have d: "distinct ((if listed v then [data (raw v)] else []) @ listed_at ?t)"
      using mset_eq_imp_distinct_iff [OF at] ok by (simp add: pins_ok_def)
    have h: "mset (held s) = add_mset (raw v) (mset (map raw (views ?t)))"
      using vs ok by (simp add: pins_ok_def)
    have "listed_at s' = listed_at ?t" "exiting s' = exiting s" "held s' = remove1 (raw v) (held s)" "views s' = views ?t"
      using drops(2) by (simp_all add: drop_pinned_def array_unpin_def listed_at_def us_def)
    moreover have "mset (pinned_here s') = mset (listed_at ?t)" if "\<not> exiting s"
      using drops(2) ok at that by (auto simp: drop_pinned_def array_unpin_def pins_ok_def mset_unlist us_def [symmetric])
    ultimately show ?thesis
      using d h by (simp add: pins_ok_def)
  next
    case exits
    then show ?thesis
      using ok by (simp add: pins_ok_def)
  qed
qed

text \<open>
  C38: whatever a thread pins, drops and is refused, no two of its live views of arrays with elements are of one array,
  and the host holds exactly the pins of the views that are alive: a refused pin is given back. Until the thread exits, its
  list is the arrays with elements it has views of. Views of an array with no elements are not listed, and may be several.
\<close>

theorem views_apart:
  assumes "reaches pin_step no_pins s"
  shows "distinct (map (\<lambda>v. data (raw v)) (filter listed (views s)))
    \<and> mset (held s) = mset (map raw (views s))
    \<and> (exiting s \<or> set (pinned_here s) = {data (raw v) | v. v \<in> set (views s) \<and> listed v})"
proof -
  have ok: "pins_ok s"
    by (rule pins.inv_reached [OF assms])
  then have "exiting s \<or> set (pinned_here s) = set (listed_at s)"
    by (metis pins_ok_def set_mset_mset)
  moreover have "set (listed_at s) = {data (raw v) | v. v \<in> set (views s) \<and> listed v}"
    by (auto simp: listed_at_def)
  ultimately show ?thesis
    using ok by (simp add: pins_ok_def listed_at_def)
qed

text \<open>
  A thread that is not exiting is given a view of an array the host pinned exactly when the array has no elements or
  none of its live views is of that array; otherwise the error names the array as pinned and the pin is given back.
\<close>

lemma pinned_unless_viewed:
  assumes "reaches pin_step no_pins s" and "\<not> exiting s" and "elem_size r = width" and "\<And>n. alloc n = None"
  shows "fst (pin_tagged width alloc (Inr r) s)
    = (if pin_len r \<noteq> 0 \<and> (\<exists>v \<in> set (views s). listed v \<and> data (raw v) = data r) then Inl already_pinned
       else Inr \<lparr>raw = r, listed = (pin_len r \<noteq> 0)\<rparr>)"
proof -
  have "mset (pinned_here s) = mset (listed_at s)"
    using pins.inv_reached [OF assms(1)] assms(2) by (simp add: pins_ok_def)
  then have "set (pinned_here s) = set (listed_at s)"
    by (rule mset_eq_setD)
  then have "data r \<in> set (pinned_here s) \<longleftrightarrow> (\<exists>v \<in> set (views s). listed v \<and> data (raw v) = data r)"
    by (auto simp: listed_at_def intro: rev_image_eqI)
  then show ?thesis
    using assms(2-4) by (auto simp: pin_tagged_def list_pin_def Let_def)
qed

section \<open>The copy\<close>

text \<open>From an offset to the end, the destination is the source.\<close>

definition copied :: "u8 list \<Rightarrow> nat \<Rightarrow> u8 list \<Rightarrow> bool" where
  "copied src at out \<longleftrightarrow> length out = length src \<and> at \<le> length src \<and> drop at out = drop at src"

lemma copied_bytes: "copied src at out \<Longrightarrow> stop \<le> at \<Longrightarrow> copied src stop (down_bytes src stop at out)"
proof (induction src stop at out rule: down_bytes.induct)
  case (1 src stop at out)
  show ?case
  proof (cases "stop < at")
    case True
    then obtain k where k: "at = Suc k"
      by (cases at) auto
    have "drop k (out[k := src ! k]) = drop k src"
      using "1.prems" True by (simp add: k copied_def Cons_nth_drop_Suc [symmetric])
    then have "copied src (at - 1) (out[at - 1 := src ! (at - 1)])"
      using "1.prems" by (simp add: k copied_def)
    then show ?thesis
      using "1.IH" True by (subst down_bytes.simps) simp
  qed (use 1 in \<open>subst down_bytes.simps, simp\<close>)
qed

text \<open>The streaming stores so far: each of a whole 16-byte block counted from \<open>head\<close>.\<close>

definition streaming :: "u8 list \<Rightarrow> nat \<Rightarrow> nat \<Rightarrow> copying \<Rightarrow> bool" where
  "streaming src head at c \<longleftrightarrow>
     copied src at (fst c) \<and> head \<le> at \<and> 16 dvd (at - head)
     \<and> (\<forall>k \<in> set (snd c). head \<le> k \<and> 16 dvd (k - head) \<and> k + 16 \<le> length src)"

lemma streaming_16:
  assumes "streaming src head (at + 16) c" and "head \<le> at"
  shows "streaming src head at (stream_16 src at c)"
proof -
  have "at + 16 \<le> length src" "length (fst c) = length src" "drop (at + 16) (fst c) = drop (at + 16) src"
    using assms(1) by (auto simp: streaming_def copied_def)
  then have "drop at (store at (load 16 at src) (fst c)) = drop at src"
    using load_rest [of 16 at src] by (simp add: store_def load_def)
  then have "copied src at (fst (stream_16 src at c))"
    using \<open>at + 16 \<le> length src\<close> \<open>length (fst c) = length src\<close>
    by (simp add: copied_def stream_16_def store_def load_def)
  moreover have "16 dvd (at - head)"
    using assms by (auto simp: streaming_def) presburger
  ultimately show ?thesis
    using assms \<open>at + 16 \<le> length src\<close> by (auto simp: streaming_def stream_16_def)
qed

lemma streaming_64: "streaming src head at c \<Longrightarrow> down_64 src head at c = (at', c') \<Longrightarrow> streaming src head at' c'"
proof (induction src head at c rule: down_64.induct)
  case (1 src head at c)
  show ?case
  proof (cases "head + 64 \<le> at")
    case True
    then obtain k where k: "at = k + 64" "head \<le> k"
      by (metis le_add_diff_inverse2 add_le_imp_le_right add_leD2)
    have s3: "streaming src head (k + 48) (stream_16 src (k + 48) c)"
      using streaming_16 [of src head "k + 48" c] 1(2) k by (simp add: add.commute)
    have s2: "streaming src head (k + 32) (stream_16 src (k + 32) (stream_16 src (k + 48) c))"
      using streaming_16 [of src head "k + 32"] s3 k by (simp add: add.commute)
    have s1: "streaming src head (k + 16) (stream_16 src (k + 16) (stream_16 src (k + 32) (stream_16 src (k + 48) c)))"
      using streaming_16 [of src head "k + 16"] s2 k by (simp add: add.commute)
    have "down_64 src head at c = down_64 src head k (stream_16 src k
        (stream_16 src (k + 16) (stream_16 src (k + 32) (stream_16 src (k + 48) c))))"
      using k by (subst down_64.simps) simp
    then show ?thesis
      using 1(1) [OF True refl] 1(3) streaming_16 [OF s1 k(2)] k by simp
  next
    case False
    then have "down_64 src head at c = (at, c)"
      by (subst down_64.simps) simp
    then show ?thesis
      using 1(2,3) by simp
  qed
qed

lemma streaming_down_16:
  "streaming src head at c \<Longrightarrow> down_16 src head at c = (at', c') \<Longrightarrow> streaming src head head c' \<and> at' = head"
proof (induction src head at c rule: down_16.induct)
  case (1 src head at c)
  show ?case
  proof (cases "head < at")
    case True
    then have "16 \<le> at - head"
      using 1(2) by (auto simp: streaming_def dvd_imp_le)
    then have "streaming src head (at - 16) (stream_16 src (at - 16) c)"
      using streaming_16 [of src head "at - 16" c] 1(2) by simp
    moreover have "down_16 src head at c = down_16 src head (at - 16) (stream_16 src (at - 16) c)"
      using True by (subst down_16.simps) simp
    ultimately show ?thesis
      using 1(1) [OF True] 1(3) by simp
  next
    case False
    then show ?thesis
      using 1(2,3) by (subst (asm) down_16.simps) (auto simp: streaming_def)
  qed
qed

lemma low_bits: "unat (x AND 15 :: u64) = unat x mod 16"
proof -
  have low: "x AND 15 = take_bit 4 x"
    by (simp add: take_bit_eq_mask mask_eq_exp_minus_1)
  have "unat (x AND 15) = take_bit 4 (unat x)"
    by (simp only: low unsigned_take_bit_eq)
  then show ?thesis
    by (simp add: take_bit_eq_mod)
qed

lemma gap_divides: "16 dvd (n + (16 - n mod 16) mod 16)" for n :: nat
proof -
  obtain q r where n: "n = 16 * q + r" "r < 16"
    by (metis mod_less_divisor mult_div_mod_eq zero_less_numeral)
  then have "n mod 16 = r"
    by simp
  then have "n + (16 - n mod 16) = 16 * (q + 1)"
    using n by simp
  then have "(n + (16 - n mod 16) mod 16) mod 16 = 0"
    by (metis mod_add_right_eq mod_mult_self1_is_0)
  then show ?thesis
    by (rule mod_eq_0_iff_dvd [THEN iffD1])
qed

lemma gap_aligns: "16 dvd (unat dst + unat ((16 - (dst AND 15)) AND 15 :: u64))"
proof -
  have "dst AND 15 \<le> 16"
    by (simp add: word_le_nat_alt low_bits)
  then have "unat ((16 - (dst AND 15)) AND 15) = (16 - unat dst mod 16) mod 16"
    by (simp add: low_bits unat_sub)
  then show ?thesis
    using gap_divides [of "unat dst"] by simp
qed

lemma streaming_copies:
  assumes "length out = length src" and "copy_down_streaming dst src out = (out', stores)"
  shows "out' = src"
    and "\<And>k. k \<in> set stores \<Longrightarrow> k + 16 \<le> length src \<and> 16 dvd (unat dst + k)"
proof -
  define gap where "gap = unat ((16 - (dst AND 15)) AND 15)"
  define head where "head = min gap (length src)"
  define stop where "stop = head + push_bit 4 (drop_bit 4 (length src - head))"
  obtain at1 c1 at2 c2 where loops: "down_64 src head stop (down_bytes src stop (length src) out, []) = (at1, c1)"
      "down_16 src head at1 c1 = (at2, c2)"
    by (metis surj_pair)
  have out': "out' = down_bytes src 0 at2 (fst c2)" "stores = snd c2"
    using assms(2) loops by (simp_all add: copy_down_streaming_def Let_def gap_def head_def stop_def)
  have "stop \<le> length src" "16 dvd (stop - head)" "head \<le> stop"
    by (simp_all add: stop_def head_def push_bit_eq_mult drop_bit_eq_div)
  then have "streaming src head stop (down_bytes src stop (length src) out, [])"
    using copied_bytes [of src "length src" out stop] assms(1) by (simp add: streaming_def copied_def)
  then have c2: "streaming src head head c2" "at2 = head"
    using streaming_64 loops(1) streaming_down_16 [OF _ loops(2)] by blast+
  then have "copied src 0 out'"
    using copied_bytes [of src head "fst c2" 0] by (simp add: out' streaming_def)
  then show "out' = src"
    by (simp add: copied_def)
  fix k assume "k \<in> set stores"
  then have k: "head \<le> k" "16 dvd (k - head)" "k + 16 \<le> length src"
    using c2(1) by (auto simp: out' streaming_def)
  then have "head = gap"
    by (auto simp: head_def)
  moreover have "16 dvd (unat dst + gap)"
    unfolding gap_def by (rule gap_aligns)
  ultimately show "k + 16 \<le> length src \<and> 16 dvd (unat dst + k)"
    using k by (metis dvd_add le_add_diff_inverse add.assoc)
qed

lemma copies_whole: "length out = length xs \<Longrightarrow> copy_into dst src out xs = Some xs"
  using streaming_copies(1) [of out xs dst] by (cases "copy_down_streaming dst xs out") (simp add: copy_into_def)

text \<open>
  C39: whatever the addresses and the direction, a copy between slices of one length leaves the destination equal to the
  source, and each streaming store is of sixteen bytes inside the destination at an address divisible by sixteen.
\<close>

theorem copies_exactly:
  "copy_into dst src out xs = (if length out = length xs then Some xs else None)
   \<and> list_all (\<lambda>k. k + 16 \<le> length xs \<and> 16 dvd (unat dst + k))
       (if length out = length xs then snd (copy_down_streaming dst xs out) else [])"
  using streaming_copies(2) [where dst = dst and out = out and src = xs, OF _ surjective_pairing]
  by (auto simp: list_all_iff copies_whole) (simp add: copy_into_def)

section \<open>Buffers\<close>

lemma primitive_sizes: "data_offset p = 8" "max (align_of p) 8 = 8" "align_of p dvd 8" "0 < size_of p"
  by (cases p; simp add: data_offset_def)+

lemma buffer_layout_cases:
  "buffer_layout p len
   = (if len * size_of p + 16 \<le> 2 ^ 63 then Inr \<lparr>bytes_of_layout = len * size_of p + 8, align_of_layout = 8\<rparr>
      else Inl (new_error InvalidArgument ''PwrsBufferSize''
             (if len * size_of p + 8 < 2 ^ 64 then decimal len @ '' elements: '' @ layout_error
              else decimal len @ '' elements do not fit in memory'')))"
  by (auto simp: buffer_layout_def primitive_sizes checked_def from_size_align_def Let_def)

lemma length_usize_bytes [simp]: "length (usize_bytes n) = 8"
  by (simp add: usize_bytes_def)

lemma zeroed_slice:
  assumes "zeroed alloc p len = Inr m"
  shows "length (memory_slice p m) = len * size_of p" "length (allocation m) = len * size_of p + 8"
    "take 8 (allocation m) = usize_bytes len" "memory_len m = len"
    "layout_of m = \<lparr>bytes_of_layout = len * size_of p + 8, align_of_layout = 8\<rparr>" "len * size_of p + 16 \<le> 2 ^ 63"
  using assms
  by (auto simp: zeroed_def and_then_Inr buffer_layout_cases memory_slice_def load_def store_def primitive_sizes
      split: if_splits option.splits)

text \<open>
  C40: a buffer made from a slice of \<open>len\<close> elements reads back as the slice. Its allocation is the length and then the
  elements, aligned and inside it, and is no larger than an \<open>isize\<close>; an error is returned only where the layout
  would be larger, or the allocator refuses it.
\<close>

theorem memory_reads_back:
  "case memory_from_slice alloc dst src p len bs of
     Inl e \<Rightarrow> 2 ^ 63 < len * size_of p + 16 \<or> (\<exists>refusal. alloc (len * size_of p + 8) = Some refusal)
   | Inr None \<Rightarrow> length bs \<noteq> len * size_of p
   | Inr (Some m) \<Rightarrow>
       memory_slice p m = bs \<and> take 8 (allocation m) = usize_bytes len \<and> memory_len m = len
       \<and> bytes_of_layout (layout_of m) = length (allocation m)
       \<and> length (allocation m) = data_offset p + len * size_of p \<and> length (allocation m) < 2 ^ 63
       \<and> align_of p dvd data_offset p \<and> align_of p dvd align_of_layout (layout_of m)"
proof (cases "zeroed alloc p len")
  case (Inl e)
  then show ?thesis
    by (auto simp: memory_from_slice_def zeroed_def buffer_layout_cases split: if_splits option.splits)
next
  case (Inr m)
  note z = zeroed_slice [OF Inr]
  show ?thesis
  proof (cases "length bs = len * size_of p")
    case True
    then have "memory_from_slice alloc dst src p len bs = Inr (Some (set_slice p bs m))"
      using copies_whole [of "memory_slice p m" bs] z(1) by (simp add: memory_from_slice_def Inr)
    moreover have "memory_slice p (set_slice p bs m) = bs" "take 8 (allocation (set_slice p bs m)) = usize_bytes len"
        "length (allocation (set_slice p bs m)) = length (allocation m)"
      using True z by (simp_all add: set_slice_def memory_slice_def load_def store_def primitive_sizes)
    ultimately show ?thesis
      using z by (simp add: primitive_sizes set_slice_def)
  next
    case False
    then show ?thesis
      using z(1) by (simp add: memory_from_slice_def Inr copy_into_def)
  qed
qed

section \<open>A thread that pins one array twice\<close>

definition two_pins :: pins where
  "two_pins = no_pins\<lparr>pinned_here := [4096], held := [\<lparr>data = 4096, pin_len = 3, elem_size = 4, pin = 1\<rparr>],
     views := [\<lparr>raw = \<lparr>data = 4096, pin_len = 3, elem_size = 4, pin = 1\<rparr>, listed = True\<rparr>]\<rparr>"

lemma two_pins_reached: "reaches pin_step no_pins two_pins"
proof -
  let ?r = "\<lparr>data = 4096, pin_len = 3, elem_size = 4, pin = 1\<rparr>"
  have "pin_tagged 4 (\<lambda>_. None) (Inr ?r) no_pins
      = (Inr \<lparr>raw = ?r, listed = True\<rparr>, no_pins\<lparr>pinned_here := [4096], held := [?r]\<rparr>)"
    by (simp add: pin_tagged_def list_pin_def no_pins_def)
  then have "pin_step no_pins Pins two_pins"
    using pin_step.pins by (fastforce simp: two_pins_def no_pins_def)
  then show ?thesis
    using reaches_start by (rule reaches_step [rotated])
qed

theorem views_apart_witness:
  "distinct (map (\<lambda>v. data (raw v)) (filter listed (views two_pins))) \<and> views two_pins \<noteq> []"
  using views_apart [OF two_pins_reached] by (simp add: two_pins_def)

lemma pinned_unless_viewed_witness:
  "fst (pin_tagged 4 (\<lambda>_. None) (Inr \<lparr>data = 4096, pin_len = 3, elem_size = 4, pin = 2\<rparr>) two_pins) = Inl already_pinned"
  using pinned_unless_viewed [OF two_pins_reached, of "\<lparr>data = 4096, pin_len = 3, elem_size = 4, pin = 2\<rparr>" 4 "\<lambda>_. None"]
  by (simp add: two_pins_def no_pins_def)

end
