(* ===== verification/Checksums.thy ===== *)
theory Checksums
  imports Cpu_Features Gf2_Sums
begin

unbundle bit_operations_syntax

text \<open>
  \<open>crates/pwrs/src/simd/checksums.rs\<close>: CRC-32C and CRC-32 with their tables, the constants of the folding by carry-less
  multiplication, the body of each tier and the choice among them. A 128-bit register is a \<open>128 word\<close>, a wider one
  the list of its 128-bit lanes.
\<close>

type_synonym u128 = "128 word"

section \<open>Tables and scalar forms\<close>

definition POLY :: u32 where
  "POLY = 0x82F63B78"

definition POLY_IEEE :: u32 where
  "POLY_IEEE = 0xEDB88320"

definition table_step :: "u32 \<Rightarrow> u32 \<Rightarrow> u32" where
  "table_step poly crc = (if crc AND 1 = 1 then drop_bit 1 crc XOR poly else drop_bit 1 crc)"

definition table :: "u32 \<Rightarrow> u32 list" where
  "table poly = map (\<lambda>i. (table_step poly ^^ 8) (of_nat i)) [0..<256]"

definition TABLE :: "u32 list" where
  "TABLE = table POLY"

definition TABLE_IEEE :: "u32 list" where
  "TABLE_IEEE = table POLY_IEEE"

definition update_scalar :: "u32 \<Rightarrow> u8 list \<Rightarrow> u32" where
  "update_scalar state data =
     foldl (\<lambda>state b. drop_bit 8 state XOR TABLE ! unat ((state XOR ucast b) AND 0xFF)) state data"

definition update_scalar_ieee :: "u32 \<Rightarrow> u8 list \<Rightarrow> u32" where
  "update_scalar_ieee state data =
     foldl (\<lambda>state b. drop_bit 8 state XOR TABLE_IEEE ! unat ((state XOR ucast b) AND 0xFF)) state data"

definition crc32c_append_scalar :: "u32 \<Rightarrow> u8 list \<Rightarrow> u32" where
  "crc32c_append_scalar crc data = NOT (update_scalar (NOT crc) data)"

definition crc32_append_scalar :: "u32 \<Rightarrow> u8 list \<Rightarrow> u32" where
  "crc32_append_scalar crc data = NOT (update_scalar_ieee (NOT crc) data)"

section \<open>Constants of the folding\<close>

definition P_IEEE :: u64 where
  "P_IEEE = 0x104C11DB7"

definition xpow_step :: "u64 \<Rightarrow> u64" where
  "xpow_step r = (let r = push_bit 1 r in if r AND push_bit 32 1 \<noteq> 0 then r XOR P_IEEE else r)"

definition xpow_mod :: "nat \<Rightarrow> u32" where
  "xpow_mod n = ucast ((xpow_step ^^ n) 1)"

definition fold_k :: "nat \<Rightarrow> u64" where
  "fold_k n = push_bit 1 (ucast (word_reverse (xpow_mod n)))"

definition fold_pair :: "nat \<Rightarrow> u64 \<times> u64" where
  "fold_pair distance = (fold_k (distance + 32), fold_k (distance - 32))"

definition reflect33 :: "u64 \<Rightarrow> u64" where
  "reflect33 v = drop_bit 31 (word_reverse v) AND 0x1FFFFFFFF"

definition barrett_step :: "u128 \<times> u64 \<Rightarrow> nat \<Rightarrow> u128 \<times> u64" where
  "barrett_step = (\<lambda>(rem, q) i.
     if rem AND push_bit (32 + i) 1 \<noteq> 0 then (rem XOR push_bit i (ucast P_IEEE), q OR push_bit i 1) else (rem, q))"

definition barrett_mu :: u64 where
  "barrett_mu = snd (foldl barrett_step (push_bit 64 1, 0) (rev [0..<33]))"

definition FOLD_4X128 :: "u64 \<times> u64" where
  "FOLD_4X128 = fold_pair (4 * 128)"

definition FOLD_1X128 :: "u64 \<times> u64" where
  "FOLD_1X128 = fold_pair 128"

definition K_64 :: u64 where
  "K_64 = fold_k 64"

definition P_REFLECTED :: u64 where
  "P_REFLECTED = reflect33 P_IEEE"

definition MU_REFLECTED :: u64 where
  "MU_REFLECTED = reflect33 barrett_mu"

definition LOW32 :: u128 where
  "LOW32 = 0x00000000FFFFFFFF00000000FFFFFFFF"

definition reduce_128 :: "u128 \<Rightarrow> (u64 \<Rightarrow> u64 \<Rightarrow> u128) \<Rightarrow> u32" where
  "reduce_128 x clmul =
     (let x = drop_bit 64 x XOR clmul (ucast x) (snd FOLD_1X128);
          x = drop_bit 32 x XOR clmul (ucast (x AND LOW32)) K_64;
          t = clmul (ucast (x AND LOW32)) MU_REFLECTED AND LOW32;
          x = x XOR clmul (ucast t) P_REFLECTED
      in ucast (drop_bit 32 x))"

section \<open>Instructions\<close>

text \<open>The polynomial product of two quadwords: PMULL, and with an operand of each register PCLMULQDQ.\<close>

definition vmull_p64 :: "u64 \<Rightarrow> u64 \<Rightarrow> u128" where
  "vmull_p64 a b = foldl (\<lambda>r i. if bit a i then r XOR push_bit i (ucast b) else r) 0 [0..<64]"

definition low_half :: "u128 \<Rightarrow> u64" where
  "low_half x = ucast x"

definition high_half :: "u128 \<Rightarrow> u64" where
  "high_half x = ucast (drop_bit 64 x)"

definition clmulepi64_00 :: "u128 \<Rightarrow> u128 \<Rightarrow> u128" where
  "clmulepi64_00 x k = vmull_p64 (low_half x) (low_half k)"

definition clmulepi64_11 :: "u128 \<Rightarrow> u128 \<Rightarrow> u128" where
  "clmulepi64_11 x k = vmull_p64 (high_half x) (high_half k)"

definition set_epi64x :: "u64 \<Rightarrow> u64 \<Rightarrow> u128" where
  "set_epi64x hi lo = push_bit 64 (ucast hi) OR ucast lo"

text \<open>
  The CRC32 instruction as Intel's manual describes it, for a source of any width: the reflected source and register
  aligned, the remainder of the division by \<open>0x11EDC6F41\<close>, reflected. AArch64's CRC32C instructions are the same.
\<close>

definition mod2_step :: "96 word \<Rightarrow> nat \<Rightarrow> 96 word" where
  "mod2_step d i = (if bit d i then d XOR push_bit (i - 32) 0x11EDC6F41 else d)"

definition crc32_instruction :: "u32 \<Rightarrow> 'a :: len word \<Rightarrow> u32" where
  "crc32_instruction crc src =
     word_reverse (ucast (foldl mod2_step
       (push_bit 32 (ucast (word_reverse src)) XOR push_bit LENGTH('a) (ucast (word_reverse crc)))
       (rev [32..<32 + LENGTH('a)])))"

text \<open>Little-endian loads.\<close>

fun le_word :: "u8 list \<Rightarrow> 'a :: len word" where
  "le_word [] = 0"
| "le_word (b # v) = ucast b OR push_bit 8 (le_word v)"

definition load :: "u8 list \<Rightarrow> nat \<Rightarrow> u128" where
  "load data at = le_word (take 16 (drop at data))"

section \<open>CRC-32C\<close>

text \<open>The loop over \<open>as_chunks::<8>\<close>: what it makes of the words, and the bytes after them.\<close>

function words_loop :: "('s \<Rightarrow> u64 \<Rightarrow> 's) \<Rightarrow> 's \<Rightarrow> u8 list \<Rightarrow> 's \<times> u8 list" where
  "words_loop f crc data =
     (if 8 \<le> length data then words_loop f (f crc (le_word (take 8 data))) (drop 8 data) else (crc, data))"
  by auto
termination by (relation "measure (\<lambda>(f, crc, data). length data)") auto

declare words_loop.simps [simp del]

definition crc32_u64 :: "u64 \<Rightarrow> u64 \<Rightarrow> u64" where
  "crc32_u64 crc v = ucast (crc32_instruction (ucast crc) v)"

definition update_sse42 :: "u32 \<Rightarrow> u8 list \<Rightarrow> u32" where
  "update_sse42 state data =
     (let (crc, rest) = words_loop crc32_u64 (ucast state) data
      in foldl crc32_instruction (ucast crc) rest)"

definition update_crc :: "u32 \<Rightarrow> u8 list \<Rightarrow> u32" where
  "update_crc state data =
     (let (crc, rest) = words_loop crc32_instruction state data in foldl crc32_instruction crc rest)"

definition tiered_update :: "target \<Rightarrow> machine \<Rightarrow> string option \<Rightarrow> u32 \<Rightarrow> u8 list \<Rightarrow> u32" where
  "tiered_update t m env state data =
     (case t_arch t of
        Arch_x86_64 \<Rightarrow> if V2 \<le> cpu_level t m env then update_sse42 state data else update_scalar state data
      | Arch_aarch64 \<Rightarrow> if arm_has t m env A_Crc then update_crc state data else update_scalar state data
      | Arch_other \<Rightarrow> update_scalar state data)"

definition crc32c_append :: "target \<Rightarrow> machine \<Rightarrow> string option \<Rightarrow> u32 \<Rightarrow> u8 list \<Rightarrow> u32" where
  "crc32c_append t m env crc data = NOT (tiered_update t m env (NOT crc) data)"

definition crc32c :: "target \<Rightarrow> machine \<Rightarrow> string option \<Rightarrow> u8 list \<Rightarrow> u32" where
  "crc32c t m env data = crc32c_append t m env 0 data"

section \<open>Folding\<close>

text \<open>
  The loop of every body that folds four registers, over the body's \<open>fold\<close>, its pair, its load and the width of a
  register, and the loop that takes one register's width at a time. No width is 0; the guards name it for termination.
\<close>

function quad_loop ::
    "('v \<Rightarrow> 'v \<Rightarrow> 'v \<Rightarrow> 'v) \<Rightarrow> 'v \<Rightarrow> (u8 list \<Rightarrow> nat \<Rightarrow> 'v) \<Rightarrow> nat \<Rightarrow> 'v \<times> 'v \<times> 'v \<times> 'v \<Rightarrow> u8 list \<Rightarrow> nat
     \<Rightarrow> ('v \<times> 'v \<times> 'v \<times> 'v) \<times> nat" where
  "quad_loop f k4 ld w (x0, x1, x2, x3) data at =
     (if 0 < w \<and> 4 * w \<le> length data - at
      then quad_loop f k4 ld w
             (f x0 k4 (ld data at), f x1 k4 (ld data (at + w)), f x2 k4 (ld data (at + 2 * w)), f x3 k4 (ld data (at + 3 * w)))
             data (at + 4 * w)
      else ((x0, x1, x2, x3), at))"
  by pat_completeness auto
termination by (relation "measure (\<lambda>(f, k4, ld, w, xs, data, at). length data - at)") auto

function one_loop ::
    "('v \<Rightarrow> 'v \<Rightarrow> 'v \<Rightarrow> 'v) \<Rightarrow> 'v \<Rightarrow> (u8 list \<Rightarrow> nat \<Rightarrow> 'v) \<Rightarrow> nat \<Rightarrow> 'v \<Rightarrow> u8 list \<Rightarrow> nat \<Rightarrow> 'v \<times> nat" where
  "one_loop f k ld w x data at =
     (if 0 < w \<and> w \<le> length data - at then one_loop f k ld w (f x k (ld data at)) data (at + w) else (x, at))"
  by auto
termination by (relation "measure (\<lambda>(f, k, ld, w, x, data, at). length data - at)") auto

declare quad_loop.simps [simp del] one_loop.simps [simp del]

section \<open>PCLMULQDQ\<close>

definition pair :: "u64 \<times> u64 \<Rightarrow> u128" where
  "pair k = set_epi64x (snd k) (fst k)"

definition fold_next :: "u128 \<Rightarrow> u128 \<Rightarrow> u128 \<Rightarrow> u128" where
  "fold_next x k v = (clmulepi64_00 x k XOR clmulepi64_11 x k) XOR v"

text \<open>The two quadwords of a register, as one \<open>u128\<close>.\<close>

definition extracted :: "u128 \<Rightarrow> u128" where
  "extracted p = ucast (low_half p) OR push_bit 64 (ucast (high_half p))"

definition clmul :: "u64 \<Rightarrow> u64 \<Rightarrow> u128" where
  "clmul a b = extracted (clmulepi64_00 (set_epi64x 0 a) (set_epi64x 0 b))"

definition finish :: "u128 \<Rightarrow> u8 list \<Rightarrow> nat \<Rightarrow> u32" where
  "finish x data at =
     (let (x, at) = one_loop fold_next (pair FOLD_1X128) load 16 x data at
      in update_scalar_ieee (reduce_128 (extracted x) clmul) (drop at data))"

definition fold_128 :: "u32 \<Rightarrow> u8 list \<Rightarrow> u32" where
  "fold_128 state data =
     (let x0 = load data 0 XOR ucast state; x1 = load data 16; x2 = load data 32; x3 = load data 48;
          ((x0, x1, x2, x3), at) = quad_loop fold_next (pair FOLD_4X128) load 16 (x0, x1, x2, x3) data 64;
          k1 = pair FOLD_1X128
      in finish (fold_next (fold_next (fold_next x0 k1 x1) k1 x2) k1 x3) data at)"

definition update_pclmul :: "u32 \<Rightarrow> u8 list \<Rightarrow> u32" where
  "update_pclmul state data = (if length data < 64 then update_scalar_ieee state data else fold_128 state data)"

section \<open>VPCLMULQDQ\<close>

definition FOLD_4X256 :: "u64 \<times> u64" where
  "FOLD_4X256 = fold_pair (4 * 256)"

definition FOLD_1X256 :: "u64 \<times> u64" where
  "FOLD_1X256 = fold_pair 256"

definition FOLD_4X512 :: "u64 \<times> u64" where
  "FOLD_4X512 = fold_pair (4 * 512)"

definition FOLD_1X512 :: "u64 \<times> u64" where
  "FOLD_1X512 = fold_pair 512"

definition FOLD_3X128 :: "u64 \<times> u64" where
  "FOLD_3X128 = fold_pair (3 * 128)"

definition xor_lanes :: "u128 list \<Rightarrow> u128 list \<Rightarrow> u128 list" where
  "xor_lanes a b = map2 (XOR) a b"

definition pair256 :: "u64 \<times> u64 \<Rightarrow> u128 list" where
  "pair256 k = replicate 2 (pair k)"

definition fold256 :: "u128 list \<Rightarrow> u128 list \<Rightarrow> u128 list \<Rightarrow> u128 list" where
  "fold256 x k v = xor_lanes (xor_lanes (map2 clmulepi64_00 x k) (map2 clmulepi64_11 x k)) v"

definition load256 :: "u8 list \<Rightarrow> nat \<Rightarrow> u128 list" where
  "load256 data at = [load data at, load data (at + 16)]"

definition update_vpclmul256 :: "u32 \<Rightarrow> u8 list \<Rightarrow> u32" where
  "update_vpclmul256 state data =
     (if length data < 128 then
        if length data < 64 then update_scalar_ieee state data else fold_128 state data
      else
        (let y0 = xor_lanes (load256 data 0) [ucast state, 0];
             y1 = load256 data 32; y2 = load256 data 64; y3 = load256 data 96;
             ((y0, y1, y2, y3), at) = quad_loop fold256 (pair256 FOLD_4X256) load256 32 (y0, y1, y2, y3) data 128;
             k1 = pair256 FOLD_1X256;
             (y, at) = one_loop fold256 k1 load256 32 (fold256 (fold256 (fold256 y0 k1 y1) k1 y2) k1 y3) data at;
             x = fold_next (y ! 0) (pair FOLD_1X128) (y ! 1)
         in finish x data at))"

definition pair512 :: "u64 \<times> u64 \<Rightarrow> u128 list" where
  "pair512 k = replicate 4 (pair k)"

definition fold512 :: "u128 list \<Rightarrow> u128 list \<Rightarrow> u128 list \<Rightarrow> u128 list" where
  "fold512 x k v = xor_lanes (xor_lanes (map2 clmulepi64_00 x k) (map2 clmulepi64_11 x k)) v"

definition load512 :: "u8 list \<Rightarrow> nat \<Rightarrow> u128 list" where
  "load512 data at = [load data at, load data (at + 16), load data (at + 32), load data (at + 48)]"

definition update_vpclmul512 :: "u32 \<Rightarrow> u8 list \<Rightarrow> u32" where
  "update_vpclmul512 state data =
     (if length data < 256 then
        if length data < 64 then update_scalar_ieee state data else fold_128 state data
      else
        (let z0 = xor_lanes (load512 data 0) [ucast state, 0, 0, 0];
             z1 = load512 data 64; z2 = load512 data 128; z3 = load512 data 192;
             ((z0, z1, z2, z3), at) = quad_loop fold512 (pair512 FOLD_4X512) load512 64 (z0, z1, z2, z3) data 256;
             k1 = pair512 FOLD_1X512;
             (z, at) = one_loop fold512 k1 load512 64 (fold512 (fold512 (fold512 z0 k1 z1) k1 z2) k1 z3) data at;
             x = (fold_next (z ! 0) (pair FOLD_3X128) 0 XOR fold_next (z ! 1) (pair FOLD_1X256) 0)
                 XOR fold_next (z ! 2) (pair FOLD_1X128) (z ! 3)
         in finish x data at))"

section \<open>PMULL\<close>

definition arm_pair :: "u64 \<times> u64 \<Rightarrow> u128" where
  "arm_pair k = push_bit 64 (ucast (snd k)) OR ucast (fst k)"

definition arm_fold :: "u128 \<Rightarrow> u128 \<Rightarrow> u128 \<Rightarrow> u128" where
  "arm_fold x k v =
     (let low = vmull_p64 (low_half x) (low_half k); high = vmull_p64 (high_half x) (high_half k)
      in (low XOR high) XOR v)"

definition update_pmull :: "u32 \<Rightarrow> u8 list \<Rightarrow> u32" where
  "update_pmull state data =
     (if length data < 64 then update_scalar_ieee state data
      else
        (let x0 = load data 0 XOR ucast state; x1 = load data 16; x2 = load data 32; x3 = load data 48;
             ((x0, x1, x2, x3), at) = quad_loop arm_fold (arm_pair FOLD_4X128) load 16 (x0, x1, x2, x3) data 64;
             k1 = arm_pair FOLD_1X128;
             (x, at) = one_loop arm_fold k1 load 16 (arm_fold (arm_fold (arm_fold x0 k1 x1) k1 x2) k1 x3) data at
         in update_scalar_ieee (reduce_128 x vmull_p64) (drop at data)))"

section \<open>CRC-32\<close>

definition ieee_update :: "target \<Rightarrow> machine \<Rightarrow> string option \<Rightarrow> u32 \<Rightarrow> u8 list \<Rightarrow> u32" where
  "ieee_update t m env state data =
     (case t_arch t of
        Arch_x86_64 \<Rightarrow>
          (let level = cpu_level t m env
           in if V4 \<le> level \<and> has t m env Vpclmulqdq then update_vpclmul512 state data
              else if V3 \<le> level \<and> has t m env Vpclmulqdq then update_vpclmul256 state data
              else if V2 \<le> level \<and> has t m env Pclmulqdq then update_pclmul state data
              else update_scalar_ieee state data)
      | Arch_aarch64 \<Rightarrow> if arm_has t m env A_Aes then update_pmull state data else update_scalar_ieee state data
      | Arch_other \<Rightarrow> update_scalar_ieee state data)"

definition crc32_append :: "target \<Rightarrow> machine \<Rightarrow> string option \<Rightarrow> u32 \<Rightarrow> u8 list \<Rightarrow> u32" where
  "crc32_append t m env crc data = NOT (ieee_update t m env (NOT crc) data)"

definition crc32 :: "target \<Rightarrow> machine \<Rightarrow> string option \<Rightarrow> u8 list \<Rightarrow> u32" where
  "crc32 t m env data = crc32_append t m env 0 data"

end
