(* ===== verification/Crc_Register.thy ===== *)
theory Crc_Register
  imports Checksums
begin

unbundle bit_operations_syntax

text \<open>
  The shift register behind both checksums. A step of the register is linear, so a word's or a slice's effect is a sum of
  powers of the step; from this follow the table's byte, the CRC32 instruction and the folding.
\<close>

section \<open>Residues\<close>

text \<open>
  The register after \<open>m\<close> steps of which the first ones took in the bits of a word, lowest first; the residue of a
  polynomial whose coefficients are the bits of a word; and the register after the bytes of a slice, one bit at a time.
\<close>

definition bits_crc :: "(u32 \<Rightarrow> u32) \<Rightarrow> nat \<Rightarrow> 'a :: len word \<Rightarrow> u32" where
  "bits_crc step m w = weigh (\<lambda>i. (step ^^ (m - i)) 1) w"

definition top_bit :: u32 where
  "top_bit = push_bit 31 1"

definition poly_crc :: "(u32 \<Rightarrow> u32) \<Rightarrow> 'a :: len word \<Rightarrow> u32" where
  "poly_crc step w = weigh (\<lambda>i. (step ^^ i) top_bit) w"

definition byte_step :: "(u32 \<Rightarrow> u32) \<Rightarrow> u32 \<Rightarrow> u8 \<Rightarrow> u32" where
  "byte_step step s b = (step ^^ 8) (s XOR ucast b)"

definition crc_bytes :: "(u32 \<Rightarrow> u32) \<Rightarrow> u32 \<Rightarrow> u8 list \<Rightarrow> u32" where
  "crc_bytes step s v = foldl (byte_step step) s v"

lemma crc_bytes_simps [simp]:
  "crc_bytes step s [] = s" "crc_bytes step s (b # v) = crc_bytes step (byte_step step s b) v"
  "crc_bytes step s (u @ v) = crc_bytes step (crc_bytes step s u) v"
  by (simp_all add: crc_bytes_def)

lemma bits_crc_xor: "bits_crc step m (a XOR b) = bits_crc step m a XOR bits_crc step m b"
  by (simp add: bits_crc_def weigh_xor)

lemma bits_crc_zero [simp]: "bits_crc step m 0 = 0"
  by (simp add: bits_crc_def)

lemma bits_crc_push:
  assumes "\<And>i. bit w i \<Longrightarrow> k + i < LENGTH('a)"
  shows "bits_crc step m (push_bit k w) = bits_crc step (m - k) (w :: 'a :: len word)"
  using weigh_push_bit [of w k "\<lambda>i. (step ^^ (m - i)) 1"] assms by (simp add: bits_crc_def)

lemma bits_crc_ucast:
  assumes "\<And>i. bit w i \<Longrightarrow> i < LENGTH('b)"
  shows "bits_crc step m (ucast w :: 'b :: len word) = bits_crc step m (w :: 'a :: len word)"
  unfolding bits_crc_def by (rule weigh_ucast) (rule assms)

lemma bits_crc_split:
  "bits_crc step m w = bits_crc step m (take_bit k w) XOR bits_crc step (m - k) (drop_bit k w)"
  unfolding bits_crc_def by (subst weigh_split [of _ w k]) simp

lemma weigh_reverse:
  "weigh c (word_reverse w) = weigh (\<lambda>i. c (LENGTH('a) - Suc i)) (w :: 'a :: len word)"
proof (rule additive_eq [of "\<lambda>w. weigh c (word_reverse w)"])
  have "word_reverse (a XOR b) = word_reverse a XOR word_reverse b" for a b :: "'a word"
    by (rule bit_word_eqI) (simp add: bit_simps)
  then show "additive (\<lambda>w :: 'a word. weigh c (word_reverse w))"
    by (simp add: additive_def weigh_xor)
  show "additive (weigh (\<lambda>i. c (LENGTH('a) - Suc i)))"
    by (rule additive_weigh)
  fix i assume i: "i < LENGTH('a)"
  have "word_reverse (push_bit i 1 :: 'a word) = push_bit (LENGTH('a) - Suc i) 1"
    by (rule bit_word_eqI) (use i in \<open>auto simp: bit_simps\<close>)
  then show "weigh c (word_reverse (push_bit i 1 :: 'a word))
      = weigh (\<lambda>i. c (LENGTH('a) - Suc i)) (push_bit i 1 :: 'a word)"
    using i by (simp only: weigh_bit) simp
qed

section \<open>The register\<close>

locale shift_register =
  fixes step :: "u32 \<Rightarrow> u32"
  assumes additive_step: "additive step"
    and step_even: "\<not> bit c 0 \<Longrightarrow> step c = drop_bit 1 c"
    and step_kernel: "step c = 0 \<Longrightarrow> c = 0"
begin

lemma additive_steps: "additive (step ^^ n)"
  by (rule additive_funpow [OF additive_step])

lemmas steps_xor = additiveD [OF additive_steps]
lemmas steps_zero [simp] = additive_zero [OF additive_steps]

lemma steps_weigh: "(step ^^ n) (weigh c w) = weigh (\<lambda>i. (step ^^ n) (c i)) w"
  by (rule additive_of_weigh [OF additive_steps])

lemma steps_steps: "(step ^^ m) ((step ^^ n) c) = (step ^^ (m + n)) c"
  by (simp add: funpow_add)

lemma steps_inject: "(step ^^ n) a = (step ^^ n) b \<Longrightarrow> a = b"
proof (induction n)
  case (Suc n)
  then have "step ((step ^^ n) a XOR (step ^^ n) b) = 0"
    by (simp add: additiveD [OF additive_step])
  then have "(step ^^ n) a XOR (step ^^ n) b = 0"
    by (rule step_kernel)
  then have "(step ^^ n) a = (step ^^ n) b"
    by (rule xor_zero_eq)
  then show ?case
    by (rule Suc.IH)
qed simp

text \<open>While the bits that leave are clear, the register shifts.\<close>

lemma steps_push:
  assumes "\<And>i. bit c i \<Longrightarrow> n + i < 32"
  shows "(step ^^ n) (push_bit n c) = c"
  using assms
proof (induction n)
  case (Suc n)
  have "step (push_bit (Suc n) c) = drop_bit 1 (push_bit (Suc n) c)"
    by (rule step_even) (simp only: bit_push_bit_iff, simp)
  also have "\<dots> = push_bit n c"
    by (rule bit_word_eqI) (use Suc.prems in \<open>fastforce simp: bit_simps simp del: push_bit_Suc\<close>)
  finally have "step (push_bit (Suc n) c) = push_bit n c" .
  moreover have "(step ^^ n) (push_bit n c) = c"
    by (rule Suc.IH) (use Suc.prems in fastforce)
  ultimately show ?case
    by (simp only: funpow_Suc_right o_apply)
qed simp

lemma steps_power: "i \<le> n \<Longrightarrow> i < 32 \<Longrightarrow> (step ^^ n) (push_bit i 1) = (step ^^ (n - i)) 1"
proof -
  assume i: "i \<le> n" "i < 32"
  have "(step ^^ i) (push_bit i 1) = 1"
    by (rule steps_push) (use i(2) in \<open>simp add: bit_1_iff\<close>)
  moreover have "(step ^^ n) (push_bit i 1) = (step ^^ (n - i)) ((step ^^ i) (push_bit i 1))"
    using i(1) by (simp only: steps_steps) simp
  ultimately show ?thesis
    by simp
qed

lemma bits_crc_later:
  assumes "\<And>i. bit w i \<Longrightarrow> i \<le> m"
  shows "bits_crc step (m + d) w = (step ^^ d) (bits_crc step m w)"
  unfolding bits_crc_def steps_weigh
  by (rule weigh_cong) (use assms in \<open>simp only: steps_steps\<close>, simp add: add.commute)

lemma bits_crc_word:
  fixes w :: "'a :: len word"
  assumes "LENGTH('a) \<le> 32" and "LENGTH('a) \<le> Suc m"
  shows "bits_crc step m w = (step ^^ m) (ucast w)"
proof (rule additive_eq [of "bits_crc step m"])
  show "additive (bits_crc step m :: 'a word \<Rightarrow> u32)"
    by (simp add: additive_def bits_crc_xor)
  show "additive (\<lambda>w :: 'a word. (step ^^ m) (ucast w))"
    by (simp add: additive_def steps_xor unsigned_xor_eq)
  fix i assume i: "i < LENGTH('a)"
  have "(ucast (push_bit i 1 :: 'a word) :: u32) = push_bit i 1"
    by (rule bit_word_eqI) (use i assms(1) in \<open>auto simp: bit_simps\<close>)
  then show "bits_crc step m (push_bit i 1 :: 'a word) = (step ^^ m) (ucast (push_bit i 1 :: 'a word))"
    using i assms by (simp only: bits_crc_def weigh_bit steps_power if_True)
qed

section \<open>Bytes\<close>

lemma byte_lookup:
  "byte_step step s b = drop_bit 8 s XOR (step ^^ 8) ((s XOR ucast b) AND 0xFF)"
proof -
  let ?c = "s XOR ucast b"
  have "?c = push_bit 8 (drop_bit 8 s) XOR (?c AND 0xFF)"
  proof (rule bit_word_eqI)
    fix n assume "n < LENGTH(32)"
    moreover have low: "?c AND 0xFF = take_bit 8 ?c"
      by (simp add: take_bit_eq_mask mask_eq_exp_minus_1)
    ultimately show "bit ?c n = bit (push_bit 8 (drop_bit 8 s) XOR (?c AND 0xFF)) n"
      unfolding low by (auto simp: bit_simps dest: bit_imp_le_length)
  qed
  then have "byte_step step s b = (step ^^ 8) (push_bit 8 (drop_bit 8 s)) XOR (step ^^ 8) (?c AND 0xFF)"
    unfolding byte_step_def by (metis steps_xor)
  moreover have "(step ^^ 8) (push_bit 8 (drop_bit 8 s)) = drop_bit 8 s"
    by (rule steps_push) (use bit_imp_le_length in \<open>fastforce simp: bit_drop_bit_eq\<close>)
  ultimately show ?thesis
    by simp
qed

lemma crc_bytes_from: "crc_bytes step s v = (step ^^ (8 * length v)) s XOR crc_bytes step 0 v"
proof (induction v arbitrary: s)
  case (Cons b v)
  have "crc_bytes step s (b # v) = (step ^^ (8 * length v)) (byte_step step s b) XOR crc_bytes step 0 v"
    by (simp add: Cons.IH [of "byte_step step s b"])
  also have "(step ^^ (8 * length v)) (byte_step step s b)
      = (step ^^ (8 * length v + 8)) s XOR (step ^^ (8 * length v)) (byte_step step 0 b)"
    by (simp only: byte_step_def steps_xor steps_steps xor.left_neutral)
  finally show ?case
    using Cons.IH [of "byte_step step 0 b"] by (simp add: add.commute ac_simps)
qed simp

lemma bits_le_word: "bit (le_word v :: 'a :: len word) i \<Longrightarrow> i < 8 * length v"
  by (induction v arbitrary: i) (fastforce simp: bit_simps dest: bit_imp_le_length)+

lemma le_word_crc:
  "8 * length v \<le> LENGTH('a) \<Longrightarrow> bits_crc step (8 * length v) (le_word v :: 'a :: len word) = crc_bytes step 0 v"
proof (induction v)
  case (Cons b v)
  let ?w = "le_word v :: 'a word"
  have "(ucast b OR push_bit 8 ?w) = ucast b XOR push_bit 8 ?w"
    by (rule bit_word_eqI) (auto simp: bit_simps dest: bit_imp_le_length)
  then have "bits_crc step (8 * length (b # v)) (le_word (b # v) :: 'a word)
      = bits_crc step (8 * length v + 8) (ucast b :: 'a word) XOR bits_crc step (8 * length v + 8) (push_bit 8 ?w)"
    by (simp add: bits_crc_xor add.commute)
  also have "bits_crc step (8 * length v + 8) (push_bit 8 ?w) = bits_crc step (8 * length v) ?w"
    by (subst bits_crc_push) (use Cons.prems bits_le_word in fastforce)+
  also have "bits_crc step (8 * length v + 8) (ucast b :: 'a word) = bits_crc step (8 * length v + 8) b"
    by (rule bits_crc_ucast) (use Cons.prems in \<open>auto dest: bit_imp_le_length\<close>)
  also have "\<dots> = (step ^^ (8 * length v)) (byte_step step 0 b)"
    by (simp add: bits_crc_word byte_step_def steps_steps)
  finally show ?case
    using Cons crc_bytes_from [of "byte_step step 0 b" v] by simp
qed simp

lemma first_word:
  assumes "8 * length v \<le> LENGTH('a)" and "4 \<le> length v"
  shows "bits_crc step (8 * length v) (le_word v XOR ucast s :: 'a :: len word) = crc_bytes step s v"
proof -
  have "bits_crc step (8 * length v) (ucast s :: 'a word) = bits_crc step (8 * length v) s"
    by (rule bits_crc_ucast) (use assms in \<open>auto dest: bit_imp_le_length\<close>)
  also have "\<dots> = (step ^^ (8 * length v)) s"
    using assms(2) by (simp add: bits_crc_word)
  finally show ?thesis
    using assms by (simp add: bits_crc_xor le_word_crc crc_bytes_from [of s] xor.commute)
qed

section \<open>Polynomials\<close>

lemma top_power: "i < 32 \<Longrightarrow> (step ^^ i) top_bit = push_bit (31 - i) 1"
proof -
  assume i: "i < 32"
  have "(step ^^ i) (push_bit i (push_bit (31 - i) 1)) = push_bit (31 - i) 1"
    by (rule steps_push) (use i in \<open>auto simp: bit_simps\<close>)
  moreover have "push_bit i (push_bit (31 - i) 1) = top_bit"
    unfolding top_bit_def push_bit_push_bit using i by simp
  ultimately show ?thesis
    by simp
qed

lemma steps_top: "(step ^^ (31 + n)) top_bit = (step ^^ n) 1"
  using top_power [of 31] by (simp add: steps_steps [symmetric] add.commute [of 31])

lemma poly_crc_push:
  assumes "\<And>i. bit w i \<Longrightarrow> k + i < LENGTH('a)"
  shows "poly_crc step (push_bit k w) = (step ^^ k) (poly_crc step (w :: 'a :: len word))"
  unfolding poly_crc_def steps_weigh steps_steps by (rule weigh_push_bit) (rule assms)

lemma poly_crc_xor: "poly_crc step (a XOR b) = poly_crc step a XOR poly_crc step b"
  by (simp add: poly_crc_def weigh_xor)

lemma poly_crc_ucast:
  assumes "\<And>i. bit w i \<Longrightarrow> i < LENGTH('b)"
  shows "poly_crc step (ucast w :: 'b :: len word) = poly_crc step (w :: 'a :: len word)"
  unfolding poly_crc_def by (rule weigh_ucast) (rule assms)

lemma poly_crc_reverse: "poly_crc step (word_reverse w) = w" for w :: u32
proof -
  have "poly_crc step (word_reverse w) = weigh (\<lambda>i. push_bit i 1) w"
    unfolding poly_crc_def weigh_reverse
  proof (rule weigh_cong)
    fix i assume "i < LENGTH(32)"
    then have "LENGTH(32) - Suc i < 32" "31 - (LENGTH(32) - Suc i) = i"
      by auto
    then show "(step ^^ (LENGTH(32) - Suc i)) top_bit = push_bit i 1"
      using top_power by metis
  qed
  then show ?thesis
    by (simp only: word_is_its_bits)
qed

section \<open>The CRC32 instruction\<close>

text \<open>Reduction by a polynomial the register's step divides out leaves the residue, and ends below \<open>x\<^sup>3\<^sup>2\<close>.\<close>

lemma mod2_steps:
  assumes "poly_crc step (0x11EDC6F41 :: 96 word) = 0"
  shows "32 + k \<le> 96 \<Longrightarrow> (\<And>i. bit d i \<Longrightarrow> i < 32 + k) \<Longrightarrow>
    poly_crc step (foldl mod2_step d (rev [32..<32 + k])) = poly_crc step d
    \<and> (\<forall>i. bit (foldl mod2_step d (rev [32..<32 + k])) i \<longrightarrow> i < 32)"
proof (induction k arbitrary: d)
  case (Suc k)
  let ?p = "0x11EDC6F41 :: 96 word"
  have "?p = take_bit 33 ?p"
    by code_simp
  then have low: "bit ?p i \<Longrightarrow> i < 33" for i
    by (metis bit_take_bit_iff)
  have top: "bit ?p 32"
    by code_simp
  have "poly_crc step (push_bit k ?p) = 0"
    by (subst poly_crc_push) (use low Suc.prems(1) in \<open>fastforce simp: assms\<close>)+
  then have same: "poly_crc step (mod2_step d (32 + k)) = poly_crc step d"
    by (simp add: mod2_step_def poly_crc_xor)
  have "i < 32 + k" if "bit (mod2_step d (32 + k)) i" for i
  proof -
    have "i < Suc (32 + k)"
      using that Suc.prems(2) [of i] low [of "i - k"]
      by (fastforce simp: mod2_step_def bit_xor_iff bit_push_bit_iff split: if_splits)
    moreover have "i \<noteq> 32 + k"
      using that top Suc.prems(1)
      by (auto simp only: mod2_step_def bit_xor_iff bit_push_bit_iff split: if_splits) simp_all
    ultimately show ?thesis
      by simp
  qed
  moreover have "rev [32..<32 + Suc k] = (32 + k) # rev [32..<32 + k]"
    using upt_Suc [of 32 "32 + k"] by (simp only: add_Suc_right) simp
  ultimately show ?case
    using Suc.IH [of "mod2_step d (32 + k)"] Suc.prems(1) same by (simp only: foldl_Cons) simp
qed auto

lemma instruction_steps:
  fixes src :: "'a :: len word"
  assumes "poly_crc step (0x11EDC6F41 :: 96 word) = 0" and "LENGTH('a) \<le> 64"
  shows "crc32_instruction crc src = (step ^^ LENGTH('a)) crc XOR bits_crc step LENGTH('a) src"
proof -
  let ?s = "push_bit 32 (ucast (word_reverse src)) :: 96 word"
  let ?c = "push_bit LENGTH('a) (ucast (word_reverse crc)) :: 96 word"
  let ?d = "foldl mod2_step (?s XOR ?c) (rev [32..<32 + LENGTH('a)])"
  have small: "bit (?s XOR ?c) i \<Longrightarrow> i < 32 + LENGTH('a)" for i
    by (auto simp: bit_simps dest: bit_imp_le_length)
  have d: "poly_crc step ?d = poly_crc step ?s XOR poly_crc step ?c" "\<And>i. bit ?d i \<Longrightarrow> i < 32"
    using mod2_steps [of "LENGTH('a)" "?s XOR ?c", OF assms(1) _ small] assms(2) by (auto simp: poly_crc_xor)
  have "poly_crc step ?s = (step ^^ 32) (poly_crc step (word_reverse src))"
    by (subst poly_crc_push, use assms(2) in \<open>fastforce simp: bit_simps dest: bit_imp_le_length\<close>)
      (subst poly_crc_ucast, use assms(2) in \<open>auto dest: bit_imp_le_length\<close>)
  also have "\<dots> = weigh (\<lambda>i. (step ^^ (32 + (LENGTH('a) - Suc i))) top_bit) src"
    by (simp only: poly_crc_def weigh_reverse steps_weigh steps_steps)
  also have "\<dots> = bits_crc step LENGTH('a) src"
    unfolding bits_crc_def
  proof (rule weigh_cong)
    fix i assume "i < LENGTH('a)"
    then have "32 + (LENGTH('a) - Suc i) = 31 + (LENGTH('a) - i)"
      by simp
    then show "(step ^^ (32 + (LENGTH('a) - Suc i))) top_bit = (step ^^ (LENGTH('a) - i)) 1"
      by (simp only: steps_top)
  qed
  finally have s: "poly_crc step ?s = bits_crc step LENGTH('a) src" .
  have "poly_crc step ?c = (step ^^ LENGTH('a)) (poly_crc step (word_reverse crc))"
    by (subst poly_crc_push, use assms(2) in \<open>fastforce simp: bit_simps dest: bit_imp_le_length\<close>)
      (subst poly_crc_ucast, auto dest: bit_imp_le_length)
  then have c: "poly_crc step ?c = (step ^^ LENGTH('a)) crc"
    by (simp only: poly_crc_reverse)
  have "crc32_instruction crc src = word_reverse (ucast ?d)"
    by (simp add: crc32_instruction_def)
  also have "\<dots> = poly_crc step (ucast ?d :: u32)"
    using poly_crc_reverse [of "word_reverse (ucast ?d :: u32)"] by simp
  also have "\<dots> = poly_crc step ?d"
    by (rule poly_crc_ucast) (simp add: d(2))
  finally show ?thesis
    unfolding d(1) s c by (simp only: xor.commute)
qed

end

end
