(* ===== verification/Crc_Folding.thy ===== *)
theory Crc_Folding
  imports Crc_Register
begin

unbundle bit_operations_syntax

text \<open>
  Carry-less products as sums of shifts, the constants of the folding, and what a fold and the reduction of a 128-bit
  remainder do to the register.
\<close>

section \<open>Products\<close>

lemma foldl_xor_sum:
  "foldl (\<lambda>r i. if P i then r XOR g i else r) r is = r XOR xor_sum (\<lambda>i. if P i then g i else 0) is"
  by (induction "is" arbitrary: r) (simp_all add: xor.assoc)

lemma vmull_weigh: "vmull_p64 a b = weigh (\<lambda>i. push_bit i (ucast b)) a"
  by (simp only: vmull_p64_def foldl_xor_sum weigh_def) simp

lemma vmull_xor: "vmull_p64 (a XOR c) b = vmull_p64 a b XOR vmull_p64 c b"
  by (simp only: vmull_weigh weigh_xor)

lemma some_bit_of_sum: "bit (xor_sum g is) n \<Longrightarrow> \<exists>i \<in> set is. bit (g i) n"
  by (induction "is") (auto simp: bit_xor_iff)

lemma bit_weigh: "bit (weigh c w) n \<Longrightarrow> \<exists>i. bit w i \<and> bit (c i) n"
  unfolding weigh_def by (drule some_bit_of_sum) (auto split: if_splits)

lemma vmull_bound:
  assumes "\<And>i. bit a i \<Longrightarrow> i < p" and "\<And>i. bit b i \<Longrightarrow> i < q" and "bit (vmull_p64 a b) n"
  shows "n + 1 < p + q"
proof -
  obtain i where "bit a i" "bit (push_bit i (ucast b) :: u128) n"
    using bit_weigh assms(3) unfolding vmull_weigh by blast
  then have "i < p" "i \<le> n" "n - i < q"
    using assms(1) assms(2) [of "n - i"] by (auto simp: bit_push_bit_iff bit_ucast_iff)
  then show ?thesis
    by simp
qed

lemma vmull_push:
  assumes "\<And>i. bit a i \<Longrightarrow> k + i < 64"
  shows "vmull_p64 (push_bit k a) b = push_bit k (vmull_p64 a b)"
proof -
  have "additive (push_bit k :: u128 \<Rightarrow> u128)"
    by (simp add: additive_def push_bit_xor)
  then have "push_bit k (vmull_p64 a b) = weigh (\<lambda>i. push_bit k (push_bit i (ucast b))) a"
    unfolding vmull_weigh by (rule additive_of_weigh)
  moreover have "vmull_p64 (push_bit k a) b = weigh (\<lambda>i. push_bit (k + i) (ucast b)) a"
    unfolding vmull_weigh by (rule weigh_push_bit) (use assms in simp)
  ultimately show ?thesis
    by (simp only: push_bit_push_bit)
qed

lemma take_bit_vmull: "take_bit k (vmull_p64 (take_bit k a) b) = take_bit k (vmull_p64 a b)"
proof -
  have "take_bit k (vmull_p64 (push_bit k (drop_bit k a)) b) = 0"
    by (subst vmull_push) (auto simp: bit_drop_bit_eq take_bit_push_bit dest: bit_imp_le_length)
  moreover have "take_bit k a XOR push_bit k (drop_bit k a) = a"
    by (rule bit_word_eqI) (auto simp: bit_simps)
  then have "take_bit k (vmull_p64 a b)
      = take_bit k (vmull_p64 (take_bit k a) b) XOR take_bit k (vmull_p64 (push_bit k (drop_bit k a)) b)"
    by (simp only: vmull_xor [symmetric] take_bit_xor [symmetric])
  ultimately show ?thesis
    by simp
qed

lemma take_bit_nested: "take_bit k (push_bit i w) = take_bit k (push_bit i (take_bit k w))" for w :: "'a :: len word"
  by (rule bit_word_eqI) (auto simp: bit_simps)

text \<open>What is multiplied by a power of \<open>x\<close> is shifted.\<close>

lemma vmull_one: "vmull_p64 1 b = ucast b"
  unfolding vmull_weigh using weigh_bit [of "\<lambda>i. push_bit i (ucast b)" 0, where 'a = 64] by simp

section \<open>Halves\<close>

lemma halves_of_pair [simp]: "low_half (set_epi64x hi lo) = lo" "high_half (set_epi64x hi lo) = hi"
  unfolding low_half_def high_half_def set_epi64x_def
  by (rule bit_word_eqI; auto simp: bit_simps dest: bit_imp_le_length)+

lemma extracted_id [simp]: "extracted x = x"
  unfolding extracted_def low_half_def high_half_def
  by (rule bit_word_eqI) (auto simp: bit_simps)

lemma clmul_is_vmull: "clmul = vmull_p64"
  by (intro ext) (simp add: clmul_def clmulepi64_00_def)

lemma low_mask: "ucast (x AND LOW32) = take_bit 32 (ucast x :: u64)"
proof (rule bit_word_eqI)
  fix n assume n: "n < LENGTH(64)"
  have "take_bit 64 LOW32 = mask 32"
    by code_simp
  then have "bit (take_bit 64 LOW32) n \<longleftrightarrow> bit (mask 32 :: u128) n"
    by simp
  then have "bit LOW32 n \<longleftrightarrow> n < 32"
    using n by (simp only: bit_take_bit_iff bit_mask_iff) simp
  then show "bit (ucast (x AND LOW32) :: u64) n = bit (take_bit 32 (ucast x :: u64)) n"
    using n by (auto simp: bit_simps)
qed

section \<open>Reflections\<close>

lemma reflect33_bits: "bit (reflect33 v) n \<longleftrightarrow> n < 33 \<and> bit v (32 - n)"
proof -
  have "reflect33 v = take_bit 33 (drop_bit 31 (word_reverse v))"
    by (simp add: reflect33_def take_bit_eq_mask mask_eq_exp_minus_1)
  then show ?thesis
    by (auto simp: bit_simps less_diff_conv intro!: arg_cong [of _ _ "bit v"])
qed

lemma weigh_reflect33:
  assumes "\<And>i. bit v i \<Longrightarrow> i < 33"
  shows "weigh c (reflect33 v) = weigh (\<lambda>i. c (32 - i)) v"
proof -
  have "word_reverse v = push_bit 31 (reflect33 v)"
  proof (rule bit_word_eqI)
    fix n assume "n < LENGTH(64)"
    then show "bit (word_reverse v) n = bit (push_bit 31 (reflect33 v)) n"
      using assms [of "63 - n"]
      by (auto simp: bit_word_reverse_iff bit_push_bit_iff reflect33_bits intro: arg_cong [of _ _ "bit v"])
  qed
  then have "weigh (\<lambda>i. c (i - 31)) (word_reverse v) = weigh c (reflect33 v)"
    using weigh_push_bit [of "reflect33 v" 31 "\<lambda>i. c (i - 31)"] by (simp add: reflect33_bits)
  moreover have "weigh (\<lambda>i. c (i - 31)) (word_reverse v) = weigh (\<lambda>i. c (32 - i)) v"
    unfolding weigh_reverse by (rule weigh_cong) (use assms in fastforce)
  ultimately show ?thesis
    by simp
qed

section \<open>The polynomial\<close>

locale crc_register = shift_register +
  fixes P :: u32
  assumes step_one: "step 1 = word_reverse P"
begin

lemma modulus:
  fixes p :: "'a :: len word"
  assumes "33 \<le> LENGTH('a)" and "p = push_bit 32 1 XOR ucast P"
  shows "poly_crc step p = 0"
proof -
  have "poly_crc step (1 :: 'a word) = top_bit"
    unfolding poly_crc_def using weigh_bit [of "\<lambda>i. (step ^^ i) top_bit" 0, where 'a = 'a] by simp
  moreover have "poly_crc step (push_bit 32 (1 :: 'a word)) = (step ^^ 32) (poly_crc step (1 :: 'a word))"
    by (rule poly_crc_push) (use assms(1) in \<open>simp add: bit_1_iff\<close>)
  moreover have "(step ^^ 32) top_bit = word_reverse P"
    using steps_top [of 1] by (simp add: step_one)
  ultimately have "poly_crc step (push_bit 32 (1 :: 'a word)) = word_reverse P"
    by simp
  moreover have "poly_crc step (ucast P :: 'a word) = poly_crc step P"
    by (rule poly_crc_ucast) (use assms(1) in \<open>auto dest: bit_imp_le_length\<close>)
  moreover have "poly_crc step P = word_reverse P"
    using poly_crc_reverse [of "word_reverse P"] by simp
  ultimately show ?thesis
    unfolding assms(2) poly_crc_xor by (simp only: xor_self_eq)
qed

lemma bits_crc_vmull:
  assumes "63 \<le> m"
  shows "bits_crc step (m + 64) (vmull_p64 a b) = weigh (\<lambda>i. (step ^^ (m - i)) (bits_crc step 64 b)) a"
proof -
  have "additive (bits_crc step (m + 64) :: u128 \<Rightarrow> u32)"
    by (simp add: additive_def bits_crc_xor)
  then have "bits_crc step (m + 64) (vmull_p64 a b) = weigh (\<lambda>i. bits_crc step (m + 64) (push_bit i (ucast b) :: u128)) a"
    unfolding vmull_weigh by (rule additive_of_weigh)
  also have "\<dots> = weigh (\<lambda>i. (step ^^ (m - i)) (bits_crc step 64 b)) a"
  proof (rule weigh_cong)
    fix i assume "i < LENGTH(64)"
    then have i: "i < 64" "m + 64 - i = 64 + (m - i)"
      using assms by auto
    have "bits_crc step (m + 64) (push_bit i (ucast b) :: u128) = bits_crc step (64 + (m - i)) b"
      by (subst bits_crc_push, use i(1) in \<open>fastforce simp: bit_ucast_iff dest: bit_imp_le_length\<close>)
        (subst bits_crc_ucast, auto simp: i(2) dest: bit_imp_le_length)
    also have "\<dots> = (step ^^ (m - i)) (bits_crc step 64 b)"
      by (rule bits_crc_later) (auto dest: bit_imp_le_length)
    finally show "bits_crc step (m + 64) (push_bit i (ucast b) :: u128) = (step ^^ (m - i)) (bits_crc step 64 b)" .
  qed
  finally show ?thesis .
qed

lemma vmull_by_power:
  assumes "63 \<le> m" and "bits_crc step 64 k = (step ^^ e) 1"
  shows "bits_crc step (m + 64) (vmull_p64 a k) = bits_crc step (m + e) a"
proof -
  have "weigh (\<lambda>i. (step ^^ (m - i)) (bits_crc step 64 k)) a = bits_crc step (m + e) a"
    unfolding bits_crc_def [of step "m + e"] assms(2) steps_steps
  proof (rule weigh_cong)
    fix i assume "i < LENGTH(64)"
    then have "m - i + e = m + e - i"
      using assms(1) by simp
    then show "(step ^^ (m - i + e)) 1 = (step ^^ (m + e - i)) 1"
      by (simp only:)
  qed
  then show ?thesis
    by (simp only: bits_crc_vmull [OF assms(1)])
qed

lemma bits_crc_low:
  fixes x :: u128
  assumes "k \<le> 64"
  shows "bits_crc step m (take_bit k x) = bits_crc step m (take_bit k (ucast x :: u64))"
proof -
  have "take_bit k x = ucast (take_bit k (ucast x :: u64))"
    by (rule bit_word_eqI) (use assms in \<open>auto simp: bit_simps\<close>)
  then show ?thesis
    by (simp only:) (rule bits_crc_ucast, auto dest: bit_imp_le_length)
qed

lemma bits_crc_halves:
  "bits_crc step m x = bits_crc step m (low_half x) XOR bits_crc step (m - 64) (high_half x)"
proof -
  have "bits_crc step (m - 64) (drop_bit 64 x) = bits_crc step (m - 64) (high_half x)"
    unfolding high_half_def
    by (rule bits_crc_ucast [symmetric]) (auto simp: bit_drop_bit_eq dest: bit_imp_le_length)
  moreover have "take_bit 64 (low_half x) = low_half x"
    by (rule take_bit_word_eq_self) simp
  ultimately show ?thesis
    using bits_crc_split [of step m x 64] bits_crc_low [of 64 m x] by (simp add: low_half_def)
qed

end

end
