(* ===== verification/Crc_Reduce.thy ===== *)
theory Crc_Reduce
  imports Crc_Folding
begin

unbundle bit_operations_syntax

text \<open>
  CRC-32's register: the constants computed from the polynomial are the powers of \<open>x\<close> they stand for, a fold moves a
  remainder forward, and the reduction of a remainder gives the register it leaves.
\<close>

section \<open>The Barrett reduction\<close>

text \<open>The multiplier is the polynomial's inverse modulo \<open>x\<^sup>3\<^sup>2\<close>, so the quotient it estimates cancels the low bits.\<close>

lemma barrett_inverse: "take_bit 32 (vmull_p64 MU_REFLECTED P_REFLECTED) = 1"
proof -
  have "MU_REFLECTED = 0x1F7011641" "P_REFLECTED = 0x1DB710641"
    by code_simp+
  moreover have "take_bit 32 (vmull_p64 0x1F7011641 0x1DB710641) = 1"
    by code_simp
  ultimately show ?thesis
    by simp
qed

lemma reflected_bits: "bit MU_REFLECTED i \<Longrightarrow> i < 33" "bit P_REFLECTED i \<Longrightarrow> i < 33"
  by (simp_all add: MU_REFLECTED_def P_REFLECTED_def reflect33_bits)

lemma barrett_cancels:
  "take_bit 32 (vmull_p64 (take_bit 32 (ucast (vmull_p64 z MU_REFLECTED))) P_REFLECTED) = take_bit 32 (ucast z)"
proof (rule additive_eq [of
      "\<lambda>z. take_bit 32 (vmull_p64 (take_bit 32 (ucast (vmull_p64 z MU_REFLECTED))) P_REFLECTED)" "\<lambda>z. take_bit 32 (ucast z)"])
  show "additive (\<lambda>z. take_bit 32 (vmull_p64 (take_bit 32 (ucast (vmull_p64 z MU_REFLECTED))) P_REFLECTED))"
    by (simp add: additive_def vmull_xor unsigned_xor_eq take_bit_xor)
  show "additive (\<lambda>z :: u64. take_bit 32 (ucast z) :: u128)"
    by (simp add: additive_def unsigned_xor_eq take_bit_xor)
  fix i assume i: "i < LENGTH(64)"
  have "vmull_p64 (push_bit i 1) MU_REFLECTED = push_bit i (ucast MU_REFLECTED)"
    by (subst vmull_push) (use i in \<open>simp_all add: bit_1_iff vmull_one\<close>)
  then have low: "ucast (vmull_p64 (push_bit i 1) MU_REFLECTED) = (push_bit i MU_REFLECTED :: u64)"
    by (simp only:) (rule bit_word_eqI, auto simp: bit_simps)
  show "take_bit 32 (vmull_p64 (take_bit 32 (ucast (vmull_p64 (push_bit i 1) MU_REFLECTED))) P_REFLECTED)
      = take_bit 32 (ucast (push_bit i 1 :: u64))"
  proof (cases "i < 32")
    case True
    have "vmull_p64 (push_bit i MU_REFLECTED) P_REFLECTED = push_bit i (vmull_p64 MU_REFLECTED P_REFLECTED)"
      by (rule vmull_push) (use True reflected_bits(1) in fastforce)
    then have "take_bit 32 (vmull_p64 (take_bit 32 (push_bit i MU_REFLECTED)) P_REFLECTED) = take_bit 32 (push_bit i 1)"
      by (simp only: take_bit_vmull take_bit_nested [of 32 i "vmull_p64 _ _"] barrett_inverse)
    then show ?thesis
      unfolding low by (simp only:) (rule bit_word_eqI, auto simp: bit_simps)
  next
    case False
    then have "take_bit 32 (push_bit i MU_REFLECTED) = 0" "take_bit 32 (ucast (push_bit i 1 :: u64) :: u128) = 0"
      by (auto intro!: bit_word_eqI simp: bit_simps)
    then show ?thesis
      unfolding low by (simp add: vmull_weigh)
  qed
qed

section \<open>The constants\<close>

locale ieee_register = crc_register step "0x04C11DB7" for step
begin

lemma P_IEEE_bits: "bit P_IEEE i \<Longrightarrow> i < 33" "bit P_IEEE 32"
proof -
  have "P_IEEE = take_bit 33 P_IEEE"
    by code_simp
  then show "bit P_IEEE i \<Longrightarrow> i < 33"
    by (metis bit_take_bit_iff)
  show "bit P_IEEE 32"
    by code_simp
qed

lemma P_IEEE_zero: "poly_crc step P_IEEE = 0"
  by (rule modulus) (simp, code_simp)

lemma xpow_powers:
  "poly_crc step ((xpow_step ^^ n) 1) = (step ^^ n) top_bit \<and> (\<forall>i. bit ((xpow_step ^^ n) 1) i \<longrightarrow> i < 32)"
proof (induction n)
  case 0
  show ?case
    using weigh_bit [of "\<lambda>i. (step ^^ i) top_bit" 0, where 'a = 64] by (simp add: poly_crc_def bit_1_iff)
next
  case (Suc n)
  define r where "r = (xpow_step ^^ n) 1"
  have r: "poly_crc step r = (step ^^ n) top_bit" "\<And>i. bit r i \<Longrightarrow> i < 32"
    using Suc by (auto simp: r_def)
  have "poly_crc step (push_bit 1 r) = (step ^^ 1) (poly_crc step r)"
    by (rule poly_crc_push) (use r(2) in fastforce)
  then have pushed: "poly_crc step (push_bit 1 r) = (step ^^ Suc n) top_bit"
    by (simp add: r(1))
  have next_r: "xpow_step r = (if bit (push_bit 1 r) 32 then push_bit 1 r XOR P_IEEE else push_bit 1 r)"
    unfolding xpow_step_def Let_def bit_iff_and_push_bit_not_eq_0 by simp
  have "bit (push_bit 1 r) i \<Longrightarrow> i < 33" for i
    using r(2) [of "i - 1"] unfolding bit_push_bit_iff by (cases i) auto
  then have "bit (xpow_step r) i \<Longrightarrow> i < 32" for i
    using P_IEEE_bits(1) [of i] P_IEEE_bits(2) unfolding next_r
    by (cases "i = 32") (fastforce simp: bit_xor_iff simp del: push_bit_of_1 split: if_splits)+
  moreover have "poly_crc step (xpow_step r) = (step ^^ Suc n) top_bit"
    unfolding next_r using pushed by (simp add: poly_crc_xor P_IEEE_zero)
  ultimately show ?case
    by (simp add: r_def)
qed

lemma xpow_mod_crc: "poly_crc step (xpow_mod n) = (step ^^ n) top_bit"
  unfolding xpow_mod_def using xpow_powers [of n] by (subst poly_crc_ucast) auto

text \<open>The constant for a distance stands for that power of \<open>x\<close>.\<close>

lemma fold_k_crc: "bits_crc step 64 (fold_k n) = (step ^^ (32 + n)) 1"
proof -
  have "bits_crc step 64 (fold_k n) = bits_crc step 63 (ucast (word_reverse (xpow_mod n)) :: u64)"
    unfolding fold_k_def by (subst bits_crc_push) (auto simp: bit_simps dest: bit_imp_le_length)
  also have "\<dots> = bits_crc step 63 (word_reverse (xpow_mod n))"
    by (rule bits_crc_ucast) (auto dest: bit_imp_le_length)
  also have "\<dots> = weigh (\<lambda>i. (step ^^ 63) ((step ^^ i) top_bit)) (xpow_mod n)"
    unfolding bits_crc_def weigh_reverse
  proof (rule weigh_cong)
    fix i assume "i < LENGTH(32)"
    then have "63 - (LENGTH(32) - Suc i) = 32 + i" "63 + i = 31 + (32 + i)"
      by auto
    then show "(step ^^ (63 - (LENGTH(32) - Suc i))) 1 = (step ^^ 63) ((step ^^ i) top_bit)"
      by (simp only: steps_steps steps_top)
  qed
  also have "\<dots> = (step ^^ 63) ((step ^^ n) top_bit)"
    using steps_weigh [of 63 "\<lambda>i. (step ^^ i) top_bit" "xpow_mod n"] xpow_mod_crc [of n]
    by (simp only: poly_crc_def)
  also have "\<dots> = (step ^^ (31 + (32 + n))) top_bit"
    by (simp add: steps_steps)
  finally show ?thesis
    by (simp only: steps_top)
qed

lemma fold_k_bits: "bit (fold_k n) i \<Longrightarrow> i < 33"
  unfolding fold_k_def bit_push_bit_iff by (cases i) (auto simp: bit_simps dest: bit_imp_le_length)

lemma vmull_fold_k: "63 \<le> m \<Longrightarrow> bits_crc step (m + 64) (vmull_p64 a (fold_k n)) = bits_crc step (m + (32 + n)) a"
  by (rule vmull_by_power) (simp_all only: fold_k_crc)

lemma P_REFLECTED_zero:
  assumes "32 \<le> m"
  shows "bits_crc step m P_REFLECTED = 0"
proof -
  have "bits_crc step m P_REFLECTED = weigh (\<lambda>i. (step ^^ (m - (32 - i))) 1) P_IEEE"
    unfolding bits_crc_def P_REFLECTED_def by (rule weigh_reflect33) (rule P_IEEE_bits)
  also have "\<dots> = weigh (\<lambda>i. (step ^^ (m - 1)) ((step ^^ i) top_bit)) P_IEEE"
  proof (rule weigh_cong)
    fix i assume "bit P_IEEE i"
    then have "i < 33"
      by (rule P_IEEE_bits)
    then have "m - 1 + i = 31 + (m - (32 - i))"
      using assms by simp
    then show "(step ^^ (m - (32 - i))) 1 = (step ^^ (m - 1)) ((step ^^ i) top_bit)"
      by (simp only: steps_steps steps_top)
  qed
  also have "\<dots> = (step ^^ (m - 1)) (poly_crc step P_IEEE)"
    by (simp only: poly_crc_def steps_weigh)
  finally show ?thesis
    by (simp add: P_IEEE_zero)
qed

section \<open>A fold\<close>

lemma fold_crc:
  assumes "127 \<le> m" and "32 \<le> d"
  shows "bits_crc step m (fold_next x (pair (fold_pair d)) v) = bits_crc step (m + d) x XOR bits_crc step m v"
proof -
  define n where "n = m - 64"
  then have m: "m = n + 64" "63 \<le> n"
    using assms(1) by simp_all
  have "n + (32 + (d + 32)) = m + d" "n + (32 + (d - 32)) = m + d - 64"
    using m assms(2) by simp_all
  then have "bits_crc step m (clmulepi64_00 x (pair (fold_pair d))) = bits_crc step (m + d) (low_half x)"
    "bits_crc step m (clmulepi64_11 x (pair (fold_pair d))) = bits_crc step (m + d - 64) (high_half x)"
    unfolding m(1) clmulepi64_00_def clmulepi64_11_def pair_def fold_pair_def halves_of_pair fst_conv snd_conv
      vmull_fold_k [OF m(2)] by (simp_all only: m(1))
  then show ?thesis
    by (simp only: fold_next_def bits_crc_xor bits_crc_halves [of "m + d" x])
qed

section \<open>The reduction\<close>

lemma reduce_crc: "reduce_128 x vmull_p64 = bits_crc step 128 x"
proof -
  define y where "y = drop_bit 64 x XOR vmull_p64 (ucast x) (fold_k 96)"
  define z where "z = drop_bit 32 y XOR vmull_p64 (take_bit 32 (ucast y)) K_64"
  define t where "t = take_bit 32 (ucast (vmull_p64 (take_bit 32 (ucast z)) MU_REFLECTED) :: u64)"
  define w where "w = z XOR vmull_p64 t P_REFLECTED"
  have code: "reduce_128 x vmull_p64 = ucast (drop_bit 32 w)"
    by (simp add: reduce_128_def Let_def low_mask w_def t_def z_def y_def FOLD_1X128_def fold_pair_def)
  have "bits_crc step 192 y = bits_crc step 256 x"
    using bits_crc_halves [of 256 x] bits_crc_halves [of 192 "drop_bit 64 x"] vmull_fold_k [of 128 "ucast x" 96]
    by (simp add: y_def bits_crc_xor low_half_def high_half_def xor.commute)
  then have "bits_crc step 224 y = (step ^^ 32) (bits_crc step 256 x)"
    using bits_crc_later [of y 192 32] bit_imp_le_length [of y] by fastforce
  also have "\<dots> = bits_crc step 288 x"
    using bits_crc_later [of x 256 32] bit_imp_le_length [of x] by fastforce
  finally have y: "bits_crc step 224 y = bits_crc step 288 x" .
  have "bits_crc step 192 z = bits_crc step 224 y"
    using bits_crc_split [of step 224 y 32] bits_crc_low [of 32 224 y] vmull_fold_k [of 128 "take_bit 32 (ucast y)" 64]
    by (simp add: z_def K_64_def bits_crc_xor xor.commute)
  moreover have "bits_crc step 192 (vmull_p64 t P_REFLECTED) = 0"
    using bits_crc_vmull [of 128 t P_REFLECTED] by (simp add: P_REFLECTED_zero weigh_def xor_sum_zero)
  ultimately have whole: "bits_crc step 192 w = bits_crc step 288 x"
    by (simp add: w_def bits_crc_xor y)
  have "bit (vmull_p64 (ucast x) (fold_k 96)) i \<Longrightarrow> i < 96" for i
    using vmull_bound [of "ucast x" 64 "fold_k 96" 33 i] fold_k_bits
    by (fastforce simp: bit_ucast_iff)
  moreover have "bit (drop_bit 64 x) i \<Longrightarrow> i < 96" for i
    using bit_imp_le_length [of x "64 + i"] by (simp add: bit_drop_bit_eq)
  ultimately have "bit y i \<Longrightarrow> i < 96" for i
    by (auto simp: y_def bit_xor_iff)
  then have "bit z i \<Longrightarrow> i < 64" for i
    using vmull_bound [of "take_bit 32 (ucast y)" 32 K_64 33 i]
    by (fastforce simp: z_def bit_xor_iff bit_drop_bit_eq bit_take_bit_iff K_64_def fold_k_bits)
  then have high: "bit w i \<Longrightarrow> i < 64" for i
    using vmull_bound [of t 32 P_REFLECTED 33 i]
    by (fastforce simp: w_def t_def bit_xor_iff bit_take_bit_iff reflected_bits)
  have "take_bit 32 w = take_bit 32 z XOR take_bit 32 (ucast (take_bit 32 (ucast z :: u64)))"
    by (simp only: w_def t_def take_bit_xor barrett_cancels)
  also have "\<dots> = 0"
    by (rule bit_word_eqI) (auto simp: bit_simps)
  finally have "bits_crc step 192 w = bits_crc step 160 (drop_bit 32 w)"
    using bits_crc_split [of step 192 w 32] by simp
  also have "\<dots> = bits_crc step 160 (ucast (drop_bit 32 w) :: u32)"
    by (rule bits_crc_ucast [symmetric]) (use high in \<open>fastforce simp: bit_drop_bit_eq\<close>)
  also have "\<dots> = (step ^^ 160) (ucast (drop_bit 32 w))"
    by (simp add: bits_crc_word)
  finally have "(step ^^ 160) (ucast (drop_bit 32 w)) = bits_crc step 288 x"
    using whole by simp
  also have "\<dots> = (step ^^ 160) (bits_crc step 128 x)"
    using bits_crc_later [of x 128 160] bit_imp_le_length [of x] by fastforce
  finally show ?thesis
    unfolding code by (rule steps_inject)
qed

end

end
