(* ===== verification/Crc_Tables.thy ===== *)
theory Crc_Tables
  imports Crc_Reduce
begin

unbundle bit_operations_syntax

text \<open>
  The registers of CRC-32C and CRC-32: the tables' scalar forms run them over the bytes, and so do the bodies on the
  CRC32 instructions.
\<close>

section \<open>The two registers\<close>

lemma table_step_if: "table_step poly c = (if bit c 0 then drop_bit 1 c XOR poly else drop_bit 1 c)"
proof -
  have "c AND 1 = 1 \<longleftrightarrow> bit c 0"
    by (simp add: and_one_eq mod_2_eq_odd bit_0)
  then show ?thesis
    by (simp only: table_step_def)
qed

lemma table_step_register:
  assumes "bit poly 31"
  shows "shift_register (table_step poly)"
proof
  show "additive (table_step poly)"
    unfolding additive_def table_step_if by (auto simp: bit_xor_iff drop_bit_xor ac_simps)
  show "\<not> bit c 0 \<Longrightarrow> table_step poly c = drop_bit 1 c" for c
    by (simp only: table_step_if if_False)
  fix c assume zero: "table_step poly c = 0"
  have even: "\<not> bit c 0"
  proof
    assume "bit c 0"
    then have "drop_bit 1 c XOR poly = 0"
      using zero by (simp only: table_step_if if_True)
    then have "bit (drop_bit 1 c) 31"
      using assms by (metis xor_zero_eq)
    then show False
      using bit_imp_le_length [of c 32] by (simp add: bit_drop_bit_eq)
  qed
  then have "drop_bit 1 c = 0"
    using zero by (simp only: table_step_if if_False)
  moreover have "bit c (1 + n) = bit (drop_bit 1 c) n" for n
    by (simp only: bit_drop_bit_eq o_apply)
  ultimately have "\<not> bit c (Suc n)" for n
    by simp
  then have "\<not> bit c n" for n
    using even by (cases n) simp_all
  then show "c = 0"
    by (intro bit_word_eqI) simp
qed

interpretation castagnoli: shift_register "table_step POLY"
  by (rule table_step_register) code_simp

interpretation castagnoli: crc_register "table_step POLY" "0x1EDC6F41"
  by unfold_locales code_simp

interpretation ieee: shift_register "table_step POLY_IEEE"
  by (rule table_step_register) code_simp

interpretation ieee: ieee_register "table_step POLY_IEEE"
  by unfold_locales code_simp

section \<open>The scalar forms\<close>

lemma table_at: "table poly ! unat (v AND 0xFF) = (table_step poly ^^ 8) (v AND 0xFF)" for v :: u32
proof -
  have "v AND 0xFF = take_bit 8 v"
    by (simp add: take_bit_eq_mask mask_eq_exp_minus_1)
  then have "unat (v AND 0xFF) < 256"
    using take_bit_nat_less_exp [of 8 "unat v"] by (simp add: unsigned_take_bit_eq)
  then show ?thesis
    by (simp add: table_def)
qed

lemma update_scalar_crc: "update_scalar state data = crc_bytes (table_step POLY) state data"
  by (simp only: update_scalar_def TABLE_def table_at castagnoli.byte_lookup [symmetric] crc_bytes_def)

lemma update_scalar_ieee_crc: "update_scalar_ieee state data = crc_bytes (table_step POLY_IEEE) state data"
  by (simp only: update_scalar_ieee_def TABLE_IEEE_def table_at ieee.byte_lookup [symmetric] crc_bytes_def)

section \<open>The CRC32 instructions\<close>

lemma castagnoli_modulus: "poly_crc (table_step POLY) (0x11EDC6F41 :: 96 word) = 0"
  by (rule castagnoli.modulus) (simp, code_simp)

lemma instruction_byte: "crc32_instruction crc b = byte_step (table_step POLY) crc b" for b :: u8
  using castagnoli.instruction_steps [OF castagnoli_modulus, where src = b]
  by (simp add: castagnoli.bits_crc_word byte_step_def castagnoli.steps_xor)

lemma instruction_word:
  "length v = 8 \<Longrightarrow> crc32_instruction crc (le_word v :: u64) = crc_bytes (table_step POLY) crc v"
  using castagnoli.instruction_steps [OF castagnoli_modulus, where src = "le_word v :: u64"]
    castagnoli.le_word_crc [of v, where 'a = 64] castagnoli.crc_bytes_from [of crc v]
  by simp

lemma words_loop_crc:
  assumes "\<And>c v. length v = 8 \<Longrightarrow> g (f c (le_word v)) = crc_bytes step (g c) v"
  shows "crc_bytes step (g (fst (words_loop f c data))) (snd (words_loop f c data)) = crc_bytes step (g c) data"
  using assms
proof (induction f c data rule: words_loop.induct)
  case (1 f c data)
  show ?case
  proof (cases "8 \<le> length data")
    case True
    then have "crc_bytes step (g (f c (le_word (take 8 data)))) (drop 8 data) = crc_bytes step (g c) data"
      using 1(2) [of "take 8 data" c] by (simp flip: crc_bytes_simps(3))
    then show ?thesis
      using 1(1) [OF True 1(2)] True by (subst (1 2) words_loop.simps) simp
  qed (subst (1 2) words_loop.simps, simp)
qed

lemma foldl_instruction: "foldl crc32_instruction crc v = crc_bytes (table_step POLY) crc v" for v :: "u8 list"
  unfolding crc_bytes_def by (rule foldl_cong) (simp_all add: instruction_byte)

lemma ucast_widened [simp]: "ucast (ucast c :: u64) = c" for c :: u32
  by (rule bit_word_eqI) (simp add: bit_simps)

lemma update_sse42_scalar: "update_sse42 state data = update_scalar state data"
  using words_loop_crc [where f = crc32_u64 and g = "\<lambda>c. ucast c" and c = "ucast state" and data = data
      and step = "table_step POLY"]
  by (simp add: update_sse42_def update_scalar_crc foldl_instruction crc32_u64_def instruction_word case_prod_beta)

lemma update_crc_scalar: "update_crc state data = update_scalar state data"
  using words_loop_crc [where f = crc32_instruction and g = "\<lambda>c. c" and c = state and data = data
      and step = "table_step POLY"]
  by (simp add: update_crc_def update_scalar_crc foldl_instruction instruction_word case_prod_beta)

end
