(* ===== verification/Checksum_Laws.thy ===== *)
theory Checksum_Laws
  imports Crc_Tables
begin

unbundle bit_operations_syntax

text \<open>
  Every body of \<open>simd/checksums.rs\<close> leaves the register the scalar form leaves: the bodies that fold hold, in all the
  lanes of their registers, a remainder of the bytes taken in so far. Then what that says of the checksum of pieces and
  of damaged data.
\<close>

section \<open>Lanes\<close>

text \<open>The register after 128-bit lanes, the first of which has the earliest bytes.\<close>

fun lanes_crc :: "(u32 \<Rightarrow> u32) \<Rightarrow> u128 list \<Rightarrow> u32" where
  "lanes_crc step [] = 0"
| "lanes_crc step (x # xs) = bits_crc step (128 * Suc (length xs)) x XOR lanes_crc step xs"

text \<open>The lanes are a remainder of the bytes before a position, which the bytes from it on follow.\<close>

definition holds :: "(u32 \<Rightarrow> u32) \<Rightarrow> u32 \<Rightarrow> u8 list \<Rightarrow> nat \<Rightarrow> u128 list \<Rightarrow> bool" where
  "holds step s data at xs \<longleftrightarrow> at \<le> length data \<and> lanes_crc step xs = crc_bytes step s (take at data)"

definition loads :: "u8 list \<Rightarrow> nat \<Rightarrow> nat \<Rightarrow> u128 list" where
  "loads data at n = map (\<lambda>i. load data (at + 16 * i)) [0..<n]"

definition fold_lanes :: "nat \<Rightarrow> u128 list \<Rightarrow> u128 list \<Rightarrow> u128 list" where
  "fold_lanes d xs ys = map2 (\<lambda>x y. fold_next x (pair (fold_pair d)) y) xs ys"

lemma length_loads [simp]: "length (loads data at n) = n"
  by (simp add: loads_def)

lemma loads_add: "loads data at (m + n) = loads data at m @ loads data (at + 16 * m) n"
  by (induction n) (simp_all add: loads_def algebra_simps)

lemma length_fold_lanes [simp]: "length (fold_lanes d xs ys) = min (length xs) (length ys)"
  by (simp add: fold_lanes_def)

lemma fold_lanes_append:
  "length xs = length ys \<Longrightarrow> fold_lanes d xs ys @ fold_lanes d xs' ys' = fold_lanes d (xs @ xs') (ys @ ys')"
  by (simp add: fold_lanes_def)

context ieee_register
begin

lemma lanes_crc_append:
  "lanes_crc step (xs @ ys) = (step ^^ (128 * length ys)) (lanes_crc step xs) XOR lanes_crc step ys"
proof (induction xs)
  case (Cons x xs)
  have "bits_crc step (128 * Suc (length xs) + 128 * length ys) x
      = (step ^^ (128 * length ys)) (bits_crc step (128 * Suc (length xs)) x)"
    by (rule bits_crc_later) (auto dest: bit_imp_le_length)
  then show ?case
    using Cons by (simp add: steps_xor xor.assoc algebra_simps)
qed simp

lemma fold_lanes_crc:
  "length xs = length ys \<Longrightarrow> 32 \<le> d \<Longrightarrow>
    lanes_crc step (fold_lanes d xs ys) = (step ^^ d) (lanes_crc step xs) XOR lanes_crc step ys"
proof (induction xs ys rule: list_induct2)
  case (Cons x xs y ys)
  let ?m = "128 * Suc (length ys)"
  have "bits_crc step (?m + d) x = (step ^^ d) (bits_crc step ?m x)"
    by (rule bits_crc_later) (auto dest: bit_imp_le_length)
  then have "bits_crc step ?m (fold_next x (pair (fold_pair d)) y)
      = (step ^^ d) (bits_crc step ?m x) XOR bits_crc step ?m y"
    using fold_crc [of ?m d x y] Cons.prems by simp
  then show ?case
    using Cons by (simp add: fold_lanes_def steps_xor ac_simps)
qed (simp add: fold_lanes_def)

text \<open>Folding as many lanes as there are, by their number, is appending.\<close>

lemma fold_is_append:
  "length xs = length ys \<Longrightarrow> d = 128 * length xs \<Longrightarrow> xs \<noteq> [] \<Longrightarrow>
    lanes_crc step (fold_lanes d xs ys @ zs) = lanes_crc step (xs @ ys @ zs)"
  using fold_lanes_crc [of xs ys d] by (cases "length xs")
    (simp_all add: lanes_crc_append fold_lanes_crc steps_xor steps_steps xor.assoc algebra_simps)

lemma load_crc: "at + 16 \<le> length data \<Longrightarrow> lanes_crc step [load data at] = crc_bytes step 0 (take 16 (drop at data))"
  using le_word_crc [of "take 16 (drop at data)", where 'a = 128] by (simp add: load_def)

lemma loads_crc:
  "at + 16 * n \<le> length data \<Longrightarrow> lanes_crc step (loads data at n) = crc_bytes step 0 (take (16 * n) (drop at data))"
proof (induction n)
  case (Suc n)
  have "loads data at (Suc n) = loads data at n @ [load data (at + 16 * n)]"
    by (simp add: loads_def)
  moreover have "take (16 * Suc n) (drop at data) = take (16 * n) (drop at data) @ take 16 (drop (at + 16 * n) data)"
    using take_add [of "16 * n" 16 "drop at data"] by (simp add: add.commute)
  ultimately show ?case
    using Suc load_crc [of "at + 16 * n" data] crc_bytes_from [of "crc_bytes step 0 (take (16 * n) (drop at data))"]
    by (simp add: lanes_crc_append)
qed (simp add: loads_def)

lemma holds_append:
  assumes "holds step s data at xs" and "at + 16 * n \<le> length data"
  shows "holds step s data (at + 16 * n) (xs @ loads data at n)"
proof -
  have "take (at + 16 * n) data = take at data @ take (16 * n) (drop at data)"
    by (simp add: take_add)
  then show ?thesis
    using assms loads_crc [OF assms(2)] crc_bytes_from [of "crc_bytes step s (take at data)" "take (16 * n) (drop at data)"]
    by (simp add: holds_def lanes_crc_append)
qed

text \<open>The state goes into the first lane.\<close>

lemma holds_first:
  assumes "16 * Suc n \<le> length data"
  shows "holds step s data (16 * Suc n) ((load data 0 XOR ucast s) # loads data 16 n)"
proof -
  have "holds step s data 16 [load data 0 XOR ucast s]"
    using assms first_word [of "take 16 data" s, where 'a = 128] by (simp add: holds_def load_def)
  then show ?thesis
    using holds_append [of s data 16 "[load data 0 XOR ucast s]" n] assms by simp
qed

text \<open>The end of every body: the remainder reduced, and the bytes after it.\<close>

lemma holds_finish:
  assumes "holds step s data at [x]"
  shows "crc_bytes step (reduce_128 x vmull_p64) (drop at data) = crc_bytes step s data"
  using assms by (simp add: holds_def reduce_crc flip: crc_bytes_simps(3))

end

section \<open>Registers\<close>

text \<open>
  What the bodies have in common: registers of some lanes, a fold that works in each lane, and a load that fills them.
\<close>

locale fold_registers = ieee_register +
  fixes lanes :: "'v \<Rightarrow> u128 list" and f :: "'v \<Rightarrow> 'v \<Rightarrow> 'v \<Rightarrow> 'v" and pr :: "u64 \<times> u64 \<Rightarrow> 'v"
    and ld :: "u8 list \<Rightarrow> nat \<Rightarrow> 'v" and w :: nat and n :: nat
  assumes width: "w = 16 * n" and some_lanes: "0 < n"
    and lanes_fold: "length (lanes x) = n \<Longrightarrow> length (lanes y) = n \<Longrightarrow>
      lanes (f x (pr (fold_pair d)) y) = fold_lanes d (lanes x) (lanes y)"
    and lanes_load: "lanes (ld data at) = loads data at n"
begin

lemma four_loads:
  "lanes (ld data at) @ lanes (ld data (at + w)) @ lanes (ld data (at + 2 * w)) @ lanes (ld data (at + 3 * w))
   = loads data at (4 * n)"
  using loads_add [of data at n "3 * n"] loads_add [of data "at + w" n "2 * n"] loads_add [of data "at + 2 * w" n n, folded mult_2]
  by (simp add: lanes_load width add.assoc)

lemma quad_holds:
  assumes "quad_loop f (pr (fold_pair (4 * (128 * n)))) ld w (x0, x1, x2, x3) data at = ((y0, y1, y2, y3), at')"
    and "\<forall>x \<in> {x0, x1, x2, x3}. length (lanes x) = n"
    and "holds step s data at (lanes x0 @ lanes x1 @ lanes x2 @ lanes x3)"
  shows "(\<forall>y \<in> {y0, y1, y2, y3}. length (lanes y) = n)
    \<and> holds step s data at' (lanes y0 @ lanes y1 @ lanes y2 @ lanes y3)"
  using assms
proof (induction "length data - at" arbitrary: x0 x1 x2 x3 at rule: less_induct)
  case less
  let ?k = "pr (fold_pair (4 * (128 * n)))"
  show ?case
  proof (cases "4 * w \<le> length data - at")
    case True
    have room: "at + 16 * (4 * n) \<le> length data" "length data - (at + 4 * w) < length data - at"
      using True some_lanes less.prems(3) width by (auto simp: holds_def)
    let ?y0 = "f x0 ?k (ld data at)" and ?y1 = "f x1 ?k (ld data (at + w))"
      and ?y2 = "f x2 ?k (ld data (at + 2 * w))" and ?y3 = "f x3 ?k (ld data (at + 3 * w))"
    let ?xs = "lanes x0 @ lanes x1 @ lanes x2 @ lanes x3"
    have ys: "lanes ?y0 @ lanes ?y1 @ lanes ?y2 @ lanes ?y3 = fold_lanes (4 * (128 * n)) ?xs (loads data at (4 * n))"
      using less.prems(2) unfolding four_loads [symmetric] by (simp add: lanes_fold lanes_load fold_lanes_append)
    have "lanes_crc step (lanes ?y0 @ lanes ?y1 @ lanes ?y2 @ lanes ?y3) = lanes_crc step (?xs @ loads data at (4 * n))"
      unfolding ys using fold_is_append [of ?xs "loads data at (4 * n)" "4 * (128 * n)" "[]"] less.prems(2) some_lanes
      by force
    then have "holds step s data (at + 4 * w) (lanes ?y0 @ lanes ?y1 @ lanes ?y2 @ lanes ?y3)"
      using holds_append [OF less.prems(3) room(1)] by (simp add: holds_def width)
    moreover have "\<forall>y \<in> {?y0, ?y1, ?y2, ?y3}. length (lanes y) = n"
      using less.prems(2) by (simp add: lanes_fold lanes_load)
    moreover have "quad_loop f ?k ld w (?y0, ?y1, ?y2, ?y3) data (at + 4 * w) = ((y0, y1, y2, y3), at')"
      using less.prems(1) True some_lanes width by (subst (asm) quad_loop.simps) simp
    ultimately show ?thesis
      using less.hyps [OF room(2)] by blast
  next
    case False
    then show ?thesis
      using less.prems by (subst (asm) quad_loop.simps) simp
  qed
qed

lemma fold_holds:
  assumes "holds step s data at (lanes x @ lanes y @ zs)" and "length (lanes x) = n" and "length (lanes y) = n"
  shows "holds step s data at (lanes (f x (pr (fold_pair (128 * n))) y) @ zs)
    \<and> length (lanes (f x (pr (fold_pair (128 * n))) y)) = n"
  using assms fold_is_append [of "lanes x" "lanes y" "128 * n" zs] some_lanes
  by (auto simp: holds_def lanes_fold)

lemma one_holds:
  assumes "one_loop f (pr (fold_pair (128 * n))) ld w x data at = (y, at')"
    and "length (lanes x) = n" and "holds step s data at (lanes x)"
  shows "length (lanes y) = n \<and> holds step s data at' (lanes y)"
  using assms
proof (induction "length data - at" arbitrary: x at rule: less_induct)
  case less
  let ?k = "pr (fold_pair (128 * n))"
  show ?case
  proof (cases "w \<le> length data - at")
    case True
    have room: "at + 16 * n \<le> length data" "length data - (at + w) < length data - at"
      using True some_lanes less.prems(3) width by (auto simp: holds_def)
    have "holds step s data (at + w) (lanes (f x ?k (ld data at))) \<and> length (lanes (f x ?k (ld data at))) = n"
      using fold_holds [of s data "at + w" x "ld data at" "[]"] holds_append [OF less.prems(3) room(1)] less.prems(2)
      by (simp add: lanes_load width)
    moreover have "one_loop f ?k ld w (f x ?k (ld data at)) data (at + w) = (y, at')"
      using less.prems(1) True some_lanes width by (subst (asm) one_loop.simps) simp
    ultimately show ?thesis
      using less.hyps [OF room(2)] by blast
  next
    case False
    then show ?thesis
      using less.prems by (subst (asm) one_loop.simps) simp
  qed
qed

text \<open>Four registers into one, the earliest first.\<close>

lemma merge_holds:
  assumes "holds step s data at (lanes x0 @ lanes x1 @ lanes x2 @ lanes x3)"
    and "\<forall>x \<in> {x0, x1, x2, x3}. length (lanes x) = n" and "k = pr (fold_pair (128 * n))"
  shows "holds step s data at (lanes (f (f (f x0 k x1) k x2) k x3)) \<and> length (lanes (f (f (f x0 k x1) k x2) k x3)) = n"
proof -
  have len: "length (lanes x0) = n" "length (lanes x1) = n" "length (lanes x2) = n" "length (lanes x3) = n"
    using assms(2) by simp_all
  note a = fold_holds [OF assms(1) len(1,2), folded assms(3)]
  note b = fold_holds [OF a [THEN conjunct1] a [THEN conjunct2] len(3), folded assms(3)]
  show ?thesis
    using fold_holds [of s data at "f (f x0 k x1) k x2" x3 "[]"] b len(4) by (simp add: assms(3))
qed

text \<open>A body: four registers to the last whole round, into one, and on a register at a time.\<close>

lemma body_holds:
  assumes "holds step s data at (lanes x0 @ lanes x1 @ lanes x2 @ lanes x3)"
    and "\<forall>x \<in> {x0, x1, x2, x3}. length (lanes x) = n"
    and "quad_loop f (pr (fold_pair (4 * (128 * n)))) ld w (x0, x1, x2, x3) data at = ((y0, y1, y2, y3), at1)"
    and "one_loop f (pr (fold_pair (128 * n))) ld w
      (f (f (f y0 (pr (fold_pair (128 * n))) y1) (pr (fold_pair (128 * n))) y2) (pr (fold_pair (128 * n))) y3) data at1
      = (y, at2)"
  shows "length (lanes y) = n \<and> holds step s data at2 (lanes y)"
  using quad_holds [OF assms(3,2,1)] merge_holds [OF _ _ refl, of s data at1 y0 y1 y2 y3] one_holds [OF assms(4)]
  by blast

end

section \<open>The bodies\<close>

lemma loads_few:
  "loads data at 1 = [load data at]" "loads data at 2 = [load data at, load data (at + 16)]"
  "loads data at 3 = [load data at, load data (at + 16), load data (at + 32)]"
  "loads data at 4 = [load data at, load data (at + 16), load data (at + 32), load data (at + 48)]"
  by (simp_all add: loads_def upt_rec)

lemmas loads_1 = loads_few(1) [unfolded One_nat_def]

lemma arm_forms: "arm_fold = fold_next" "arm_pair = pair"
  by (simp_all add: fun_eq_iff arm_fold_def fold_next_def clmulepi64_00_def clmulepi64_11_def arm_pair_def pair_def
      set_epi64x_def)

text \<open>A wide register folds in each of its lanes, which all have the same pair.\<close>

lemma wide_fold:
  "length x = n \<Longrightarrow> length y = n \<Longrightarrow>
    xor_lanes (xor_lanes (map2 clmulepi64_00 x (replicate n k)) (map2 clmulepi64_11 x (replicate n k))) y
    = map2 (\<lambda>x y. fold_next x k y) x y"
  by (rule nth_equalityI) (simp_all add: xor_lanes_def fold_next_def)

interpretation pclmul: fold_registers "table_step POLY_IEEE" "\<lambda>x. [x]" fold_next pair load 16 1
  by unfold_locales (simp_all add: fold_lanes_def loads_def)

interpretation vpclmul256: fold_registers "table_step POLY_IEEE" "\<lambda>x. x" fold256 pair256 load256 32 2
  by unfold_locales (simp_all add: fold_lanes_def fold256_def pair256_def wide_fold load256_def loads_few)

interpretation vpclmul512: fold_registers "table_step POLY_IEEE" "\<lambda>x. x" fold512 pair512 load512 64 4
  by unfold_locales (simp_all add: fold_lanes_def fold512_def pair512_def wide_fold load512_def loads_few)

lemma finish_crc:
  assumes "holds (table_step POLY_IEEE) s data at [x]"
  shows "finish x data at = crc_bytes (table_step POLY_IEEE) s data"
proof -
  obtain y at' where loop: "one_loop fold_next (pair FOLD_1X128) load 16 x data at = (y, at')"
    by fastforce
  then have "holds (table_step POLY_IEEE) s data at' [y]"
    using pclmul.one_holds [of x data at y at' s] assms by (simp add: FOLD_1X128_def)
  then show ?thesis
    using ieee.holds_finish [of s data at' y] by (simp add: finish_def loop clmul_is_vmull update_scalar_ieee_crc)
qed

text \<open>Four 128-bit registers, as PCLMULQDQ and PMULL fold them.\<close>

lemma four_lanes:
  assumes "64 \<le> length data"
    and "quad_loop fold_next (pair FOLD_4X128) load 16
      (load data 0 XOR ucast s, load data 16, load data 32, load data 48) data 64 = ((y0, y1, y2, y3), at)"
  defines "k1 \<equiv> pair FOLD_1X128"
  shows "holds (table_step POLY_IEEE) s data at [fold_next (fold_next (fold_next y0 k1 y1) k1 y2) k1 y3]"
proof -
  have "holds (table_step POLY_IEEE) s data 64 ((load data 0 XOR ucast s) # loads data 16 3)"
    using ieee.holds_first [of 3 data s] assms(1) by simp
  then have "holds (table_step POLY_IEEE) s data at ([y0] @ [y1] @ [y2] @ [y3])"
    using pclmul.quad_holds [where s = s and data = data and at = 64] assms(2)
    by (simp add: FOLD_4X128_def loads_few)
  then show ?thesis
    using pclmul.merge_holds [of s data at y0 y1 y2 y3 k1] by (simp add: k1_def FOLD_1X128_def)
qed

lemma fold_128_scalar: "64 \<le> length data \<Longrightarrow> fold_128 s data = update_scalar_ieee s data"
  by (auto simp: fold_128_def update_scalar_ieee_crc Let_def split: prod.split intro!: finish_crc dest: four_lanes)

lemma update_pclmul_scalar: "update_pclmul s data = update_scalar_ieee s data"
  by (simp add: update_pclmul_def fold_128_scalar)

lemma update_pmull_scalar: "update_pmull s data = update_scalar_ieee s data"
proof (cases "length data < 64")
  case False
  define x0 where "x0 = load data 0 XOR ucast s"
  define k1 where "k1 = pair FOLD_1X128"
  obtain y0 y1 y2 y3 at1 where quad: "quad_loop fold_next (pair FOLD_4X128) load 16
      (x0, load data 16, load data 32, load data 48) data 64 = ((y0, y1, y2, y3), at1)"
    by (metis prod.exhaust)
  obtain y at2 where loop: "one_loop fold_next k1 load 16 (fold_next (fold_next (fold_next y0 k1 y1) k1 y2) k1 y3) data at1
      = (y, at2)"
    by fastforce
  have "holds (table_step POLY_IEEE) s data 64 ([x0] @ [load data 16] @ [load data 32] @ [load data 48])"
    using ieee.holds_first [of 3 data s] False by (simp add: x0_def loads_few)
  then have "holds (table_step POLY_IEEE) s data at2 [y]"
    using pclmul.body_holds [of s data 64 x0 "load data 16" "load data 32" "load data 48" y0 y1 y2 y3 at1 y at2] quad loop
    by (simp add: k1_def FOLD_1X128_def FOLD_4X128_def)
  then have "crc_bytes (table_step POLY_IEEE) (reduce_128 y vmull_p64) (drop at2 data) = crc_bytes (table_step POLY_IEEE) s data"
    by (rule ieee.holds_finish)
  then show ?thesis
    using False loop quad
    by (simp add: update_pmull_def arm_forms update_scalar_ieee_crc flip: k1_def x0_def)
qed (simp add: update_pmull_def)

lemma update_vpclmul256_scalar: "update_vpclmul256 s data = update_scalar_ieee s data"
proof (cases "length data < 128")
  case False
  define x0 where "x0 = xor_lanes (load256 data 0) [ucast s, 0]"
  define k1 where "k1 = pair256 FOLD_1X256"
  obtain y0 y1 y2 y3 at1 where quad: "quad_loop fold256 (pair256 FOLD_4X256) load256 32
      (x0, load256 data 32, load256 data 64, load256 data 96) data 128 = ((y0, y1, y2, y3), at1)"
    by (metis prod.exhaust)
  obtain y at2 where loop: "one_loop fold256 k1 load256 32 (fold256 (fold256 (fold256 y0 k1 y1) k1 y2) k1 y3) data at1
      = (y, at2)"
    by fastforce
  have "loads data 16 7 = load data 16 # load256 data 32 @ load256 data 64 @ load256 data 96"
    using loads_add [of data 16 1 6] loads_add [of data 32 2 4] loads_add [of data 64 2 2]
    by (simp add: loads_few loads_1 load256_def)
  then have "holds (table_step POLY_IEEE) s data 128
      (x0 @ load256 data 32 @ load256 data 64 @ load256 data 96)"
    using ieee.holds_first [of 7 data s] False by (simp add: x0_def load256_def xor_lanes_def)
  then have "length y = 2 \<and> holds (table_step POLY_IEEE) s data at2 y"
    using vpclmul256.body_holds [of s data 128 x0 "load256 data 32" "load256 data 64" "load256 data 96" y0 y1 y2 y3 at1 y at2] quad loop
    by (simp add: k1_def FOLD_1X256_def FOLD_4X256_def x0_def xor_lanes_def load256_def)
  then have "holds (table_step POLY_IEEE) s data at2 ([y ! 0] @ [y ! 1] @ [])"
    by (auto simp: numeral_eq_Suc length_Suc_conv)
  then have "holds (table_step POLY_IEEE) s data at2 [fold_next (y ! 0) (pair FOLD_1X128) (y ! 1)]"
    using pclmul.fold_holds [of s data at2 "y ! 0" "y ! 1" "[]"] by (simp add: FOLD_1X128_def)
  then show ?thesis
    using False loop quad finish_crc
    by (simp add: update_vpclmul256_def update_scalar_ieee_crc flip: k1_def x0_def)
qed (simp add: update_vpclmul256_def fold_128_scalar)

lemma update_vpclmul512_scalar: "update_vpclmul512 s data = update_scalar_ieee s data"
proof (cases "length data < 256")
  case False
  define x0 where "x0 = xor_lanes (load512 data 0) [ucast s, 0, 0, 0]"
  define k1 where "k1 = pair512 FOLD_1X512"
  obtain z0 z1 z2 z3 at1 where quad: "quad_loop fold512 (pair512 FOLD_4X512) load512 64
      (x0, load512 data 64, load512 data 128, load512 data 192) data 256 = ((z0, z1, z2, z3), at1)"
    by (metis prod.exhaust)
  obtain z at2 where loop: "one_loop fold512 k1 load512 64 (fold512 (fold512 (fold512 z0 k1 z1) k1 z2) k1 z3) data at1
      = (z, at2)"
    by fastforce
  have "loads data 16 15 = loads data 16 3 @ load512 data 64 @ load512 data 128 @ load512 data 192"
    using loads_add [of data 16 3 12] loads_add [of data 64 4 8] loads_add [of data 128 4 4]
    by (simp add: loads_few(4) load512_def)
  then have "holds (table_step POLY_IEEE) s data 256
      (x0 @ load512 data 64 @ load512 data 128 @ load512 data 192)"
    using ieee.holds_first [of 15 data s] False by (simp add: x0_def load512_def xor_lanes_def loads_few(3))
  then have "length z = 4 \<and> holds (table_step POLY_IEEE) s data at2 z"
    using vpclmul512.body_holds [of s data 256 x0 "load512 data 64" "load512 data 128" "load512 data 192" z0 z1 z2 z3 at1 z at2] quad loop
    by (simp add: k1_def FOLD_1X512_def FOLD_4X512_def x0_def xor_lanes_def load512_def)
  then have "holds (table_step POLY_IEEE) s data at2 [z ! 0, z ! 1, z ! 2, z ! 3]"
    by (auto simp: numeral_eq_Suc length_Suc_conv)
  then have "holds (table_step POLY_IEEE) s data at2
      [(fold_next (z ! 0) (pair FOLD_3X128) 0 XOR fold_next (z ! 1) (pair FOLD_1X256) 0)
        XOR fold_next (z ! 2) (pair FOLD_1X128) (z ! 3)]"
    by (simp add: holds_def bits_crc_xor ieee.fold_crc FOLD_1X128_def FOLD_1X256_def FOLD_3X128_def xor.assoc)
  then show ?thesis
    using False loop quad finish_crc
    by (simp add: update_vpclmul512_def update_scalar_ieee_crc flip: k1_def x0_def)
qed (simp add: update_vpclmul512_def fold_128_scalar)

lemma tiers_scalar:
  "tiered_update t m env s data = update_scalar s data" "ieee_update t m env s data = update_scalar_ieee s data"
  by (simp_all add: tiered_update_def ieee_update_def Let_def update_sse42_scalar update_crc_scalar update_pclmul_scalar
      update_pmull_scalar update_vpclmul256_scalar update_vpclmul512_scalar split: arch.split)

section \<open>What a checksum is\<close>

text \<open>The division one bit at a time, each byte's lowest bit first.\<close>

definition crc_serial :: "u32 \<Rightarrow> u32 \<Rightarrow> u8 list \<Rightarrow> u32" where
  "crc_serial poly state data =
     foldl (\<lambda>s b. table_step poly (s XOR of_bool b)) state (concat (map (\<lambda>b. map (bit b) [0..<8]) data))"

context shift_register
begin

lemma steps_serial:
  "n \<le> 32 \<Longrightarrow> foldl (\<lambda>s b. step (s XOR of_bool b)) s (map (bit c) [0..<n]) = (step ^^ n) (s XOR take_bit n c)"
  for c :: u32
proof (induction n)
  case (Suc n)
  have "take_bit (Suc n) c = take_bit n c XOR (if bit c n then push_bit n 1 else 0)"
    by (rule bit_word_eqI) (auto simp: bit_simps less_Suc_eq)
  moreover have "(step ^^ n) (push_bit n 1) = 1"
    by (rule steps_push) (use Suc.prems in \<open>simp add: bit_1_iff\<close>)
  ultimately have "(step ^^ n) (s XOR take_bit (Suc n) c) = (step ^^ n) (s XOR take_bit n c) XOR of_bool (bit c n)"
    by (simp add: steps_xor xor.assoc)
  then show ?case
    using Suc by simp
qed simp

lemma byte_serial: "foldl (\<lambda>s b. step (s XOR of_bool b)) s (map (bit b) [0..<8]) = byte_step step s b" for b :: u8
proof -
  have "map (bit b) [0..<8] = map (bit (ucast b :: u32)) [0..<8]"
    by (rule map_cong) (auto simp: bit_ucast_iff simp del: upt_rec_numeral)
  moreover have "take_bit 8 (ucast b :: u32) = ucast b"
    by (rule bit_word_eqI) (auto simp: bit_simps dest: bit_imp_le_length)
  ultimately show ?thesis
    using steps_serial [of 8 s "ucast b"] by (simp only: byte_step_def)
qed

lemma bytes_serial:
  "foldl (\<lambda>s b. step (s XOR of_bool b)) s (concat (map (\<lambda>b. map (bit b) [0..<8]) data)) = crc_bytes step s data"
  by (induction data arbitrary: s) (simp_all only: list.map concat.simps foldl_append byte_serial crc_bytes_simps foldl_Nil)

text \<open>The register of data that differ in four bytes in a row differs.\<close>

lemma crc_bytes_inject: "crc_bytes step s v = crc_bytes step s' v \<Longrightarrow> s = s'"
proof -
  assume "crc_bytes step s v = crc_bytes step s' v"
  then have "(step ^^ (8 * length v)) s XOR crc_bytes step 0 v = (step ^^ (8 * length v)) s' XOR crc_bytes step 0 v"
    using crc_bytes_from [of s v] crc_bytes_from [of s' v] by simp
  then have "(step ^^ (8 * length v)) s = (step ^^ (8 * length v)) s'"
    by (simp only: xor_cancel)
  then show ?thesis
    by (rule steps_inject)
qed

lemma le_word_bit:
  "8 * length v \<le> LENGTH('a) \<Longrightarrow> k < length v \<Longrightarrow> j < 8 \<Longrightarrow> bit (le_word v :: 'a :: len word) (8 * k + j) = bit (v ! k) j"
proof (induction v arbitrary: k)
  case (Cons b v)
  show ?case
  proof (cases k)
    case (Suc k')
    then show ?thesis
      using Cons.IH [of k'] Cons.prems by (auto simp: bit_simps dest: bit_imp_le_length)
  qed (use Cons.prems in \<open>auto simp: bit_simps dest: bit_imp_le_length\<close>)
qed simp

lemma le_word_inject:
  assumes "length u = length v" and "8 * length v \<le> LENGTH('a)" and "(le_word u :: 'a :: len word) = le_word v"
  shows "u = v"
proof (rule nth_equalityI [OF assms(1)])
  fix k assume "k < length u"
  then show "u ! k = v ! k"
    using le_word_bit [of u k, where 'a = 'a] le_word_bit [of v k, where 'a = 'a] assms
    by (intro bit_word_eqI) simp
qed

lemma crc_bytes_burst:
  assumes "crc_bytes step s u = crc_bytes step s v" and "length u = length v" and "length v \<le> 4"
  shows "u = v"
proof -
  have whole: "(step ^^ (32 - 8 * length w)) (crc_bytes step 0 w) = (step ^^ 32) (le_word w)" if "length w \<le> 4" for w
  proof -
    have "bits_crc step (8 * length w + (32 - 8 * length w)) (le_word w :: u32)
        = (step ^^ (32 - 8 * length w)) (bits_crc step (8 * length w) (le_word w :: u32))"
      by (rule bits_crc_later) (use bits_le_word in fastforce)
    then show ?thesis
      using that by (simp add: le_word_crc bits_crc_word)
  qed
  have "crc_bytes step 0 u = crc_bytes step 0 v"
    using assms(1,2) crc_bytes_from [of s u] crc_bytes_from [of s v]
    by (simp add: xor_cancel)
  then have "(step ^^ 32) (le_word u) = (step ^^ 32) (le_word v :: u32)"
    using whole [of u] whole [of v] assms(2,3) by simp
  then have "(le_word u :: u32) = le_word v"
    by (rule steps_inject)
  then show ?thesis
    using le_word_inject [of u v, where 'a = 32] assms(2,3) by simp
qed

lemma burst_seen:
  assumes "length u = length v" and "length v \<le> 4" and "u \<noteq> v"
  shows "crc_bytes step s (p @ u @ q) \<noteq> crc_bytes step s (p @ v @ q)"
proof
  assume "crc_bytes step s (p @ u @ q) = crc_bytes step s (p @ v @ q)"
  then have "crc_bytes step (crc_bytes step s p) u = crc_bytes step (crc_bytes step s p) v"
    by (simp only: crc_bytes_simps) (rule crc_bytes_inject)
  then have "u = v"
    by (rule crc_bytes_burst) (rule assms)+
  then show False
    using assms(3) by simp
qed

end

text \<open>The public functions over the registers.\<close>

lemma appends_crc:
  "crc32c_append t m env crc data = NOT (crc_bytes (table_step POLY) (NOT crc) data)"
  "crc32_append t m env crc data = NOT (crc_bytes (table_step POLY_IEEE) (NOT crc) data)"
  by (simp_all add: crc32c_append_def crc32_append_def tiers_scalar update_scalar_crc update_scalar_ieee_crc)

text \<open>
  C30: on every target, machine and \<open>PWRS_CPU_MAX\<close>, and for data of any length, both checksums and their running forms
  give what the scalar forms give, so every body, instruction and folding constant is the polynomial's own.
\<close>

theorem checksums_are_scalar:
  "crc32c_append t m env crc data = crc32c_append_scalar crc data
   \<and> crc32_append t m env crc data = crc32_append_scalar crc data
   \<and> crc32c t m env data = crc32c_append_scalar 0 data \<and> crc32 t m env data = crc32_append_scalar 0 data"
  by (simp add: appends_crc crc32c_def crc32_def crc32c_append_scalar_def crc32_append_scalar_def update_scalar_crc
      update_scalar_ieee_crc)

text \<open>
  C31: a checksum is the division by the polynomial one bit at a time, each byte's lowest bit first, of a register that
  starts and ends inverted; and a checksum continued over the next piece is the checksum of both pieces in a row.
\<close>

theorem checksums_divide:
  "crc32c_append t m env crc data = NOT (crc_serial POLY (NOT crc) data)
   \<and> crc32_append t m env crc data = NOT (crc_serial POLY_IEEE (NOT crc) data)
   \<and> crc32c_append t m env (crc32c_append t m env crc data) after = crc32c_append t m env crc (data @ after)
   \<and> crc32_append t m env (crc32_append t m env crc data) after = crc32_append t m env crc (data @ after)"
  by (simp add: appends_crc crc_serial_def castagnoli.bytes_serial ieee.bytes_serial del: upt_rec_numeral)

text \<open>
  C32: damage within four bytes in a row changes both checksums: of two slices of one length that differ only there, the
  checksums differ, whatever came before.
\<close>

theorem bursts_change_checksums:
  assumes "length u = length v" and "length v \<le> 4" and "u \<noteq> v"
  shows "crc32c_append t m env crc (before @ u @ behind) \<noteq> crc32c_append t m env crc (before @ v @ behind)
    \<and> crc32_append t m env crc (before @ u @ behind) \<noteq> crc32_append t m env crc (before @ v @ behind)"
  using castagnoli.burst_seen [OF assms] ieee.burst_seen [OF assms] by (simp add: appends_crc del: crc_bytes_simps)

theorem bursts_change_checksums_witness:
  "\<forall>t m env crc. crc32_append t m env crc [1, 2, 3] \<noteq> crc32_append t m env crc [1, 7, 3]"
  using bursts_change_checksums [of "[2]" "[7]" _ _ _ _ "[1]" "[3]"] by simp

end
