(* ===== verification/Spec2Isabelle.thy ===== *)
theory Spec2Isabelle
  imports Cfg Clixml_Escapes Clixml_Documents Class_Records Cpu_Laws Cpu_Required Pdb Stop_Waker Worker_Calls
    Gf256_Tiers Utf16 Json_Pieces Jobs Class_Laws Column_Laws Distance_Laws Merge_Laws Pinned_Laws Checksum_Laws
begin

text \<open>
  PWRS lets a Rust crate be a PowerShell module. The crate \<open>pwrs\<close> is the library a module is written
  with and the code that runs in it: cmdlets, streams, workers, jobs, stop handling, text conversion,
  CPU detection and vector kernels. \<open>pwrs-macros\<close> turns attributes into descriptors, \<open>cargo-pwrs\<close> builds
  a module folder out of a compiled library and the descriptor it carries, and merges the folders of
  several platforms into one, \<open>pwrs-build\<close> runs the
  PowerShell hosts and the C# compiler for it. This development models the parts whose behaviour is
  decided by the repository's own Rust code.

  \<^bold>\<open>How the parts meet.\<close> A library publishes the extensions it was compiled with and the classes it
  exports as marked texts in its own bytes (\<open>crates/pwrs/src/cpu.rs\<close>, \<open>export_module!\<close>); \<open>cargo-pwrs\<close>
  reads them back out of the file (\<open>Cpu_Required\<close>, \<open>Class_Records\<close>), and reads the name of the symbol
  file out of a Windows image (\<open>Pdb\<close>); the folders it builds are merged by \<open>Merge\<close>. The macros write a descriptor as JSON with sentinels where the
  compiler fills a piece in (\<open>Json\<close>, \<open>Json_Pieces\<close>). A host's error stream goes through the CLIXML
  decoder before a build prints it (\<open>Clixml_*\<close>). At run time a cmdlet's work runs on workers or in a
  job, each of which the pipeline's stop reaches through a slot for one waker (\<open>Worker_*\<close>, \<open>Jobs\<close>,
  \<open>Stop_Waker\<close>); strings cross to .NET as UTF-16 (\<open>Utf16\<close>), sized allocations are fallible
  (\<open>Fallible\<close>), arrays of the managed heap are viewed or copied while pinned (\<open>Pinned\<close>), and the
  vector kernels choose a body by the level \<open>Cpu_Features\<close> detects.

  \<^bold>\<open>Theories and the code they model\<close>, each with its lemmas in the theory or the one after it:

  \<^item> \<open>Prelude\<close>: searching slices, UTF-8, numbers, joined text, and the result monad all parts share.
  \<^item> \<open>Cfg\<close>: \<open>crates/cargo-pwrs/src/cfg.rs\<close>. The tokenizer, the parser and the evaluator of
    \<open>cfg(...)\<close>; the parser accepts exactly the grammar, and what is printed is read back.
  \<^item> \<open>Clixml_Text\<close>, \<open>Clixml_Decoder\<close>: \<open>crates/pwrs-build/src/clixml.rs\<close>. \<open>Clixml_Escapes\<close>, \<open>Clixml_Laws\<close>,
    \<open>Clixml_Streams\<close> and \<open>Clixml_Documents\<close> show that escapes read back, that plain streams pass, and that
    a document of text records comes to its lines however it is cut into reads.
  \<^item> \<open>Marker_Scan\<close> (the interface of a loop that looks for marked texts), \<open>Class_Records\<close>:
    \<open>crates/cargo-pwrs/src/records.rs\<close>, \<open>Cpu_Required\<close>: \<open>crates/cargo-pwrs/src/cpu.rs\<close>, \<open>Pdb\<close>:
    \<open>crates/cargo-pwrs/src/pdb.rs\<close>. What a build reads out of a file's bytes is what the library holds.
  \<^item> \<open>Merge\<close>, \<open>Merge_Laws\<close>: \<open>crates/cargo-pwrs/src/merge.rs\<close> on trees of folders and files. What a merge
    brings, what it leaves as it was, and the trees it tells apart.
  \<^item> \<open>Cpu_Features\<close>, \<open>Cpu_Laws\<close>, \<open>Cpu_Lists\<close>: \<open>crates/pwrs/src/cpu.rs\<close>. Detection from CPUID and XGETBV,
    the cap, the levels and tiers, and the requirement list.
  \<^item> \<open>Transitions\<close> (step relations of threads), \<open>Stop_Waker\<close>: \<open>crates/pwrs/src/stop.rs\<close>,
    \<open>Worker_Pool\<close>, \<open>Worker_Places\<close>, \<open>Worker_Calls\<close>: \<open>par_map\<close> and \<open>par_for_each\<close> of
    \<open>crates/pwrs/src/worker.rs\<close>, \<open>Jobs\<close>: \<open>crates/pwrs/src/job.rs\<close>. Every interleaving of the threads is a
    path of an inductive step relation; the properties are invariants, or bounds on a thread's own steps.
  \<^item> \<open>Ps_Records\<close>: the error and progress records of \<open>crates/pwrs/src/error.rs\<close> and \<open>progress.rs\<close>.
  \<^item> \<open>Fallible\<close>: \<open>crates/pwrs/src/fallible.rs\<close>, \<open>Utf16\<close>: \<open>crates/pwrs/src/text.rs\<close>, \<open>Json\<close> and
    \<open>Json_Pieces\<close>: \<open>crates/pwrs-macros/src/json.rs\<close>.
  \<^item> \<open>Pinned\<close>, \<open>Pinned_Laws\<close>: \<open>crates/pwrs/src/pinned.rs\<close>. The list of pinned ranges with its exclusive and
    shared entries, the streaming copies in their chunks, and the layout of a memory of the host.
  \<^item> \<open>Simd\<close>, \<open>Simd_Lanes\<close>, \<open>Bit_Masks\<close>: the vector instructions of x86-64 and AArch64 on lists of lanes, after the
    vendors' manuals. \<open>Gf256\<close>, \<open>Gf256_Tiers\<close>: \<open>crates/pwrs/src/simd/gf256.rs\<close>; \<open>Byte_Search\<close>, \<open>Byte_Laws\<close>:
    \<open>simd/bytes.rs\<close>; \<open>Byte_Class\<close>, \<open>Class_Scans\<close>, \<open>Class_Laws\<close>: \<open>simd/bytes/class.rs\<close>; \<open>Column_Filter\<close>,
    \<open>Column_Laws\<close>: \<open>simd/filter.rs\<close>; \<open>Int_Reductions\<close>, \<open>Int_Laws\<close>: \<open>simd/ints.rs\<close>; \<open>Distance\<close>,
    \<open>Distance_Laws\<close>: \<open>simd/distance.rs\<close>; \<open>Checksums\<close>, with \<open>Crc_Register\<close>, \<open>Crc_Folding\<close>, \<open>Crc_Reduce\<close>,
    \<open>Crc_Tables\<close> and \<open>Checksum_Laws\<close>: \<open>simd/checksums.rs\<close>. \<open>Gf2_Sums\<close> holds the sums over GF(2) that the
    products and the checksums share. Every body of every tier gives what the scalar form gives, and the
    scalar forms are characterised on their own.

  \<^bold>\<open>Interfaces.\<close> \<open>marked_loop\<close>, \<open>document_invariant\<close>, \<open>ladder\<close>, \<open>protocol\<close> and \<open>wait_free\<close>, \<open>block_kernel\<close>,
  \<open>lane_mask\<close>, \<open>candidate_mask\<close>, \<open>class_lanes\<close>, \<open>row_mask\<close>, \<open>block_fold\<close>, \<open>any_order\<close>, \<open>lane_reduction\<close>,
  \<open>lane_choice\<close>, \<open>lane_count\<close>, \<open>lane_distance\<close>, \<open>shift_register\<close> with \<open>crc_register\<close> and
  \<open>ieee_register\<close>, and \<open>fold_registers\<close> state what one part needs of another; each is
  interpreted on the model's own definitions, and the properties rest on those interpretations.

  \<^bold>\<open>Bounds and fuel.\<close> The parser of \<open>Cfg\<close> alone recurses on fuel, the number of tokens and one;
  \<open>Cfg.parse_returns\<close> is that it never runs out. Every other loop is a \<open>function\<close> with its termination
  proved: by the bytes left of a slice, the set bits left of a mask, or the bytes open documents hold.
  Words are kept at their width where they can wrap (products, tables, masks, the lanes NEON counts in,
  \<open>i32\<close> columns); an index into a slice is a natural, since a slice is at most \<open>isize::MAX\<close> bytes long.
  Where the source relies on a bound, the bound is a lemma: the numbers of CLIXML escapes below
  \<open>2\<^sup>3\<^sup>2\<close>, the requirement list within its array, 255 rounds of a \<open>u8\<close> lane.

  \<^bold>\<open>Code that is not in the repository\<close> is an argument: the allocator of \<open>Fallible\<close>, the conversion a
  string writer runs in \<open>Utf16\<close>, what \<open>rustc\<close> prints, what CPUID returns, what a cmdlet's phases and a
  worker's closure return.

  \<^bold>\<open>Not modelled.\<close> The generators of C#, manifests, format files and help, and the type readers that feed
  them: their meaning is in the C# compiler and PowerShell. The command line, downloads, signing and
  running of hosts: input and output of other programs. The attribute macros other than the JSON they
  write: functions over the syntax trees of third-party crates. The C ABI, the entry points and the
  conversions of values: each is a call through the managed runtime's function table; for the same reason
  \<open>Pinned\<close> starts where the host has handed a pin over, and leaves out the conversion of a \<open>Decimal\<close>. In
  \<open>Merge\<close> the operating system refuses nothing and the folders hold no links. The float kernels: rounding
  is not in the libraries used here. \<open>PROJECT.json\<close> lists each of these with its files.
\<close>

end
